(* ===== verification/Prelude.thy ===== *)
theory Prelude
  imports Main "HOL-Library.Word"
begin

text \<open>
  Shared vocabulary of the development: the machine types of the C sources, the
  loop shapes that recur in every module, and the lemmas about them.

  \<^item> \<open>u8\<close>, \<open>u16\<close>, \<open>u32\<close>, \<open>u64\<close> are the fixed-width unsigned types;
    arithmetic on them wraps as it does in C.
  \<^item> \<open>first_idx\<close> is the loop
    \<^verbatim>\<open>for (i = 0; i < N; i++) if (P(t[i])) return i;\<close>.
  \<^item> \<open>count_if\<close> is the loop that counts the slots of a static table that satisfy
    a test.
  \<^item> \<open>ring_read\<close> is the contents of a ring buffer: \<open>n\<close> cells from a cursor,
    modulo the capacity.
\<close>

unbundle bit_operations_syntax

section \<open>Machine types\<close>

type_synonym u8 = "8 word"
type_synonym u16 = "16 word"
type_synonym u32 = "32 word"
type_synonym u64 = "64 word"
type_synonym bytes = "u8 list"

named_theorems table_simps \<open>facts about scans of static tables\<close>
named_theorems ring_simps \<open>facts about ring buffers\<close>

section \<open>Scanning a static table\<close>

fun first_idx :: "('a \<Rightarrow> bool) \<Rightarrow> 'a list \<Rightarrow> nat option" where
  "first_idx P [] = None"
| "first_idx P (x # xs) = (if P x then Some 0 else map_option Suc (first_idx P xs))"

lemma first_idx_None [table_simps]:
  "first_idx P xs = None \<longleftrightarrow> (\<forall>x\<in>set xs. \<not> P x)"
  by (induction xs) auto

lemma first_idx_Some:
  "first_idx P xs = Some i \<longleftrightarrow> i < length xs \<and> P (xs ! i) \<and> (\<forall>j<i. \<not> P (xs ! j))"
proof (induction xs arbitrary: i)
  case Nil
  then show ?case by simp
next
  case (Cons x xs)
  show ?case
  proof (cases i)
    case 0
    then show ?thesis by auto
  next
    case (Suc k)
    then show ?thesis using Cons.IH [of k] by (auto simp: less_Suc_eq_0_disj)
  qed
qed

lemma first_idx_SomeD [dest]:
  assumes "first_idx P xs = Some i"
  shows first_idx_less: "i < length xs" and first_idx_holds: "P (xs ! i)"
  using assms by (auto simp: first_idx_Some)

lemma first_idx_before:
  "first_idx P xs = Some i \<Longrightarrow> j < i \<Longrightarrow> \<not> P (xs ! j)"
  by (simp add: first_idx_Some)

lemma first_idx_replicate [simp]:
  "first_idx P (replicate n x) = (if P x \<and> 0 < n then Some 0 else None)"
  by (cases n) (auto simp: first_idx_None)

lemma first_idx_cong:
  "(\<And>x. x \<in> set xs \<Longrightarrow> P x = Q x) \<Longrightarrow> first_idx P xs = first_idx Q xs"
  by (induction xs) auto

lemma first_idx_unique:
  assumes "i < length xs" "P (xs ! i)"
    and "\<And>j. j < length xs \<Longrightarrow> P (xs ! j) \<Longrightarrow> j = i"
  shows "first_idx P xs = Some i"
  unfolding first_idx_Some
proof (intro conjI allI impI notI)
  fix j
  assume "j < i" "P (xs ! j)"
  with assms(1) assms(3) [of j] show False by simp
qed (use assms(1,2) in auto)

lemma first_idx_ex:
  assumes "x \<in> set xs" "P x"
  obtains i where "first_idx P xs = Some i"
proof (cases "first_idx P xs")
  case None
  with assms show ?thesis by (simp add: first_idx_None)
next
  case (Some i)
  then show ?thesis by (rule that)
qed

text \<open>The loop that counts the entries satisfying a test.\<close>

definition count_if :: "('a \<Rightarrow> bool) \<Rightarrow> 'a list \<Rightarrow> nat" where
  "count_if P xs = length (filter P xs)"

lemma count_if_simps [simp]:
  "count_if P [] = 0"
  "count_if P (x # xs) = (if P x then Suc (count_if P xs) else count_if P xs)"
  "count_if P (xs @ ys) = count_if P xs + count_if P ys"
  by (simp_all add: count_if_def)

lemma count_if_le [simp]: "count_if P xs \<le> length xs"
  by (simp add: count_if_def)

lemma count_if_replicate [simp]: "count_if P (replicate n x) = (if P x then n else 0)"
  by (simp add: count_if_def)

lemma count_if_update:
  assumes "i < length xs"
  shows "count_if P (xs[i := y]) + of_bool (P (xs ! i)) = count_if P xs + of_bool (P y)"
proof -
  have "count_if P xs = count_if P (take i xs @ xs ! i # drop (Suc i) xs)"
    using id_take_nth_drop [OF assms] by (rule arg_cong)
  then have "count_if P xs = count_if P (take i xs) + of_bool (P (xs ! i)) + count_if P (drop (Suc i) xs)"
    by simp
  moreover have "count_if P (xs[i := y]) =
      count_if P (take i xs) + of_bool (P y) + count_if P (drop (Suc i) xs)"
    using assms by (simp add: upd_conv_take_nth_drop)
  ultimately show ?thesis by simp
qed

lemma count_if_set [table_simps]:
  "i < length xs \<Longrightarrow> \<not> P (xs ! i) \<Longrightarrow> P y \<Longrightarrow> count_if P (xs[i := y]) = Suc (count_if P xs)"
  using count_if_update [of i xs P y] by simp

lemma count_if_clear [table_simps]:
  "i < length xs \<Longrightarrow> P (xs ! i) \<Longrightarrow> \<not> P y \<Longrightarrow> count_if P (xs[i := y]) = count_if P xs - 1"
  using count_if_update [of i xs P y] by simp

lemma count_if_keep [table_simps]:
  "i < length xs \<Longrightarrow> P (xs ! i) = P y \<Longrightarrow> count_if P (xs[i := y]) = count_if P xs"
  using count_if_update [of i xs P y] by (cases "P y") auto

lemma count_if_update_Suc: "count_if P (xs[i := y]) \<le> Suc (count_if P xs)"
  using count_if_update [of i xs P y] by (cases "i < length xs"; cases "P y"; cases "P (xs ! i)") (simp_all add: not_less list_update_beyond)

lemma count_if_update_le:
  assumes "P y \<Longrightarrow> P (xs ! i)"
  shows "count_if P (xs[i := y]) \<le> count_if P xs"
proof (cases "i < length xs")
  case True
  then show ?thesis using count_if_update [OF True, of P y] assms by (auto simp: of_bool_def split: if_splits)
qed (simp add: list_update_beyond)

lemma count_if_pos: "i < length xs \<Longrightarrow> P (xs ! i) \<Longrightarrow> 0 < count_if P xs"
  by (auto simp: count_if_def filter_empty_conv)

lemma count_if_full: "count_if P xs = length xs \<longleftrightarrow> (\<forall>x\<in>set xs. P x)"
proof
  assume "count_if P xs = length xs"
  then show "\<forall>x\<in>set xs. P x"
    using length_filter_less [of _ xs P] by (force simp: count_if_def)
qed (simp add: count_if_def)

lemma count_if_zero: "count_if P xs = 0 \<longleftrightarrow> (\<forall>x\<in>set xs. \<not> P x)"
  by (simp add: count_if_def filter_empty_conv)

lemma count_if_free_slot:
  "count_if P xs < length xs \<longleftrightarrow> (\<exists>i. first_idx (\<lambda>x. \<not> P x) xs = Some i)"
proof -
  have "count_if P xs < length xs \<longleftrightarrow> \<not> (\<forall>x\<in>set xs. P x)"
    using count_if_full [of P xs] count_if_le [of P xs] by linarith
  then show ?thesis
    using first_idx_None [of "\<lambda>x. \<not> P x" xs] by (cases "first_idx (\<lambda>x. \<not> P x) xs") auto
qed

text \<open>Updates of one cell and quantification over the table.\<close>

lemma all_nth_update:
  assumes "\<forall>j<length xs. Q j (xs ! j)" "i < length xs" "Q i y"
  shows "\<forall>j<length (xs[i := y]). Q j (xs[i := y] ! j)"
  using assms by (auto simp: nth_list_update)

lemma ball_update: "\<forall>x\<in>set xs. Q x \<Longrightarrow> Q y \<Longrightarrow> \<forall>x\<in>set (xs[i := y]). Q x"
  using set_update_subset_insert by fast

lemma upt_zero_numeral: "[0..<numeral k] = [0..<pred_numeral k] @ [pred_numeral k]"
  by (simp add: numeral_eq_Suc)

section \<open>Ring buffers\<close>

definition ring_read :: "'a list \<Rightarrow> nat \<Rightarrow> nat \<Rightarrow> 'a list" where
  "ring_read buf start n = map (\<lambda>k. buf ! ((start + k) mod length buf)) [0..<n]"

lemma ring_read_length [simp]: "length (ring_read buf start n) = n"
  by (simp add: ring_read_def)

lemma ring_read_0 [simp]: "ring_read buf start 0 = []"
  by (simp add: ring_read_def)

lemma ring_read_nth [simp]:
  "i < n \<Longrightarrow> ring_read buf start n ! i = buf ! ((start + i) mod length buf)"
  by (simp add: ring_read_def)

text \<open>Taking the oldest cell.\<close>

lemma ring_read_pop [ring_simps]:
  assumes "start < length buf"
  shows "ring_read buf start (Suc n) =
    buf ! start # ring_read buf ((start + 1) mod length buf) n"
proof -
  have "[0..<Suc n] = 0 # map Suc [0..<n]"
    by (simp add: upt_conv_Cons map_Suc_upt)
  moreover have "(start + Suc k) mod length buf = ((start + 1) mod length buf + k) mod length buf" for k
    by (simp add: mod_add_left_eq)
  ultimately show ?thesis
    using assms by (simp add: ring_read_def)
qed

text \<open>Writing the cell behind the newest one.\<close>

lemma ring_offset_inj:
  fixes m :: nat
  assumes "(a + i) mod m = (a + j) mod m" "i < m" "j < m"
  shows "i = j"
proof -
  have "int m dvd int (a + i) - int (a + j)"
    using arg_cong [OF assms(1), of int] by (simp only: of_nat_mod mod_eq_dvd_iff)
  then have "int m dvd int i - int j" by simp
  moreover have "\<bar>int i - int j\<bar> < int m" using assms(2,3) by linarith
  ultimately have "int i - int j = 0"
    using dvd_imp_le_int [of "int i - int j" "int m"] by linarith
  then show ?thesis by simp
qed

lemma ring_read_push [ring_simps]:
  assumes "n < length buf"
  shows "ring_read (buf[(start + n) mod length buf := x]) start (Suc n) = ring_read buf start n @ [x]"
proof (rule nth_equalityI)
  fix i
  assume "i < length (ring_read (buf[(start + n) mod length buf := x]) start (Suc n))"
  then have i: "i < Suc n" by simp
  have "(start + n) mod length buf < length buf" using assms by (intro mod_less_divisor) auto
  moreover have "(start + i) mod length buf = (start + n) mod length buf \<longleftrightarrow> i = n"
    using ring_offset_inj [of start i "length buf" n] i assms by auto
  ultimately show "ring_read (buf[(start + n) mod length buf := x]) start (Suc n) ! i =
      (ring_read buf start n @ [x]) ! i"
    using i by (auto simp: nth_append nth_list_update less_Suc_eq)
qed simp

lemma ring_read_take: "k \<le> n \<Longrightarrow> take k (ring_read buf start n) = ring_read buf start k"
  by (rule nth_equalityI) auto

lemma ring_read_drop:
  "drop k (ring_read buf start n) = ring_read buf ((start + k) mod length buf) (n - k)"
proof (rule nth_equalityI)
  fix i
  assume "i < length (drop k (ring_read buf start n))"
  then have "i < n - k" by simp
  moreover have "(start + (k + i)) mod length buf = ((start + k) mod length buf + i) mod length buf"
    by (simp add: mod_add_left_eq add.assoc)
  ultimately show "drop k (ring_read buf start n) ! i =
      ring_read buf ((start + k) mod length buf) (n - k) ! i" by simp
qed simp

section \<open>Alignment of addresses\<close>

lemma and_mask_dvd: "(a :: 'a::len word) AND mask k = 0 \<longleftrightarrow> 2 ^ k dvd unat a"
proof -
  have "(a AND mask k = 0) = (unat (take_bit k a) = 0)"
    by (simp add: take_bit_eq_mask unat_eq_zero)
  also have "\<dots> = (2 ^ k dvd unat a)"
    by (simp only: unsigned_take_bit_eq) (simp add: take_bit_eq_mod dvd_eq_mod_eq_0)
  finally show ?thesis .
qed

lemma align_down_dvd: "2 ^ k dvd unat ((a :: 'a::len word) AND NOT (mask k))"
proof -
  have "(a AND NOT (mask k)) AND mask k = 0"
    by (simp add: and.assoc)
  then show ?thesis by (simp only: and_mask_dvd)
qed

lemma u32_suc_room:
  fixes n :: u32
  assumes "0 < 2 ^ 32 - 1 - unat n"
  shows "unat (n + 1) = Suc (unat n)"
  using assms by (simp add: unat_word_ariths)

lemma unat_add_no_wrap:
  "unat (a :: 'a::len word) + unat b < 2 ^ LENGTH('a) \<Longrightarrow> unat (a + b) = unat a + unat b"
  by (simp add: unat_word_ariths)

text \<open>Rounding an address up to a multiple of a power of two.\<close>

lemma unat_align_down: "unat ((x :: u32) AND NOT (mask n)) = unat x - unat x mod 2 ^ n"
proof -
  have "x AND NOT (mask n) = x AND NOT (take_bit n x)"
    by (rule bit_eqI) (auto simp: bit_simps)
  also have "\<dots> = x - take_bit n x"
    by (rule disjunctive_diff [symmetric]) (simp add: bit_take_bit_iff)
  finally have "x AND NOT (mask n) = x - take_bit n x" .
  moreover have "unat (take_bit n x) = unat x mod 2 ^ n"
    by (simp only: unsigned_take_bit_eq) (simp add: take_bit_eq_mod)
  ultimately show ?thesis by (simp add: unat_sub word_le_nat_alt)
qed

lemma align_up:
  fixes a :: u32
  assumes "unat a + 2 ^ n \<le> 2 ^ 32"
  defines "c \<equiv> (a + 2 ^ n - 1) AND NOT (2 ^ n - 1)"
  shows "2 ^ n dvd unat c" "unat a \<le> unat c" "unat c < unat a + 2 ^ n"
    and "2 ^ n dvd x \<Longrightarrow> unat a \<le> x \<Longrightarrow> unat c \<le> x"
proof -
  show "2 ^ n dvd unat c"
    using align_down_dvd [of n] by (simp add: c_def mask_eq_exp_minus_1)
  have "a + 2 ^ n - 1 = a + of_nat (2 ^ n - 1)" by (simp add: of_nat_diff)
  moreover have "(2::nat) ^ n - 1 < 2 ^ 32" "unat a + (2 ^ n - 1) < 2 ^ 32"
    using assms(1) zero_less_power [of "2::nat" n] by linarith+
  ultimately have up: "unat (a + 2 ^ n - 1) = unat a + (2 ^ n - 1)"
    by (simp only: unat_word_ariths unat_of_nat) simp
  define m where "m = unat a + (2 ^ n - 1)"
  have c: "unat c = m - m mod 2 ^ n"
    using unat_align_down [of "a + 2 ^ n - 1" n] up by (simp add: c_def mask_eq_exp_minus_1 m_def)
  have "m mod 2 ^ n < 2 ^ n" by simp
  then show "unat a \<le> unat c" "unat c < unat a + 2 ^ n" unfolding c m_def by linarith+
  assume x: "2 ^ n dvd x" "unat a \<le> x"
  then obtain q where q: "x = 2 ^ n * q" by blast
  have "unat c = 2 ^ n * (m div 2 ^ n)" unfolding c by (simp add: minus_mod_eq_mult_div)
  moreover have "m < 2 ^ n * Suc q"
    using x(2) q zero_less_power [of "2::nat" n] unfolding m_def mult_Suc_right by linarith
  then have "m div 2 ^ n < Suc q" by (simp add: less_mult_imp_div_less mult.commute)
  ultimately show "unat c \<le> x" using q by simp
qed

text \<open>Flipping the lowest possible bit of an aligned address.\<close>

lemma bit_parity: "bit (a::u32) n \<longleftrightarrow> odd (unat a div 2 ^ n)"
proof -
  have "bit a n = bit (unat a) n" by (simp add: bit_unsigned_iff)
  then show ?thesis by (simp add: bit_iff_odd)
qed

lemma pow2_unat: "n < 32 \<Longrightarrow> unat (2 ^ n :: u32) = 2 ^ n"
  using unat_of_nat [of "2 ^ n", where 'a = 32] power_strict_increasing [of n 32 "2::nat"] by simp

lemma aligned_split:
  fixes a :: u32
  assumes "n < 32" "2 ^ n dvd unat a"
  shows "\<not> bit a n \<Longrightarrow> 2 ^ Suc n dvd unat a \<and> unat a + 2 ^ n < 2 ^ 32"
    and "bit a n \<Longrightarrow> 2 ^ n \<le> unat a \<and> 2 ^ Suc n dvd unat a - 2 ^ n"
proof -
  obtain q where q: "unat a = 2 ^ n * q" using assms(2) by (rule dvdE)
  have b: "bit a n \<longleftrightarrow> odd q" by (simp add: bit_parity q)
  { assume "\<not> bit a n"
    then obtain r where r: "q = 2 * r" using b by (auto elim: evenE)
    have "(2::nat) ^ 32 = 2 ^ Suc n * 2 ^ (31 - n)" using assms(1) by (simp flip: power_add)
    moreover have "unat a < 2 ^ 32" using unsigned_less [of a] by simp
    ultimately have "2 ^ Suc n * r < 2 ^ Suc n * 2 ^ (31 - n)" using q r by (simp add: ac_simps)
    then have "Suc r \<le> 2 ^ (31 - n)" by simp
    then have "2 ^ Suc n * Suc r \<le> 2 ^ 32"
      using \<open>2 ^ 32 = 2 ^ Suc n * 2 ^ (31 - n)\<close> by (metis mult_le_mono2)
    then have "unat a + 2 * 2 ^ n \<le> 2 ^ 32" using q r by (simp add: ac_simps)
    moreover have "(0::nat) < 2 ^ n" by simp
    ultimately have "unat a + 2 ^ n < 2 ^ 32" by linarith
    then show "2 ^ Suc n dvd unat a \<and> unat a + 2 ^ n < 2 ^ 32" using q r by simp
  }
  { assume "bit a n"
    then obtain r where r: "q = 2 * r + 1" using b by (auto elim: oddE)
    then show "2 ^ n \<le> unat a \<and> 2 ^ Suc n dvd unat a - 2 ^ n"
      using q by (simp add: algebra_simps)
  }
qed

lemma xor_bit_clear:
  fixes a :: u32
  assumes "n < 32" "2 ^ n dvd unat a" "\<not> bit a n"
  shows "unat (a XOR 2 ^ n) = unat a + 2 ^ n" "a AND NOT (2 ^ n) = a"
proof -
  have "a XOR 2 ^ n = flip_bit n a" by (simp add: flip_bit_eq_xor push_bit_eq_mult)
  also have "\<dots> = a + 2 ^ n" using assms(3) by (simp add: flip_bit_eq_if set_bit_eq)
  finally show "unat (a XOR 2 ^ n) = unat a + 2 ^ n"
    using aligned_split(1) [OF assms] by (simp add: unat_add_no_wrap pow2_unat [OF assms(1)])
  have "a AND NOT (2 ^ n) = unset_bit n a" by (simp add: unset_bit_eq_and_not push_bit_eq_mult)
  then show "a AND NOT (2 ^ n) = a" using assms(3) by (simp add: unset_bit_eq)
qed

lemma xor_bit_set:
  fixes a :: u32
  assumes "n < 32" "2 ^ n dvd unat a" "bit a n"
  shows "unat (a XOR 2 ^ n) = unat a - 2 ^ n" "a AND NOT (2 ^ n) = a XOR 2 ^ n"
proof -
  have x: "a XOR 2 ^ n = unset_bit n a"
    using assms(3) by (simp add: flip_bit_eq_if flip: flip_bit_eq_xor [of n a, simplified push_bit_eq_mult, simplified])
  show "a AND NOT (2 ^ n) = a XOR 2 ^ n" by (simp add: x unset_bit_eq_and_not push_bit_eq_mult)
  have "a XOR 2 ^ n = a - 2 ^ n" using x assms(3) by (simp add: unset_bit_eq)
  then show "unat (a XOR 2 ^ n) = unat a - 2 ^ n"
    using aligned_split(2) [OF assms] by (simp add: unat_sub word_le_nat_alt pow2_unat [OF assms(1)])
qed

text \<open>Widening keeps the value.\<close>

lemma unat_ucast_up [simp]:
  "unat (ucast (x :: u8) :: u16) = unat x" "unat (ucast x :: u32) = unat x"
  "unat (ucast (y :: u16) :: u32) = unat y"
  using unsigned_less [of x, where 'a = nat] unsigned_less [of y, where 'a = nat]
  by (simp_all add: unsigned_ucast_eq take_bit_nat_eq_self)

section \<open>Linked lists in memory\<close>

text \<open>\<open>linked nx p xs\<close>: following the link field \<open>nx\<close> from pointer \<open>p\<close> visits the
  nodes \<open>xs\<close> and ends in the null pointer.\<close>

fun linked :: "(u32 \<Rightarrow> u32) \<Rightarrow> u32 \<Rightarrow> u32 list \<Rightarrow> bool" where
  "linked nx p [] \<longleftrightarrow> p = 0"
| "linked nx p (x # xs) \<longleftrightarrow> p = x \<and> x \<noteq> 0 \<and> linked nx (nx x) xs"

lemma linked_null [simp]: "linked nx 0 xs \<longleftrightarrow> xs = []"
  by (cases xs) auto

lemma linked_nonnull: "linked nx p xs \<Longrightarrow> p \<noteq> 0 \<Longrightarrow> \<exists>ys. xs = p # ys \<and> linked nx (nx p) ys"
  by (cases xs) auto

lemma linked_upd [simp]: "a \<notin> set xs \<Longrightarrow> linked (nx(a := q)) p xs = linked nx p xs"
  by (induction xs arbitrary: p) auto

lemma linked_split:
  "linked nx p (xs @ a # ys) \<Longrightarrow> a \<noteq> 0 \<and> linked nx (nx a) ys"
  by (induction xs arbitrary: p) auto

lemma linked_unlink:
  assumes "linked nx p (xs @ b # a # ys)" "distinct (xs @ b # a # ys)"
  shows "linked (nx(b := nx a)) p (xs @ b # ys)"
  using assms by (induction xs arbitrary: p) auto

lemma linked_nonzero: "linked nx p xs \<Longrightarrow> 0 \<notin> set xs"
  by (induction xs arbitrary: p) auto

end
