(* ===== verification/Interfaces.thy ===== *)
theory Interfaces
  imports Prelude
begin

text \<open>
  The contracts that components of the kernel offer one another, as locales.

  \<^item> \<open>unit_allocator\<close>: an allocator of interchangeable units (physical frames, slab slots);
    its client lemma says that a disciplined client never holds a unit that is free.
  \<^item> \<open>bounded_fifo\<close>: a queue of bounded capacity that refuses when full.
  \<^item> \<open>byte_stream\<close>: a bounded byte buffer that takes a write whole or refuses it.
  \<^item> \<open>bounded_table\<close>: a keyed table of bounded size; its client lemma says that any sequence of
    operations acts as on a finite map that refuses new keys when full.
  \<^item> \<open>recent_log\<close>: a log that keeps the most recent entries.
  \<^item> \<open>byte_file\<close>: an array of bytes read and written at any offset, which grows or refuses; its client lemma
    says that any sequence of reads and writes runs to its end as on such an array.

  Each is interpreted on the model of the code in the theory of the component that
  provides it.
\<close>

section \<open>Allocators of units\<close>

text \<open>
  The pairs of an allocator state and the set of units its client holds that are
  reachable by taking units and giving held units back.
\<close>

inductive alloc_reach ::
  "('s \<Rightarrow> 'a \<times> 's) \<Rightarrow> ('a \<Rightarrow> 's \<Rightarrow> 's) \<Rightarrow> 'a \<Rightarrow> 's \<Rightarrow> 's \<Rightarrow> 'a set \<Rightarrow> bool"
  for alloc release null s0 where
  start: "alloc_reach alloc release null s0 s0 {}"
| take: "alloc_reach alloc release null s0 s H \<Longrightarrow> alloc s = (x, s') \<Longrightarrow> x \<noteq> null \<Longrightarrow>
    alloc_reach alloc release null s0 s' (insert x H)"
| fail: "alloc_reach alloc release null s0 s H \<Longrightarrow> alloc s = (null, s') \<Longrightarrow>
    alloc_reach alloc release null s0 s' H"
| give: "alloc_reach alloc release null s0 s H \<Longrightarrow> x \<in> H \<Longrightarrow>
    alloc_reach alloc release null s0 (release x s) (H - {x})"

locale unit_allocator =
  fixes alloc :: "'s \<Rightarrow> 'a \<times> 's"
    and release :: "'a \<Rightarrow> 's \<Rightarrow> 's"
    and null :: 'a
    and avail :: "'s \<Rightarrow> 'a set"
    and inv :: "'a set \<Rightarrow> 's \<Rightarrow> bool"
  assumes avail_owned: "inv U s \<Longrightarrow> avail s \<subseteq> U"
    and alloc_fails: "inv U s \<Longrightarrow> alloc s = (null, s') \<Longrightarrow> avail s = {} \<and> s' = s"
    and alloc_takes: "inv U s \<Longrightarrow> alloc s = (x, s') \<Longrightarrow> x \<noteq> null \<Longrightarrow>
      inv U s' \<and> x \<in> avail s \<and> avail s' = avail s - {x}"
    and release_gives: "inv U s \<Longrightarrow> x \<in> U \<Longrightarrow> inv U (release x s) \<and> avail (release x s) = insert x (avail s)"
begin

lemma reach_partition:
  assumes "inv U s0" and "alloc_reach alloc release null s0 s H"
  shows "inv U s \<and> H \<inter> avail s = {} \<and> H \<union> avail s = avail s0"
  using assms(2)
proof (induction rule: alloc_reach.induct)
  case start
  then show ?case using assms(1) by simp
next
  case (take s H x s')
  then show ?case using alloc_takes [of U s x s'] by auto
next
  case (fail s H s')
  then show ?case using alloc_fails [of U s s'] by auto
next
  case (give s H x)
  then have "x \<in> U" using avail_owned [OF assms(1)] by auto
  with give show ?case using release_gives [of U s x] by auto
qed

lemma reach_exhausted:
  assumes "inv U s0" and "alloc_reach alloc release null s0 s H" and "alloc s = (null, s')"
  shows "H = avail s0"
  using reach_partition [OF assms(1,2)] alloc_fails [of U s s'] assms(3) by auto

lemma alloc_after_release:
  assumes "inv U s" and "x \<in> U"
  shows "fst (alloc (release x s)) \<noteq> null"
proof
  assume "fst (alloc (release x s)) = null"
  then obtain s' where "alloc (release x s) = (null, s')"
    by (cases "alloc (release x s)") auto
  with release_gives [OF assms] alloc_fails [of U "release x s" s'] show False by auto
qed

end

section \<open>Bounded queues\<close>

text \<open>A client of a queue puts and gets in any order; a run collects what was accepted and
  what was delivered.\<close>

datatype 'a fifo_op = Put 'a | Get

fun fifo_run :: "('a \<Rightarrow> 's \<Rightarrow> bool \<times> 's) \<Rightarrow> ('s \<Rightarrow> 'a option \<times> 's) \<Rightarrow> 'a fifo_op list \<Rightarrow> 's \<Rightarrow>
    'a list \<times> 'a list \<times> 's" where
  "fifo_run enq deq [] s = ([], [], s)"
| "fifo_run enq deq (Put x # ops) s =
     (let (ok, s1) = enq x s; (acc, got, s2) = fifo_run enq deq ops s1
      in (if ok then x # acc else acc, got, s2))"
| "fifo_run enq deq (Get # ops) s =
     (let (r, s1) = deq s; (acc, got, s2) = fifo_run enq deq ops s1
      in (acc, case r of None \<Rightarrow> got | Some x \<Rightarrow> x # got, s2))"

locale bounded_fifo =
  fixes enq :: "'a \<Rightarrow> 's \<Rightarrow> bool \<times> 's"
    and deq :: "'s \<Rightarrow> 'a option \<times> 's"
    and fits :: "'a \<Rightarrow> bool"
    and contents :: "'s \<Rightarrow> 'a list"
    and cap :: nat
    and inv :: "'s \<Rightarrow> bool"
  assumes bounded: "inv s \<Longrightarrow> length (contents s) \<le> cap"
    and enq_refused: "inv s \<Longrightarrow> \<not> fits x \<or> length (contents s) = cap \<Longrightarrow>
      \<not> fst (enq x s) \<and> inv (snd (enq x s)) \<and> contents (snd (enq x s)) = contents s"
    and enq_accepted: "inv s \<Longrightarrow> fits x \<Longrightarrow> length (contents s) < cap \<Longrightarrow>
      fst (enq x s) \<and> inv (snd (enq x s)) \<and> contents (snd (enq x s)) = contents s @ [x]"
    and deq_empty: "inv s \<Longrightarrow> contents s = [] \<Longrightarrow> deq s = (None, s)"
    and deq_oldest: "inv s \<Longrightarrow> contents s = x # xs \<Longrightarrow>
      fst (deq s) = Some x \<and> inv (snd (deq s)) \<and> contents (snd (deq s)) = xs"
begin

lemma enq_cases:
  assumes "inv s"
  shows "inv (snd (enq x s)) \<and> contents (snd (enq x s)) = contents s @ (if fst (enq x s) then [x] else [])"
proof (cases "fits x \<and> length (contents s) < cap")
  case True
  then show ?thesis using enq_accepted [OF assms] by simp
next
  case False
  then show ?thesis using enq_refused [OF assms, of x] bounded [OF assms] assms by auto
qed

lemma deq_cases:
  assumes "inv s"
  shows "inv (snd (deq s)) \<and>
    contents s = (case fst (deq s) of None \<Rightarrow> [] | Some x \<Rightarrow> [x]) @ contents (snd (deq s))"
  using assms deq_empty [OF assms] deq_oldest [OF assms] by (cases "contents s") auto

lemma run_in_order:
  assumes "inv s" "fifo_run enq deq ops s = (acc, got, s')"
  shows "inv s' \<and> contents s @ acc = got @ contents s'"
  using assms
proof (induction ops arbitrary: s acc got)
  case Nil
  then show ?case by simp
next
  case (Cons op ops)
  show ?case
  proof (cases op)
    case (Put x)
    obtain acc1 got1 where r: "fifo_run enq deq ops (snd (enq x s)) = (acc1, got1, s')"
      "acc = (if fst (enq x s) then x # acc1 else acc1)" "got = got1"
      using Cons.prems(2) Put by (auto split: prod.splits)
    with Cons.IH [OF _ r(1)] enq_cases [OF Cons.prems(1), of x] show ?thesis by (auto split: if_splits)
  next
    case Get
    obtain acc1 got1 where r: "fifo_run enq deq ops (snd (deq s)) = (acc1, got1, s')"
      "acc = acc1" "got = (case fst (deq s) of None \<Rightarrow> got1 | Some x \<Rightarrow> x # got1)"
      using Cons.prems(2) Get by (auto split: prod.splits)
    with Cons.IH [OF _ r(1)] deq_cases [OF Cons.prems(1)] show ?thesis by (auto split: option.splits)
  qed
qed

end

section \<open>Bounded byte streams\<close>

datatype 'b stream_op = Write "'b list" | Read nat

fun stream_run :: "('b list \<Rightarrow> 's \<Rightarrow> bool \<times> 's) \<Rightarrow> (nat \<Rightarrow> 's \<Rightarrow> 'b list \<times> 's) \<Rightarrow> 'b stream_op list \<Rightarrow> 's \<Rightarrow>
    'b list \<times> 'b list \<times> 's" where
  "stream_run put get [] s = ([], [], s)"
| "stream_run put get (Write p # ops) s =
     (let (ok, s1) = put p s; (acc, got, s2) = stream_run put get ops s1
      in (if ok then p @ acc else acc, got, s2))"
| "stream_run put get (Read n # ops) s =
     (let (bs, s1) = get n s; (acc, got, s2) = stream_run put get ops s1 in (acc, bs @ got, s2))"

fun stream_op_ok :: "nat \<Rightarrow> 'b stream_op \<Rightarrow> bool" where
  "stream_op_ok maxlen (Write p) = (length p \<le> maxlen)"
| "stream_op_ok maxlen (Read n) = (n \<le> maxlen)"

locale byte_stream =
  fixes put :: "'b list \<Rightarrow> 's \<Rightarrow> bool \<times> 's"
    and get :: "nat \<Rightarrow> 's \<Rightarrow> 'b list \<times> 's"
    and contents :: "'s \<Rightarrow> 'b list"
    and cap :: nat
    and maxlen :: nat
    and inv :: "'s \<Rightarrow> bool"
  assumes put_whole: "inv s \<Longrightarrow> length p \<le> maxlen \<Longrightarrow> inv (snd (put p s)) \<and>
      fst (put p s) = (length (contents s) + length p \<le> cap) \<and>
      contents (snd (put p s)) = contents s @ (if fst (put p s) then p else [])"
    and get_prefix: "inv s \<Longrightarrow> n \<le> maxlen \<Longrightarrow> inv (snd (get n s)) \<and> fst (get n s) = take n (contents s) \<and>
      contents (snd (get n s)) = drop n (contents s)"
begin

lemma stream_in_order:
  assumes "inv s" "list_all (stream_op_ok maxlen) ops" "stream_run put get ops s = (acc, got, s')"
  shows "inv s' \<and> contents s @ acc = got @ contents s'"
  using assms
proof (induction ops arbitrary: s acc got)
  case Nil
  then show ?case by simp
next
  case (Cons op ops)
  show ?case
  proof (cases op)
    case (Write p)
    obtain acc1 where r: "stream_run put get ops (snd (put p s)) = (acc1, got, s')"
      "acc = (if fst (put p s) then p else []) @ acc1"
      using Cons.prems(3) Write by (auto split: prod.splits)
    with Cons.IH [OF _ _ r(1)] put_whole [OF Cons.prems(1), of p] Cons.prems(2) Write show ?thesis by simp
  next
    case (Read n)
    obtain got1 where r: "stream_run put get ops (snd (get n s)) = (acc, got1, s')" "got = fst (get n s) @ got1"
      using Cons.prems(3) Read by (auto split: prod.splits)
    have IH: "inv s'" "drop n (contents s) @ acc = got1 @ contents s'" "got = take n (contents s) @ got1"
      using Cons.IH [OF _ _ r(1)] get_prefix [OF Cons.prems(1), of n] Cons.prems(2) Read r(2) by simp_all
    have "contents s @ acc = take n (contents s) @ (drop n (contents s) @ acc)"
      by (simp only: append_take_drop_id flip: append_assoc)
    then show ?thesis using IH(1) by (simp only: IH(2,3) append_assoc)
  qed
qed

end

section \<open>Files of bytes\<close>

datatype 'b file_op = FWrite nat "'b list" | FRead nat nat

datatype 'b file_res = Wrote bool | Got "'b list"

definition splice :: "nat \<Rightarrow> 'b list \<Rightarrow> 'b list \<Rightarrow> 'b list" where
  "splice off p bs = take off bs @ p @ drop (off + length p) bs"

lemma length_splice: "off \<le> length bs \<Longrightarrow> length (splice off p bs) = max (length bs) (off + length p)"
  by (simp add: splice_def)

text \<open>The operations with the results they may have on an array of bytes. A write is refused whole or done whole;
  one that starts past the end leaves arbitrary bytes \<open>gap\<close> between.\<close>

inductive array_runs :: "'b file_op list \<Rightarrow> 'b file_res list \<Rightarrow> 'b list \<Rightarrow> 'b list \<Rightarrow> bool" where
  finished: "array_runs [] [] bs bs"
| refused: "array_runs ops rs bs bs' \<Longrightarrow> array_runs (FWrite off p # ops) (Wrote False # rs) bs bs'"
| wrote: "length gap = off - length bs \<Longrightarrow> array_runs ops rs (splice off p (bs @ gap)) bs' \<Longrightarrow>
    array_runs (FWrite off p # ops) (Wrote True # rs) bs bs'"
| got: "array_runs ops rs bs bs' \<Longrightarrow> array_runs (FRead off n # ops) (Got (take n (drop off bs)) # rs) bs bs'"

fun file_run :: "(nat \<Rightarrow> 'b list \<Rightarrow> 's \<Rightarrow> (bool \<times> 's) option) \<Rightarrow> (nat \<Rightarrow> nat \<Rightarrow> 's \<Rightarrow> 'b list option) \<Rightarrow>
    'b file_op list \<Rightarrow> 's \<Rightarrow> ('b file_res list \<times> 's) option" where
  "file_run wr rd [] s = Some ([], s)"
| "file_run wr rd (FWrite off p # ops) s =
     (case wr off p s of
        None \<Rightarrow> None
      | Some (ok, s') \<Rightarrow> map_option (\<lambda>(rs, t). (Wrote ok # rs, t)) (file_run wr rd ops s'))"
| "file_run wr rd (FRead off n # ops) s =
     (case rd off n s of
        None \<Rightarrow> None
      | Some p \<Rightarrow> map_option (\<lambda>(rs, t). (Got p # rs, t)) (file_run wr rd ops s))"

fun file_op_ok :: "nat \<Rightarrow> 'b file_op \<Rightarrow> bool" where
  "file_op_ok cap (FWrite off p) \<longleftrightarrow> off + length p \<le> cap"
| "file_op_ok cap (FRead off n) \<longleftrightarrow> off + n \<le> cap"

locale byte_file =
  fixes wr :: "nat \<Rightarrow> 'b list \<Rightarrow> 's \<Rightarrow> (bool \<times> 's) option"
    and rd :: "nat \<Rightarrow> nat \<Rightarrow> 's \<Rightarrow> 'b list option"
    and contents :: "'s \<Rightarrow> 'b list"
    and cap :: nat
    and inv :: "'s \<Rightarrow> bool"
  assumes wr_splices: "inv s \<Longrightarrow> off + length p \<le> cap \<Longrightarrow> \<exists>ok s' gap. wr off p s = Some (ok, s') \<and> inv s' \<and>
      length gap = off - length (contents s) \<and>
      contents s' = (if ok then splice off p (contents s @ gap) else contents s)"
    and rd_range: "inv s \<Longrightarrow> off + n \<le> cap \<Longrightarrow> rd off n s = Some (take n (drop off (contents s)))"
begin

lemma run_array:
  "inv s \<Longrightarrow> list_all (file_op_ok cap) ops \<Longrightarrow>
    \<exists>rs s'. file_run wr rd ops s = Some (rs, s') \<and> inv s' \<and> array_runs ops rs (contents s) (contents s')"
proof (induction ops arbitrary: s)
  case (Cons op ops)
  show ?case
  proof (cases op)
    case (FWrite off p)
    obtain ok s1 gap where w: "wr off p s = Some (ok, s1)" "inv s1" "length gap = off - length (contents s)"
      "contents s1 = (if ok then splice off p (contents s @ gap) else contents s)"
      using wr_splices [OF Cons.prems(1), of off p] Cons.prems(2) FWrite by auto
    obtain rs s' where r: "file_run wr rd ops s1 = Some (rs, s')" "inv s'" "array_runs ops rs (contents s1) (contents s')"
      using Cons.IH [OF w(2)] Cons.prems(2) by auto
    have "array_runs (op # ops) (Wrote ok # rs) (contents s) (contents s')"
      using w r(3) FWrite by (cases ok) (auto intro: array_runs.intros)
    then show ?thesis using FWrite w(1) r(1,2) by auto
  next
    case (FRead off n)
    obtain rs s' where r: "file_run wr rd ops s = Some (rs, s')" "inv s'" "array_runs ops rs (contents s) (contents s')"
      using Cons.IH [OF Cons.prems(1)] Cons.prems(2) by auto
    then show ?thesis using rd_range [OF Cons.prems(1), of off n] Cons.prems(2) FRead by (auto intro: array_runs.got)
  qed
qed (auto intro: array_runs.finished)

end

section \<open>Bounded keyed tables\<close>

datatype ('k, 'v) table_op = Update 'k 'v | Delete 'k

text \<open>The specification: a finite map that refuses a new key when it has \<open>cap\<close> keys.\<close>

fun map_op :: "nat \<Rightarrow> ('k, 'v) table_op \<Rightarrow> ('k \<Rightarrow> 'v option) \<Rightarrow> 'k \<Rightarrow> 'v option" where
  "map_op cap (Update k v) m = (if k \<in> dom m \<or> card (dom m) < cap then m(k \<mapsto> v) else m)"
| "map_op cap (Delete k) m = m(k := None)"

fun table_step :: "('k \<Rightarrow> 'v \<Rightarrow> 's \<Rightarrow> bool \<times> 's) \<Rightarrow> ('k \<Rightarrow> 's \<Rightarrow> 's) \<Rightarrow> ('k, 'v) table_op \<Rightarrow> 's \<Rightarrow> 's" where
  "table_step update delete (Update k v) s = snd (update k v s)"
| "table_step update delete (Delete k) s = delete k s"

locale bounded_table =
  fixes update :: "'k \<Rightarrow> 'v \<Rightarrow> 's \<Rightarrow> bool \<times> 's"
    and delete :: "'k \<Rightarrow> 's \<Rightarrow> 's"
    and lookup :: "'s \<Rightarrow> 'k \<Rightarrow> 'v option"
    and cap :: nat
    and inv :: "'s \<Rightarrow> bool"
  assumes bounded_dom: "inv s \<Longrightarrow> finite (dom (lookup s)) \<and> card (dom (lookup s)) \<le> cap"
    and update_effect: "inv s \<Longrightarrow> inv (snd (update k v s)) \<and>
      fst (update k v s) = (k \<in> dom (lookup s) \<or> card (dom (lookup s)) < cap) \<and>
      lookup (snd (update k v s)) = map_op cap (Update k v) (lookup s)"
    and delete_effect: "inv s \<Longrightarrow> inv (delete k s) \<and> lookup (delete k s) = map_op cap (Delete k) (lookup s)"
begin

lemma run_refines:
  assumes "inv s"
  shows "inv (fold (table_step update delete) ops s) \<and>
    lookup (fold (table_step update delete) ops s) = fold (map_op cap) ops (lookup s)"
  using assms
proof (induction ops arbitrary: s)
  case (Cons op ops)
  have "inv (table_step update delete op s)" "lookup (table_step update delete op s) = map_op cap op (lookup s)"
    using update_effect [OF Cons.prems] delete_effect [OF Cons.prems] by (cases op; simp)+
  then show ?case using Cons.IH [of "table_step update delete op s"] by simp
qed simp

end

section \<open>Logs of recent entries\<close>

text \<open>A log of bounded capacity in which a new entry displaces the oldest; \<open>entries\<close> lists it
  from the newest. A log counts what it was given in a machine word: \<open>room\<close> is the number of
  entries it still takes before that counter wraps.\<close>

locale recent_log =
  fixes add :: "'a \<Rightarrow> 's \<Rightarrow> 's"
    and entries :: "'s \<Rightarrow> 'a list"
    and room :: "'s \<Rightarrow> nat"
    and cap :: nat
    and inv :: "'s \<Rightarrow> bool"
  assumes bounded_entries: "inv s \<Longrightarrow> length (entries s) \<le> cap"
    and add_newest: "inv s \<Longrightarrow> 0 < room s \<Longrightarrow>
      inv (add x s) \<and> room (add x s) = room s - 1 \<and> entries (add x s) = take cap (x # entries s)"
begin

lemma adds_recent:
  "inv s \<Longrightarrow> length xs \<le> room s \<Longrightarrow>
    inv (fold add xs s) \<and> entries (fold add xs s) = take cap (rev xs @ entries s)"
proof (induction xs arbitrary: s)
  case Nil
  then show ?case using bounded_entries [of s] by simp
next
  case (Cons x xs)
  have step: "inv (add x s)" "room (add x s) = room s - 1" "entries (add x s) = take cap (x # entries s)"
    using add_newest [of s x] Cons.prems by simp_all
  have "take cap (rev xs @ take cap (x # entries s)) = take cap (rev xs @ x # entries s)"
    by (simp add: min_def)
  then show ?case using Cons.IH [of "add x s"] Cons.prems step by simp
qed

lemma adds_from_empty:
  assumes "inv s" "entries s = []" "length xs \<le> room s"
  shows "inv (fold add xs s) \<and> entries (fold add xs s) = take cap (rev xs)"
  using adds_recent [OF assms(1,3)] assms(2) by simp

end

section \<open>Ring logs\<close>

text \<open>The newest \<open>n\<close> entries of a ring whose next write goes to cell \<open>head\<close>, newest first.\<close>

definition recent :: "'a list \<Rightarrow> nat \<Rightarrow> nat \<Rightarrow> 'a list" where
  "recent buf head n = map (\<lambda>i. buf ! ((head + length buf - 1 - i) mod length buf)) [0..<n]"

lemma length_recent [simp]: "length (recent buf head n) = n"
  by (simp add: recent_def)

lemma recent_nth: "i < n \<Longrightarrow> recent buf head n ! i = buf ! ((head + length buf - 1 - i) mod length buf)"
  by (simp add: recent_def)

lemma map_recent:
  assumes "n \<le> length buf"
  shows "map f (recent buf head n) = recent (map f buf) head n"
proof (cases "length buf")
  case (Suc m)
  then have "(head + length buf - 1 - i) mod length buf < length buf" for i by (intro mod_less_divisor) simp
  then show ?thesis by (auto simp: recent_def)
qed (use assms in \<open>simp add: recent_def\<close>)

lemma recent_0 [simp]: "recent buf head 0 = []"
  by (simp add: recent_def)

lemma mod_wrap: "(x::nat) < 2 * c \<Longrightarrow> x mod c = (if x < c then x else x - c)"
  by (simp add: mod_if)

lemma ring_back:
  fixes head c :: nat
  assumes "head < c" "i < c"
  shows "(Suc head mod c + c - 1 - i) mod c = (if i \<le> head then head - i else head + c - i)"
proof -
  have "Suc head mod c + c - 1 - i = (if Suc head = c then c - 1 - i else head + c - i)"
    using assms by auto
  moreover have "(head + c - i) mod c = (if i \<le> head then head - i else head + c - i)"
    using assms mod_wrap [of "head + c - i" c] by auto
  moreover have "(c - 1 - i) mod c = c - 1 - i" using assms by (intro mod_less) simp
  ultimately show ?thesis using assms by auto
qed

lemma recent_add:
  assumes "head < length buf" "n \<le> length buf"
  shows "recent (buf[head := x]) (Suc head mod length buf) (min (Suc n) (length buf)) =
    take (length buf) (x # recent buf head n)"
proof (rule nth_equalityI)
  fix i
  assume "i < length (recent (buf[head := x]) (Suc head mod length buf) (min (Suc n) (length buf)))"
  then have i: "i \<le> n" "i < length buf" by simp_all
  note pos = ring_back [OF assms(1) i(2)]
  show "recent (buf[head := x]) (Suc head mod length buf) (min (Suc n) (length buf)) ! i =
      take (length buf) (x # recent buf head n) ! i"
  proof (cases i)
    case 0
    then show ?thesis using pos assms i by (simp add: recent_nth)
  next
    case (Suc j)
    have "(head + length buf - 1 - j) mod length buf = (if Suc j \<le> head then head - Suc j else head + length buf - Suc j)"
      using assms(1) i Suc mod_wrap [of "head + length buf - 1 - j" "length buf"] by auto
    moreover have "\<dots> \<noteq> head" using i Suc assms(1) by auto
    ultimately show ?thesis using pos i Suc by (auto simp: recent_nth)
  qed
qed simp

end
