(* ===== verification/Pmm.thy ===== *)
theory Pmm
  imports Interfaces
begin

text \<open>
  The physical memory manager, \<^verbatim>\<open>kernel/Memory/pmm.c\<close>: a stack of free 4 KiB frames.
  The array \<^verbatim>\<open>frame_stack\<close> is a function from indices, \<^verbatim>\<open>stack_top\<close> is the signed
  index of its top cell (-1 when empty). \<open>pmm_frames\<close> is the live part of the array.
\<close>

section \<open>State and operations\<close>

definition FRAME_SIZE :: u32 where "FRAME_SIZE = 4096"

definition MAX_FRAMES :: int where "MAX_FRAMES = 32768"

record pmm_state =
  frame_stack :: "nat \<Rightarrow> u32"
  stack_top :: int
  total_frames :: u32

definition pmm_boot :: pmm_state where
  "pmm_boot = \<lparr>frame_stack = (\<lambda>_. 0), stack_top = -1, total_frames = 0\<rparr>"

definition pmm_frames :: "pmm_state \<Rightarrow> u32 list" where
  "pmm_frames s = map (frame_stack s) [0..<nat (stack_top s + 1)]"

definition pmm_push :: "u32 \<Rightarrow> pmm_state \<Rightarrow> pmm_state" where
  "pmm_push a s = s\<lparr>frame_stack := (frame_stack s)(nat (stack_top s + 1) := a),
    stack_top := stack_top s + 1\<rparr>"

function pmm_init_loop :: "u32 \<Rightarrow> u32 \<Rightarrow> pmm_state \<Rightarrow> pmm_state" where
  "pmm_init_loop limit address s =
     (if address < limit then
        if stack_top s \<ge> MAX_FRAMES - 1 then s
        else pmm_init_loop limit (address + FRAME_SIZE)
          (let p = pmm_push address s in p\<lparr>total_frames := total_frames p + 1\<rparr>)
      else s)"
  by pat_completeness auto
termination
  by (relation "measure (\<lambda>(l, a, s). nat (MAX_FRAMES - 1 - stack_top s))")
    (auto simp: pmm_push_def Let_def)

declare pmm_init_loop.simps [simp del]

definition pmm_align :: "u32 \<Rightarrow> u32" where
  "pmm_align a = (a + FRAME_SIZE - 1) AND NOT (FRAME_SIZE - 1)"

definition pmm_init :: "u32 \<Rightarrow> u32 \<Rightarrow> pmm_state \<Rightarrow> pmm_state" where
  "pmm_init st_address sz s =
     (let st = pmm_align st_address
      in pmm_init_loop (st + sz) st (s\<lparr>frame_stack := \<lambda>_. 0\<rparr>))"

definition pmm_alloc :: "pmm_state \<Rightarrow> u32 \<times> pmm_state" where
  "pmm_alloc s =
     (if stack_top s < 0 then (0, s)
      else (frame_stack s (nat (stack_top s)), s\<lparr>stack_top := stack_top s - 1\<rparr>))"

definition pmm_free :: "u32 \<Rightarrow> pmm_state \<Rightarrow> pmm_state" where
  "pmm_free address s =
     (if address = 0 then s
      else if address AND (FRAME_SIZE - 1) \<noteq> 0 then s
      else if list_ex (\<lambda>f. f = address) (pmm_frames s) then s
      else if stack_top s \<ge> MAX_FRAMES - 1 then s
      else pmm_push address s)"

definition pmm_get_top :: "pmm_state \<Rightarrow> u32" where
  "pmm_get_top s =
     fold (\<lambda>f highest. if f > highest then f else highest) (pmm_frames s) 0 + FRAME_SIZE"

definition pmm_used_frames :: "pmm_state \<Rightarrow> u32" where
  "pmm_used_frames s = total_frames s - of_int (stack_top s + 1)"

definition pmm_total_frames :: "pmm_state \<Rightarrow> u32" where
  "pmm_total_frames s = total_frames s"

definition pmm_free_frames :: "pmm_state \<Rightarrow> u32" where
  "pmm_free_frames s = pmm_total_frames s - pmm_used_frames s"

section \<open>The stack as a list\<close>

definition pmm_wf :: "pmm_state \<Rightarrow> bool" where
  "pmm_wf s \<longleftrightarrow> -1 \<le> stack_top s \<and> stack_top s < MAX_FRAMES"

lemma length_pmm_frames [simp]: "length (pmm_frames s) = nat (stack_top s + 1)"
  by (simp add: pmm_frames_def)

lemma pmm_frames_push: "-1 \<le> stack_top s \<Longrightarrow> pmm_frames (pmm_push a s) = pmm_frames s @ [a]"
proof -
  assume "-1 \<le> stack_top s"
  then have "nat (stack_top s + 1 + 1) = Suc (nat (stack_top s + 1))" by simp
  then show ?thesis by (simp add: pmm_frames_def pmm_push_def)
qed

lemma stack_top_push [simp]: "stack_top (pmm_push a s) = stack_top s + 1"
  "total_frames (pmm_push a s) = total_frames s"
  by (simp_all add: pmm_push_def)

lemma pmm_frames_alloc:
  assumes "0 \<le> stack_top s"
  shows "pmm_frames s = pmm_frames (snd (pmm_alloc s)) @ [fst (pmm_alloc s)]"
proof -
  have "nat (stack_top s + 1) = Suc (nat (stack_top s))" using assms by simp
  then show ?thesis using assms by (simp add: pmm_frames_def pmm_alloc_def)
qed

lemma pmm_frames_total [simp]: "pmm_frames (s\<lparr>total_frames := n\<rparr>) = pmm_frames s"
  by (simp add: pmm_frames_def)

section \<open>The contract\<close>

text \<open>\<open>U\<close> is the set of frames the manager owns: the frames of the region it was given.\<close>

definition pmm_inv :: "u32 set \<Rightarrow> pmm_state \<Rightarrow> bool" where
  "pmm_inv U s \<longleftrightarrow> pmm_wf s \<and> distinct (pmm_frames s) \<and> set (pmm_frames s) \<subseteq> U
     \<and> (\<forall>a\<in>U. a \<noteq> 0 \<and> a AND (FRAME_SIZE - 1) = 0) \<and> card U \<le> nat MAX_FRAMES"

definition pmm_avail :: "pmm_state \<Rightarrow> u32 set" where
  "pmm_avail s = set (pmm_frames s)"

lemma pmm_alloc_null:
  assumes "pmm_inv U s" "pmm_alloc s = (0, s')"
  shows "pmm_avail s = {} \<and> s' = s"
proof (cases "stack_top s < 0")
  case True
  then show ?thesis using assms by (auto simp: pmm_alloc_def pmm_avail_def pmm_frames_def)
next
  case False
  then have "fst (pmm_alloc s) \<in> set (pmm_frames s)"
    by (subst pmm_frames_alloc) auto
  with assms show ?thesis by (auto simp: pmm_inv_def)
qed

lemma pmm_alloc_takes:
  assumes "pmm_inv U s" "pmm_alloc s = (x, s')" "x \<noteq> 0"
  shows "pmm_inv U s' \<and> x \<in> pmm_avail s \<and> pmm_avail s' = pmm_avail s - {x}"
proof -
  have "0 \<le> stack_top s" using assms by (auto simp: pmm_alloc_def split: if_splits)
  then have fr: "pmm_frames s = pmm_frames s' @ [x]" and top: "stack_top s' = stack_top s - 1"
    using pmm_frames_alloc [of s] assms(2) by (auto simp: pmm_alloc_def)
  with assms(1) \<open>0 \<le> stack_top s\<close> show ?thesis
    by (auto simp: pmm_inv_def pmm_wf_def pmm_avail_def)
qed

lemma pmm_free_gives:
  assumes "pmm_inv U s" "x \<in> U"
  shows "pmm_inv U (pmm_free x s) \<and> pmm_avail (pmm_free x s) = insert x (pmm_avail s)"
proof (cases "x \<in> set (pmm_frames s)")
  case True
  with assms show ?thesis
    by (auto simp: pmm_free_def pmm_inv_def pmm_avail_def list_ex_iff)
next
  case False
  have "length (pmm_frames s) = card (set (pmm_frames s))"
    using assms(1) by (simp add: pmm_inv_def distinct_card [symmetric] del: length_pmm_frames)
  also have "\<dots> < card U"
    using assms False by (intro psubset_card_mono) (auto simp: pmm_inv_def)
  also have "\<dots> \<le> nat MAX_FRAMES" using assms(1) by (simp add: pmm_inv_def)
  finally have room: "stack_top s < MAX_FRAMES - 1"
    by (simp add: MAX_FRAMES_def)
  then have eq: "pmm_free x s = pmm_push x s"
    using assms False by (auto simp: pmm_free_def pmm_inv_def list_ex_iff)
  have "-1 \<le> stack_top s" using assms(1) by (simp add: pmm_inv_def pmm_wf_def)
  then show ?thesis using assms False room
    by (auto simp: eq pmm_inv_def pmm_wf_def pmm_avail_def pmm_frames_push)
qed

interpretation pmm: unit_allocator pmm_alloc pmm_free 0 pmm_avail pmm_inv
proof unfold_locales
  show "pmm_avail s \<subseteq> U" if "pmm_inv U s" for U s
    using that by (simp add: pmm_inv_def pmm_avail_def)
qed (fact pmm_alloc_null pmm_alloc_takes pmm_free_gives)+

section \<open>Initialisation\<close>

definition pmm_region_count :: "u32 \<Rightarrow> u32 \<Rightarrow> nat" where
  "pmm_region_count address limit = (unat limit - unat address + 4095) div 4096"

lemma pmm_region_count_step:
  assumes "address < limit" "unat limit \<le> 2 ^ 32 - 4096"
  shows "pmm_region_count address limit = Suc (pmm_region_count (address + FRAME_SIZE) limit)"
    and "unat (address + FRAME_SIZE) = unat address + 4096"
proof -
  have less: "unat address < unat limit" using assms(1) by (simp add: word_less_nat_alt)
  then show "unat (address + FRAME_SIZE) = unat address + 4096"
    using assms(2) unat_add_no_wrap [of address FRAME_SIZE] by (simp add: FRAME_SIZE_def)
  moreover have "(d + 4095) div 4096 = Suc ((d - 4096 + 4095) div 4096)" if "0 < d" for d :: nat
    using that by (cases "d \<le> 4096") (auto simp: div_nat_eqI le_div_geq)
  from this [of "unat limit - unat address"]
  have "(unat limit - unat address + 4095) div 4096 =
      Suc ((unat limit - (unat address + 4096) + 4095) div 4096)"
    using less by (simp only: diff_diff_left zero_less_diff)
  ultimately show "pmm_region_count address limit = Suc (pmm_region_count (address + FRAME_SIZE) limit)"
    by (simp only: pmm_region_count_def)
qed

lemma pmm_init_loop_frames:
  assumes "unat limit \<le> 2 ^ 32 - 4096" "pmm_wf s"
  shows "let n = min (pmm_region_count address limit) (nat (MAX_FRAMES - 1 - stack_top s));
             s' = pmm_init_loop limit address s
         in pmm_frames s' = pmm_frames s @ map (\<lambda>i. address + of_nat i * FRAME_SIZE) [0..<n]
            \<and> pmm_wf s' \<and> total_frames s' = total_frames s + of_nat n"
  using assms
proof (induction limit address s rule: pmm_init_loop.induct)
  case (1 limit address s)
  let ?p = "pmm_push address s"
  let ?s1 = "?p\<lparr>total_frames := total_frames ?p + 1\<rparr>"
  show ?case
  proof (cases "address < limit \<and> stack_top s < MAX_FRAMES - 1")
    case False
    then consider "\<not> address < limit" | "address < limit" "stack_top s \<ge> MAX_FRAMES - 1" by force
    then show ?thesis
    proof cases
      case 1
      then have "pmm_region_count address limit = 0"
        by (simp add: pmm_region_count_def word_less_nat_alt)
      with 1 show ?thesis using "1.prems" by (simp add: pmm_init_loop.simps [of limit address s] Let_def)
    next
      case 2
      then show ?thesis using "1.prems" by (simp add: pmm_init_loop.simps [of limit address s] Let_def)
    qed
  next
    case True
    define m where "m = min (pmm_region_count (address + FRAME_SIZE) limit) (nat (MAX_FRAMES - 1 - stack_top ?s1))"
    note cnt = pmm_region_count_step [OF conjunct1 [OF True] "1.prems"(1)]
    have wf1: "pmm_wf ?s1" using True "1.prems"(2) by (simp add: pmm_wf_def)
    have n: "min (pmm_region_count address limit) (nat (MAX_FRAMES - 1 - stack_top s)) = Suc m"
    proof -
      have "nat (MAX_FRAMES - 1 - stack_top s) = Suc (nat (MAX_FRAMES - 1 - stack_top ?s1))"
        using True by (simp add: Suc_nat_eq_nat_zadd1)
      then show ?thesis by (simp only: m_def cnt(1) min_Suc_Suc)
    qed
    have unf: "pmm_init_loop limit address s = pmm_init_loop limit (address + FRAME_SIZE) ?s1"
      using True by (simp add: pmm_init_loop.simps [of limit address s] Let_def)
    have shift: "map (\<lambda>i. address + of_nat i * FRAME_SIZE) [0..<Suc m] =
        address # map (\<lambda>i. address + FRAME_SIZE + of_nat i * FRAME_SIZE) [0..<m]"
      by (simp add: upt_conv_Cons map_Suc_upt [symmetric] comp_def algebra_simps del: upt_Suc)
    have "\<not> MAX_FRAMES - 1 \<le> stack_top s" "address < limit" using True by auto
    from "1.IH" [OF this(2,1)] wf1 "1.prems" show ?thesis
      unfolding n unf shift m_def [symmetric] Let_def
      by (simp add: pmm_frames_push pmm_wf_def m_def)
  qed
qed

lemma pmm_region_frames:
  fixes st :: u32
  assumes "st \<noteq> 0" "2 ^ 12 dvd unat st" "unat st + 4096 * n \<le> 2 ^ 32"
  shows "distinct (map (\<lambda>i. st + of_nat i * FRAME_SIZE) [0..<n])"
    and "\<forall>a \<in> set (map (\<lambda>i. st + of_nat i * FRAME_SIZE) [0..<n]). a \<noteq> 0 \<and> a AND (FRAME_SIZE - 1) = 0"
proof -
  have val: "unat (st + of_nat i * FRAME_SIZE) = unat st + 4096 * i" if "i < n" for i
  proof -
    have "unat (of_nat i * FRAME_SIZE :: u32) = 4096 * i"
      using that assms(3) by (simp add: FRAME_SIZE_def unat_word_ariths unat_of_nat)
    then show ?thesis using that assms(3) by (subst unat_add_no_wrap) auto
  qed
  have "inj_on (\<lambda>i. st + of_nat i * FRAME_SIZE) {0..<n}"
  proof (rule inj_onI)
    fix x y
    assume x: "x \<in> {0..<n}" and y: "y \<in> {0..<n}"
      and eq: "st + of_nat x * FRAME_SIZE = st + of_nat y * FRAME_SIZE"
    have "unat st + 4096 * x = unat st + 4096 * y"
      using val [of x] val [of y] x y arg_cong [OF eq, of unat] by simp
    then show "x = y" by simp
  qed
  then show "distinct (map (\<lambda>i. st + of_nat i * FRAME_SIZE) [0..<n])"
    by (simp add: distinct_map)
  have "a \<noteq> 0 \<and> a AND (FRAME_SIZE - 1) = 0"
    if "a \<in> set (map (\<lambda>i. st + of_nat i * FRAME_SIZE) [0..<n])" for a
  proof -
    from that obtain i where i: "i < n" and a: "a = st + of_nat i * FRAME_SIZE" by auto
    have "unat st \<noteq> 0" using assms(1) by (simp add: unat_eq_zero)
    then have "unat a \<noteq> 0" using val [OF i] a by simp
    moreover have "2 ^ 12 dvd unat a" using val [OF i] a assms(2) by (simp add: dvd_add)
    moreover have "(FRAME_SIZE - 1 :: u32) = mask 12" by (simp add: FRAME_SIZE_def mask_eq_exp_minus_1)
    ultimately show ?thesis by (auto simp: and_mask_dvd)
  qed
  then show "\<forall>a \<in> set (map (\<lambda>i. st + of_nat i * FRAME_SIZE) [0..<n]). a \<noteq> 0 \<and> a AND (FRAME_SIZE - 1) = 0"
    by blast
qed

lemma pmm_align_dvd: "2 ^ 12 dvd unat (pmm_align a)"
proof -
  have "(FRAME_SIZE - 1 :: u32) = mask 12" by (simp add: FRAME_SIZE_def mask_eq_exp_minus_1)
  then show ?thesis unfolding pmm_align_def by (simp only: align_down_dvd)
qed

section \<open>Properties\<close>

text \<open>Initialising the manager over a region that neither is empty of addresses nor
  wraps gives exactly the page-aligned frames of the region, at most 32768 of them, in
  ascending order; the manager's invariant holds, and its counters say that all the
  frames are free and none is used.\<close>

theorem pmm_init_region:
  assumes "pmm_align st \<noteq> 0" and "unat (pmm_align st) + unat sz + 4096 \<le> 2 ^ 32"
  defines "n \<equiv> min ((unat sz + 4095) div 4096) 32768"
  defines "s \<equiv> pmm_init st sz pmm_boot"
  shows "pmm_frames s = map (\<lambda>i. pmm_align st + of_nat i * FRAME_SIZE) [0..<n]
    \<and> pmm_inv (set (pmm_frames s)) s
    \<and> pmm_free_frames s = of_nat n \<and> pmm_used_frames s = 0"
proof -
  let ?b = "pmm_boot\<lparr>frame_stack := \<lambda>_. 0\<rparr>"
  have lim: "unat (pmm_align st + sz) = unat (pmm_align st) + unat sz"
    using assms(2) by (intro unat_add_no_wrap) simp
  have wf: "pmm_wf ?b" and top: "stack_top ?b = -1" and fr: "pmm_frames ?b = []"
    by (simp_all add: pmm_wf_def pmm_boot_def pmm_frames_def MAX_FRAMES_def)
  have cnt: "pmm_region_count (pmm_align st) (pmm_align st + sz) = (unat sz + 4095) div 4096"
    by (simp add: pmm_region_count_def lim)
  have run: "pmm_frames s = map (\<lambda>i. pmm_align st + of_nat i * FRAME_SIZE) [0..<n]
      \<and> pmm_wf s \<and> total_frames s = of_nat n"
    using pmm_init_loop_frames [of "pmm_align st + sz" ?b "pmm_align st"] assms(2) wf
    unfolding s_def pmm_init_def Let_def cnt top fr n_def
    by (simp add: lim MAX_FRAMES_def pmm_boot_def)
  have "4096 * ((unat sz + 4095) div 4096) \<le> unat sz + 4095" by simp
  then have "unat (pmm_align st) + 4096 * n \<le> 2 ^ 32"
    using assms(2) unfolding n_def by linarith
  note region = pmm_region_frames [OF assms(1) pmm_align_dvd this]
  have len: "nat (stack_top s + 1) = n" using arg_cong [OF conjunct1 [OF run], of length] by simp
  have "card (set (pmm_frames s)) \<le> 32768"
    using card_length [of "pmm_frames s"] len unfolding n_def by simp
  then have "pmm_inv (set (pmm_frames s)) s"
    using run region unfolding pmm_inv_def by (simp add: MAX_FRAMES_def)
  moreover have "-1 \<le> stack_top s" using run by (simp add: pmm_wf_def)
  with len have "stack_top s + 1 = int n" by linarith
  then have "of_int (stack_top s + 1) = (of_nat n :: u32)" by simp
  ultimately show ?thesis
    using run by (simp add: pmm_free_frames_def pmm_used_frames_def pmm_total_frames_def)
qed

theorem pmm_init_region_witness:
  "pmm_frames (pmm_init 0x100001 0x2000 pmm_boot) = [0x101000, 0x102000]
    \<and> pmm_free_frames (pmm_init 0x100001 0x2000 pmm_boot) = 2"
proof -
  have al: "pmm_align 0x100001 = 0x101000" by (simp add: pmm_align_def FRAME_SIZE_def)
  show ?thesis
    using pmm_init_region [of "0x100001" "0x2000"]
    by (simp add: al FRAME_SIZE_def upt_zero_numeral)
qed

text \<open>C5. Whatever sequence of allocations and frees a client performs, freeing only frames
  it holds: no held frame is free, the held and the free frames together are the frames
  at the start, and an allocation fails only when the client holds all of them.\<close>

theorem pmm_no_double_use:
  assumes "pmm_inv U s0" and "alloc_reach pmm_alloc pmm_free 0 s0 s H"
  shows "pmm_inv U s \<and> H \<inter> set (pmm_frames s) = {} \<and> H \<union> set (pmm_frames s) = set (pmm_frames s0)
    \<and> (fst (pmm_alloc s) = 0 \<longrightarrow> H = set (pmm_frames s0))"
proof -
  have "fst (pmm_alloc s) = 0 \<longrightarrow> H = pmm_avail s0"
    using pmm.reach_exhausted [OF assms, of "snd (pmm_alloc s)"] by (cases "pmm_alloc s") simp
  with pmm.reach_partition [OF assms] show ?thesis by (simp add: pmm_avail_def)
qed

definition pmm_two :: pmm_state where
  "pmm_two = \<lparr>frame_stack = (\<lambda>_. 0)(0 := 0x101000, 1 := 0x102000), stack_top = 1, total_frames = 2\<rparr>"

theorem pmm_no_double_use_witness:
  "alloc_reach pmm_alloc pmm_free 0 pmm_two (snd (pmm_alloc pmm_two)) {0x102000}
    \<and> {0x102000} \<inter> set (pmm_frames (snd (pmm_alloc pmm_two))) = {}"
proof -
  have inv: "pmm_inv {0x101000, 0x102000} pmm_two"
    by (simp add: pmm_inv_def pmm_wf_def pmm_two_def pmm_frames_def MAX_FRAMES_def FRAME_SIZE_def
        upt_zero_numeral)
  have "pmm_alloc pmm_two = (0x102000, snd (pmm_alloc pmm_two))"
    by (simp add: pmm_alloc_def pmm_two_def)
  then have reach: "alloc_reach pmm_alloc pmm_free 0 pmm_two (snd (pmm_alloc pmm_two)) {0x102000}"
    by (intro alloc_reach.take [where alloc = pmm_alloc and s = pmm_two] alloc_reach.start) simp_all
  with pmm_no_double_use [OF inv reach] show ?thesis by simp
qed

end
