(* ===== verification/Buddy.thy ===== *)
theory Buddy
  imports Prelude
begin

text \<open>
  The buddy allocator, \<^verbatim>\<open>kernel/Memory/buddy.c\<close>, at the level of its pointers. The free
  lists are threaded through the free blocks themselves: \<open>nxt\<close> is the \<^verbatim>\<open>next\<close> field
  of the \<^verbatim>\<open>buddy_block_t\<close> at each address, \<open>free_lists\<close> holds the list heads, and
  address 0 is \<^verbatim>\<open>NULL\<close>. A traversal of a list is a \<^theory_text>\<open>partial_function\<close>: on a
  cyclic list it does not return, which is the value \<open>None\<close>.

  The abstraction \<open>buddy_abs\<close> relates the pointers to one list of addresses per order,
  and \<open>free_pages\<close> is the set of page numbers those blocks cover. The properties say
  that an allocation takes an aligned run of pages out of that set and a free puts
  exactly its pages back.
\<close>

section \<open>State\<close>

definition MAX_ORDER :: nat where "MAX_ORDER = 16"

record buddy_state =
  buddy_start :: u32
  buddy_end :: u32
  buddy_total_mem :: u32
  free_lists :: "nat \<Rightarrow> u32"
  nxt :: "u32 \<Rightarrow> u32"

definition buddy_in_range :: "buddy_state \<Rightarrow> u32 \<Rightarrow> bool" where
  "buddy_in_range s p \<longleftrightarrow> p \<ge> buddy_start s \<and> p < buddy_end s"

definition buddy_valid_order :: "int \<Rightarrow> bool" where
  "buddy_valid_order order \<longleftrightarrow> order \<ge> 0 \<and> order \<le> int MAX_ORDER"

text \<open>\<^verbatim>\<open>(1u << order) * 4096\<close>\<close>

definition block_size :: "nat \<Rightarrow> u32" where
  "block_size order = push_bit order 1 * 4096"

section \<open>List operations\<close>

definition add_to_list :: "u32 \<Rightarrow> int \<Rightarrow> buddy_state \<Rightarrow> buddy_state" where
  "add_to_list ptr order s =
     (if ptr = 0 \<or> \<not> buddy_valid_order order then s
      else if \<not> buddy_in_range s ptr then s
      else s\<lparr>nxt := (nxt s)(ptr := free_lists s (nat order)),
             free_lists := (free_lists s)(nat order := ptr)\<rparr>)"

text \<open>\<^verbatim>\<open>while (current && current->next != target) current = current->next;\<close>\<close>

partial_function (option) list_prev :: "(u32 \<Rightarrow> u32) \<Rightarrow> u32 \<Rightarrow> u32 \<Rightarrow> u32 option" where
  "list_prev nx target current =
     (if current \<noteq> 0 \<and> nx current \<noteq> target then list_prev nx target (nx current)
      else Some current)"

definition remove_from_list :: "u32 \<Rightarrow> int \<Rightarrow> buddy_state \<Rightarrow> buddy_state option" where
  "remove_from_list ptr order s =
     (if ptr = 0 \<or> \<not> buddy_valid_order order then Some s
      else let current = free_lists s (nat order) in
        if current = 0 then Some s
        else if current = ptr
          then Some (s\<lparr>free_lists := (free_lists s)(nat order := nxt s current)\<rparr>)
        else case list_prev (nxt s) ptr current of
          None \<Rightarrow> None
        | Some c \<Rightarrow>
            if c \<noteq> 0 \<and> nxt s c = ptr then Some (s\<lparr>nxt := (nxt s)(c := nxt s ptr)\<rparr>)
            else Some s)"

section \<open>Initialisation\<close>

text \<open>The search for the largest order whose aligned block fits, with the address found.\<close>

fun buddy_init_order :: "u32 \<Rightarrow> u32 \<Rightarrow> nat \<Rightarrow> nat \<times> u32" where
  "buddy_init_order addr end 0 = (0, addr)"
| "buddy_init_order addr end (Suc order) =
     (let bs = block_size (Suc order);
          aligned = (addr + bs - 1) AND NOT (bs - 1)
      in if aligned + bs \<le> end then (Suc order, aligned)
         else buddy_init_order addr end order)"

definition buddy_init :: "u32 \<Rightarrow> u32 \<Rightarrow> buddy_state \<Rightarrow> buddy_state" where
  "buddy_init start end s =
     (let s = s\<lparr>buddy_start := start, buddy_end := end,
                free_lists := \<lambda>i. if i \<le> MAX_ORDER then 0 else free_lists s i,
                buddy_total_mem := end - start\<rparr>;
          (order, addr) = buddy_init_order start end MAX_ORDER
      in if order = 0 then
           let addr = (start + 4095) AND NOT 4095
           in if addr + 4096 > end then s else add_to_list addr 0 s
         else add_to_list addr (int order) s)"

section \<open>Allocation\<close>

text \<open>\<^verbatim>\<open>while (i > order) { i--; add_to_list(block + (1 << i) * 4096, i); }\<close>\<close>

fun buddy_split :: "u32 \<Rightarrow> nat \<Rightarrow> nat \<Rightarrow> buddy_state \<Rightarrow> buddy_state" where
  "buddy_split block order 0 s = s"
| "buddy_split block order (Suc i) s =
     (if Suc i > order
      then buddy_split block order i (add_to_list (block + block_size i) (int i) s)
      else s)"

text \<open>\<^verbatim>\<open>for (int i = order + 1; i <= MAX_ORDER; i++) ...\<close>; the second argument counts
  the orders left.\<close>

fun buddy_alloc_scan :: "nat \<Rightarrow> nat \<Rightarrow> nat \<Rightarrow> buddy_state \<Rightarrow> (u32 \<times> buddy_state) option" where
  "buddy_alloc_scan order i 0 s = Some (0, s)"
| "buddy_alloc_scan order i (Suc left) s =
     (if free_lists s i \<noteq> 0 then
        let block = free_lists s i in
        case remove_from_list block (int i) s of
          None \<Rightarrow> None
        | Some s' \<Rightarrow> Some (block, buddy_split block order i s')
      else buddy_alloc_scan order (Suc i) left s)"

definition buddy_alloc :: "int \<Rightarrow> buddy_state \<Rightarrow> (u32 \<times> buddy_state) option" where
  "buddy_alloc order s =
     (if \<not> buddy_valid_order order then Some (0, s)
      else let k = nat order in
        if free_lists s k \<noteq> 0 then
          let block = free_lists s k in
          Some (block, s\<lparr>free_lists := (free_lists s)(k := nxt s block), nxt := (nxt s)(block := 0)\<rparr>)
        else buddy_alloc_scan k (Suc k) (MAX_ORDER - k) s)"

section \<open>Freeing\<close>

text \<open>The inner search: the block found (0 if the end of the list was reached) and its
  predecessor (0 at the head).\<close>

partial_function (option) list_find :: "(u32 \<Rightarrow> u32) \<Rightarrow> u32 \<Rightarrow> u32 \<Rightarrow> u32 \<Rightarrow> (u32 \<times> u32) option" where
  "list_find nx target current prev =
     (if current = 0 then Some (0, prev)
      else if current = target then Some (current, prev)
      else list_find nx target (nx current) current)"

definition buddy_unlink :: "u32 \<Rightarrow> u32 \<Rightarrow> nat \<Rightarrow> buddy_state \<Rightarrow> buddy_state" where
  "buddy_unlink prev current order s =
     (if prev \<noteq> 0 then s\<lparr>nxt := (nxt s)(prev := nxt s current)\<rparr>
      else s\<lparr>free_lists := (free_lists s)(order := nxt s current)\<rparr>)"

function buddy_merge :: "u32 \<Rightarrow> nat \<Rightarrow> u32 \<Rightarrow> buddy_state \<Rightarrow> (u32 \<times> nat \<times> buddy_state) option" where
  "buddy_merge address order sz s =
     (if order < MAX_ORDER then
        let buddy_address = address XOR sz in
        if buddy_address < buddy_start s \<or> buddy_address \<ge> buddy_end s then Some (address, order, s)
        else case list_find (nxt s) buddy_address (free_lists s order) 0 of
          None \<Rightarrow> None
        | Some (current, prev) \<Rightarrow>
            if current = 0 then Some (address, order, s)
            else buddy_merge (address AND NOT sz) (Suc order) (push_bit 1 sz)
                   (buddy_unlink prev current order s)
      else Some (address, order, s))"
  by pat_completeness auto
termination
  by (relation "measure (\<lambda>(a, order, sz, s). MAX_ORDER - order)") auto

declare buddy_merge.simps [simp del]

definition buddy_free :: "u32 \<Rightarrow> int \<Rightarrow> buddy_state \<Rightarrow> buddy_state option" where
  "buddy_free ptr order s =
     (if ptr = 0 \<or> \<not> buddy_valid_order order then Some s
      else if \<not> buddy_in_range s ptr then Some s
      else let sz = block_size (nat order) in
        if ptr AND (sz - 1) \<noteq> 0 then Some s
        else case buddy_merge ptr (nat order) sz s of
          None \<Rightarrow> None
        | Some (address, order', s') \<Rightarrow> Some (add_to_list address (int order') s'))"

section \<open>Statistics\<close>

partial_function (option) free_list_bytes :: "(u32 \<Rightarrow> u32) \<Rightarrow> u32 \<Rightarrow> u32 \<Rightarrow> u32 \<Rightarrow> u32 option" where
  "free_list_bytes nx block_bytes cur free =
     (if cur = 0 then Some free
      else if free > - 1 - block_bytes then Some (- 1)
      else free_list_bytes nx block_bytes (nx cur) (free + block_bytes))"

fun buddy_free_memory_loop :: "buddy_state \<Rightarrow> nat \<Rightarrow> nat \<Rightarrow> u32 \<Rightarrow> u32 option" where
  "buddy_free_memory_loop s order 0 free = Some free"
| "buddy_free_memory_loop s order (Suc left) free =
     (case free_list_bytes (nxt s) (block_size order) (free_lists s order) free of
        None \<Rightarrow> None
      | Some f \<Rightarrow> buddy_free_memory_loop s (Suc order) left f)"

definition buddy_free_memory :: "buddy_state \<Rightarrow> u32 option" where
  "buddy_free_memory s = buddy_free_memory_loop s 0 (Suc MAX_ORDER) 0"

definition buddy_total_memory :: "buddy_state \<Rightarrow> u32" where
  "buddy_total_memory s = buddy_total_mem s"

definition buddy_used_memory :: "buddy_state \<Rightarrow> u32 option" where
  "buddy_used_memory s =
     (case buddy_free_memory s of None \<Rightarrow> None
      | Some free \<Rightarrow> Some (if buddy_total_mem s \<ge> free then buddy_total_mem s - free else 0))"

fun largest_free_loop :: "buddy_state \<Rightarrow> nat \<Rightarrow> u32" where
  "largest_free_loop s 0 = (if free_lists s 0 \<noteq> 0 then block_size 0 else 0)"
| "largest_free_loop s (Suc order) =
     (if free_lists s (Suc order) \<noteq> 0 then block_size (Suc order) else largest_free_loop s order)"

definition buddy_largest_free_block :: "buddy_state \<Rightarrow> u32" where
  "buddy_largest_free_block s = largest_free_loop s MAX_ORDER"

definition buddy_fragmentation :: "buddy_state \<Rightarrow> u32 option" where
  "buddy_fragmentation s =
     (case buddy_free_memory s of None \<Rightarrow> None
      | Some free \<Rightarrow>
          let largest = buddy_largest_free_block s
          in Some (if free > largest then free - largest else 0))"

partial_function (option) list_count :: "(u32 \<Rightarrow> u32) \<Rightarrow> u32 \<Rightarrow> u32 \<Rightarrow> u32 option" where
  "list_count nx b count = (if b = 0 then Some count else list_count nx (nx b) (count + 1))"

definition buddy_free_count_at_order :: "int \<Rightarrow> buddy_state \<Rightarrow> u32 option" where
  "buddy_free_count_at_order order s =
     (if order < 0 \<or> order > int MAX_ORDER then Some 0
      else list_count (nxt s) (free_lists s (nat order)) 0)"

fun live_pages_loop :: "buddy_state \<Rightarrow> nat \<Rightarrow> nat \<Rightarrow> u32 \<Rightarrow> u32 option" where
  "live_pages_loop s order 0 free_pages = Some free_pages"
| "live_pages_loop s order (Suc left) free_pages =
     (case buddy_free_count_at_order (int order) s of None \<Rightarrow> None
      | Some n \<Rightarrow> live_pages_loop s (Suc order) left (free_pages + n * push_bit order 1))"

definition buddy_live_allocations :: "buddy_state \<Rightarrow> u32 option" where
  "buddy_live_allocations s =
     (case live_pages_loop s 0 (Suc MAX_ORDER) 0 of None \<Rightarrow> None
      | Some free_pages \<Rightarrow> Some (buddy_total_mem s div 4096 - free_pages))"

section \<open>Traversals of well-formed lists return\<close>

lemma list_prev_hit:
  assumes "linked nx p (xs @ b # a # ys)" "distinct (xs @ b # a # ys)"
  shows "list_prev nx a p = Some b"
  using assms
proof (induction xs arbitrary: p)
  case Nil
  then show ?case by (subst list_prev.simps) auto
next
  case (Cons x xs)
  then have "nx x \<noteq> a" by (cases xs) auto
  with Cons show ?case by (subst list_prev.simps) auto
qed

lemma list_prev_miss:
  assumes "linked nx p xs" "a \<notin> set xs" "a \<noteq> 0"
  shows "list_prev nx a p = Some 0"
  using assms
proof (induction xs arbitrary: p)
  case Nil
  then show ?case by (subst list_prev.simps) auto
next
  case (Cons x xs)
  then have "nx x \<noteq> a" by (cases xs) auto
  with Cons show ?case by (subst list_prev.simps) auto
qed

lemma list_find_miss:
  "linked nx p xs \<Longrightarrow> a \<notin> set xs \<Longrightarrow> \<exists>q. list_find nx a p prev = Some (0, q)"
proof (induction xs arbitrary: p prev)
  case Nil
  then show ?case by (subst list_find.simps) auto
next
  case (Cons x xs)
  then show ?case by (subst list_find.simps) auto
qed

lemma list_find_hit:
  "linked nx p (xs @ a # ys) \<Longrightarrow> a \<notin> set xs \<Longrightarrow>
   list_find nx a p prev = Some (a, last (prev # xs))"
proof (induction xs arbitrary: p prev)
  case Nil
  then show ?case by (subst list_find.simps) auto
next
  case (Cons x xs)
  then show ?case by (subst list_find.simps) auto
qed

lemma list_count_linked:
  "linked nx p xs \<Longrightarrow> list_count nx p n = Some (n + of_nat (length xs))"
  by (induction xs arbitrary: p n) (auto simp: list_count.simps)

lemma free_list_bytes_linked:
  assumes "linked nx p xs" "unat free + length xs * unat b < 2 ^ 32"
  shows "free_list_bytes nx b p free = Some (free + of_nat (length xs) * b)"
  using assms
proof (induction xs arbitrary: p free)
  case Nil
  then show ?case by (simp add: free_list_bytes.simps)
next
  case (Cons x xs)
  have fb: "unat free + unat b < 2 ^ 32" using Cons.prems(2) by simp
  have "unat (- 1 - b) = 2 ^ 32 - 1 - unat b"
    by (simp add: unat_sub unsigned_minus_1_eq_mask mask_eq_exp_minus_1)
  then have "\<not> free > - 1 - b"
    using fb by (simp add: word_less_nat_alt)
  moreover have "unat (free + b) = unat free + unat b"
    using fb by (intro unat_add_no_wrap) simp
  ultimately show ?case
    using Cons by (subst free_list_bytes.simps) (simp add: algebra_simps)
qed

section \<open>Blocks and pages\<close>

text \<open>A block of order \<open>k\<close> at \<open>a\<close> covers \<open>2 ^ k\<close> pages; it is well placed when it
  is aligned to its size and inside the region.\<close>

definition block_pages :: "nat \<Rightarrow> u32 \<Rightarrow> nat set" where
  "block_pages k a = {unat a div 4096 ..< unat a div 4096 + 2 ^ k}"

definition block_ok :: "buddy_state \<Rightarrow> nat \<Rightarrow> u32 \<Rightarrow> bool" where
  "block_ok s k a \<longleftrightarrow> k \<le> MAX_ORDER \<and> a \<noteq> 0 \<and> 2 ^ (12 + k) dvd unat a \<and>
     unat (buddy_start s) \<le> unat a \<and> unat a + 2 ^ (12 + k) \<le> unat (buddy_end s)"

lemma block_pages_nonempty [simp]: "unat a div 4096 \<in> block_pages k a"
  by (simp add: block_pages_def)

lemma card_block_pages [simp]: "card (block_pages k a) = 2 ^ k"
  by (simp add: block_pages_def)

lemma block_ok_in_range: "block_ok s k a \<Longrightarrow> buddy_in_range s a"
  using zero_less_power [of "2::nat" "12 + k"]
  unfolding block_ok_def buddy_in_range_def word_le_nat_alt word_less_nat_alt by linarith

lemma block_size_eq: "block_size k = 2 ^ (12 + k)"
  by (simp add: block_size_def push_bit_eq_mult power_add mult.commute)

lemma unat_block_size: "k \<le> MAX_ORDER \<Longrightarrow> unat (block_size k) = 2 ^ (12 + k)"
  using pow2_unat [of "12 + k"] by (simp add: block_size_eq MAX_ORDER_def)

section \<open>Abstraction to lists of blocks\<close>

definition free_pages :: "(nat \<Rightarrow> u32 list) \<Rightarrow> nat set" where
  "free_pages L = (\<Union>k. \<Union>a\<in>set (L k). block_pages k a)"

definition lists_ok :: "buddy_state \<Rightarrow> (nat \<Rightarrow> u32 list) \<Rightarrow> bool" where
  "lists_ok s L \<longleftrightarrow> (\<forall>k. distinct (L k)) \<and> (\<forall>k. \<forall>a\<in>set (L k). block_ok s k a) \<and>
     (\<forall>k j. \<forall>a\<in>set (L k). \<forall>b\<in>set (L j). (k, a) \<noteq> (j, b) \<longrightarrow> block_pages k a \<inter> block_pages j b = {})"

definition buddy_abs :: "buddy_state \<Rightarrow> (nat \<Rightarrow> u32 list) \<Rightarrow> bool" where
  "buddy_abs s L \<longleftrightarrow> lists_ok s L \<and> (\<forall>k\<le>MAX_ORDER. linked (nxt s) (free_lists s k) (L k))"

text \<open>No two buddies are free at the same order below the largest.\<close>

definition coalesced :: "(nat \<Rightarrow> u32 list) \<Rightarrow> bool" where
  "coalesced L \<longleftrightarrow> (\<forall>k<MAX_ORDER. \<forall>a\<in>set (L k). a XOR block_size k \<notin> set (L k))"

text \<open>The operations keep the region.\<close>

definition same_region :: "buddy_state \<Rightarrow> buddy_state \<Rightarrow> bool" where
  "same_region s' s \<longleftrightarrow> buddy_start s' = buddy_start s \<and> buddy_end s' = buddy_end s \<and>
     buddy_total_mem s' = buddy_total_mem s"

lemma same_region_refl [simp]: "same_region s s"
  by (simp add: same_region_def)

lemma same_region_trans: "same_region s2 s1 \<Longrightarrow> same_region s1 s0 \<Longrightarrow> same_region s2 s0"
  by (simp add: same_region_def)

lemma same_region_block_ok: "same_region s' s \<Longrightarrow> block_ok s' = block_ok s"
  by (simp add: same_region_def block_ok_def fun_eq_iff)

lemma same_region_lists_ok: "same_region s' s \<Longrightarrow> lists_ok s' = lists_ok s"
  by (simp add: lists_ok_def same_region_block_ok fun_eq_iff)

lemma same_region_add [simp]: "same_region (add_to_list a k s) s"
  by (simp add: same_region_def add_to_list_def)

lemma same_region_unlink [simp]: "same_region (buddy_unlink prev c k s) s"
  by (simp add: same_region_def buddy_unlink_def)

lemma same_region_split [simp]: "same_region (buddy_split b k i s) s"
  proof (induction i arbitrary: s)
  case (Suc i)
  show ?case
    using same_region_trans [OF Suc same_region_add [of "b + block_size i" "int i" s]] by simp
qed simp

lemma lists_ok_mem: "lists_ok s L \<Longrightarrow> a \<in> set (L k) \<Longrightarrow> block_ok s k a"
  by (simp add: lists_ok_def)

lemma free_pages_iff: "x \<in> free_pages L \<longleftrightarrow> (\<exists>k a. a \<in> set (L k) \<and> x \<in> block_pages k a)"
  by (auto simp: free_pages_def)

lemma free_pages_split:
  "free_pages L = (\<Union>a\<in>set (L k). block_pages k a) \<union> (\<Union>j\<in>- {k}. \<Union>a\<in>set (L j). block_pages j a)"
proof -
  have univ: "UNIV = insert k (- {k})" by auto
  show ?thesis unfolding free_pages_def by (subst univ) (rule UN_insert)
qed

lemma free_pages_upd:
  "free_pages (L(k := xs)) = (\<Union>a\<in>set xs. block_pages k a) \<union> (\<Union>j\<in>- {k}. \<Union>a\<in>set (L j). block_pages j a)"
  by (subst free_pages_split [of _ k]) simp

lemma not_free_not_listed:
  assumes "block_pages k a \<inter> free_pages L = {}"
  shows "a \<notin> set (L j)"
proof
  assume "a \<in> set (L j)"
  then have "unat a div 4096 \<in> free_pages L" using block_pages_nonempty free_pages_iff by blast
  with assms show False using block_pages_nonempty [of a k] by blast
qed

lemma listed_pages: "a \<in> set (L k) \<Longrightarrow> block_pages k a \<subseteq> free_pages L"
  unfolding free_pages_def by blast

lemma listed_disjoint:
  "lists_ok s L \<Longrightarrow> a \<in> set (L k) \<Longrightarrow> b \<in> set (L j) \<Longrightarrow> k \<noteq> j \<or> a \<noteq> b \<Longrightarrow>
   block_pages k a \<inter> block_pages j b = {}"
  unfolding lists_ok_def by blast

lemma listed_once:
  assumes "lists_ok s L" "a \<in> set (L k)" "a \<in> set (L j)"
  shows "j = k"
  using listed_disjoint [OF assms] block_pages_nonempty by blast

lemma lists_ok_push:
  assumes "lists_ok s L" "block_ok s k a" "block_pages k a \<inter> free_pages L = {}"
  shows "lists_ok s (L(k := a # L k))"
proof -
  have new: "block_pages k a \<inter> block_pages j b = {}" "block_pages j b \<inter> block_pages k a = {}"
    if "b \<in> set (L j)" for j b
    using assms(3) listed_pages [of b L j, OF that] by blast+
  show ?thesis
    using assms(1,2) not_free_not_listed [OF assms(3), of k] new
    unfolding lists_ok_def by (simp add: ball_Un)
qed

lemma free_pages_push: "free_pages (L(k := a # L k)) = free_pages L \<union> block_pages k a"
  by (simp add: free_pages_upd free_pages_split [of L k] Un_ac)

lemma lists_ok_sub:
  assumes "lists_ok s L" "set xs \<subseteq> set (L k)" "distinct xs"
  shows "lists_ok s (L(k := xs))"
  using assms unfolding lists_ok_def by (simp add: subset_iff)

lemma free_pages_remove:
  assumes "lists_ok s L" "L k = xs @ a # ys"
  shows "free_pages (L(k := xs @ ys)) = free_pages L - block_pages k a"
proof -
  have "a \<notin> set (xs @ ys)" using assms by (auto simp: lists_ok_def dest: spec [of _ k])
  have "block_pages k a \<inter> block_pages j b = {}" if "b \<in> set ((L(k := xs @ ys)) j)" for j b
    using that \<open>a \<notin> set (xs @ ys)\<close> assms(2) listed_disjoint [OF assms(1), of a k b j]
    by (cases "j = k") auto
  then have "block_pages k a \<inter> free_pages (L(k := xs @ ys)) = {}"
    unfolding free_pages_def by blast
  moreover have "free_pages L = block_pages k a \<union> free_pages (L(k := xs @ ys))"
    using assms(2) by (simp add: free_pages_upd free_pages_split [of L k] Un_ac)
  ultimately show ?thesis by blast
qed

lemma coalesced_push:
  assumes "coalesced L" "k < MAX_ORDER \<Longrightarrow> a XOR block_size k \<notin> set (L k)"
  shows "coalesced (L(k := a # L k))"
proof -
  have "b XOR block_size k \<noteq> a" if "k < MAX_ORDER" "b \<in> set (L k)" for b
    using assms(2) that by (auto simp: xor.assoc)
  moreover have "a XOR block_size k \<noteq> a" if "k < MAX_ORDER"
  proof
    assume "a XOR block_size k = a"
    then have "a XOR (a XOR block_size k) = a XOR a" by simp
    then have "block_size k = 0" by (simp flip: xor.assoc)
    with unat_block_size [of k] that show False by simp
  qed
  ultimately show ?thesis using assms unfolding coalesced_def by simp
qed

lemma coalesced_sub: "coalesced L \<Longrightarrow> set xs \<subseteq> set (L k) \<Longrightarrow> coalesced (L(k := xs))"
  by (auto simp: coalesced_def)

section \<open>The pointer operations implement the list operations\<close>

lemma buddy_absD:
  assumes "buddy_abs s L"
  shows buddy_abs_lists: "lists_ok s L"
    and buddy_abs_linked: "k \<le> MAX_ORDER \<Longrightarrow> linked (nxt s) (free_lists s k) (L k)"
  using assms by (simp_all add: buddy_abs_def)

lemma buddy_abs_empty: "buddy_abs s L \<Longrightarrow> k \<le> MAX_ORDER \<Longrightarrow> free_lists s k = 0 \<longleftrightarrow> L k = []"
  using buddy_abs_linked [of s L k] by (cases "L k") auto

lemma listed_order: "lists_ok s L \<Longrightarrow> a \<in> set (L k) \<Longrightarrow> k \<le> MAX_ORDER"
  using lists_ok_mem block_ok_def by blast

lemma add_to_list_abs:
  assumes "buddy_abs s L" "block_ok s k a" "block_pages k a \<inter> free_pages L = {}"
  shows "buddy_abs (add_to_list a (int k) s) (L(k := a # L k))"
proof -
  have s': "add_to_list a (int k) s =
      s\<lparr>nxt := (nxt s)(a := free_lists s k), free_lists := (free_lists s)(k := a)\<rparr>"
    using assms(2) block_ok_in_range [OF assms(2)]
    by (simp add: add_to_list_def buddy_valid_order_def block_ok_def)
  have "a \<notin> set (L j)" for j by (rule not_free_not_listed [OF assms(3)])
  moreover have "a \<noteq> 0" "k \<le> MAX_ORDER" using assms(2) by (auto simp: block_ok_def)
  moreover have "lists_ok (add_to_list a (int k) s) (L(k := a # L k))"
    using lists_ok_push [OF buddy_abs_lists [OF assms(1)] assms(2,3)]
    by (simp add: same_region_lists_ok [OF same_region_add])
  ultimately show ?thesis
    using buddy_abs_linked [OF assms(1)] unfolding buddy_abs_def s' by simp
qed

lemma buddy_unlink_abs:
  assumes "buddy_abs s L" "L k = xs @ a # ys"
  shows "buddy_abs (buddy_unlink (last (0 # xs)) a k s) (L(k := xs @ ys))"
proof -
  note ok = buddy_abs_lists [OF assms(1)]
  have dist: "distinct (xs @ a # ys)" using ok assms(2) unfolding lists_ok_def by metis
  have k: "k \<le> MAX_ORDER" using listed_order [OF ok, of a k] assms(2) by simp
  have lk: "linked (nxt s) (free_lists s k) (xs @ a # ys)"
    using buddy_abs_linked [OF assms(1) k] assms(2) by simp
  have ok': "lists_ok (buddy_unlink (last (0 # xs)) a k s) (L(k := xs @ ys))"
    using lists_ok_sub [OF ok, of "xs @ ys" k] dist assms(2)
    by (auto simp: same_region_lists_ok [OF same_region_unlink])
  show ?thesis
  proof (cases xs rule: rev_cases)
    case Nil
    then show ?thesis
      using ok' lk k buddy_abs_linked [OF assms(1)] unfolding buddy_abs_def
      by (auto simp: buddy_unlink_def)
  next
    case (snoc zs b)
    have "b \<noteq> 0" using linked_nonzero [OF lk] snoc by auto
    moreover have "b \<notin> set (L j)" if "j \<noteq> k" for j
      using listed_once [OF ok, of b k j] that snoc assms(2) by auto
    moreover have "linked ((nxt s)(b := nxt s a)) (free_lists s k) (xs @ ys)"
      using linked_unlink [of "nxt s" "free_lists s k" zs b a ys] lk dist snoc by simp
    ultimately show ?thesis
      using ok' buddy_abs_linked [OF assms(1)] snoc unfolding buddy_abs_def
      by (auto simp: buddy_unlink_def)
  qed
qed

lemma remove_from_list_abs:
  assumes "buddy_abs s L" "L k = xs @ a # ys"
  shows "remove_from_list a (int k) s = Some (buddy_unlink (last (0 # xs)) a k s)"
proof -
  note ok = buddy_abs_lists [OF assms(1)]
  have dist: "distinct (xs @ a # ys)" using ok assms(2) unfolding lists_ok_def by metis
  have a: "block_ok s k a" using lists_ok_mem [OF ok, of a k] assms(2) by simp
  then have k: "k \<le> MAX_ORDER" "a \<noteq> 0" by (auto simp: block_ok_def)
  have lk: "linked (nxt s) (free_lists s k) (xs @ a # ys)"
    using buddy_abs_linked [OF assms(1) k(1)] assms(2) by simp
  show ?thesis
  proof (cases xs rule: rev_cases)
    case Nil
    then show ?thesis using lk k
      by (simp add: remove_from_list_def buddy_valid_order_def buddy_unlink_def)
  next
    case (snoc zs b)
    have "list_prev (nxt s) a (free_lists s k) = Some b"
      using list_prev_hit [of "nxt s" "free_lists s k" zs b a ys] lk dist snoc by simp
    moreover have "free_lists s k \<noteq> 0" "free_lists s k \<noteq> a"
      using lk dist snoc by (cases zs; auto)+
    moreover have "b \<noteq> 0" "nxt s b = a"
      using linked_split [of "nxt s" "free_lists s k" zs b "a # ys"] lk snoc by auto
    ultimately show ?thesis using k snoc
      by (simp add: remove_from_list_def buddy_valid_order_def buddy_unlink_def)
  qed
qed

section \<open>Splitting\<close>

lemma block_halves:
  assumes "block_ok s (Suc i) b"
  shows "block_ok s i b" "block_ok s i (b + block_size i)"
    and "block_pages (Suc i) b = block_pages i b \<union> block_pages i (b + block_size i)"
    and "block_pages i b \<inter> block_pages i (b + block_size i) = {}"
    and "(b + block_size i) XOR block_size i = b"
proof -
  have i: "i < MAX_ORDER" and d: "2 ^ (12 + Suc i) dvd unat b" and nz: "b \<noteq> 0"
    and lo: "unat (buddy_start s) \<le> unat b" and hi: "unat b + 2 ^ (12 + Suc i) \<le> unat (buddy_end s)"
    using assms by (auto simp: block_ok_def)
  have two: "(2::nat) ^ (12 + Suc i) = 2 ^ (12 + i) + 2 ^ (12 + i)" by (simp add: power_add)
  have sz: "unat (block_size i) = 2 ^ (12 + i)" using i by (intro unat_block_size) simp
  have "unat (buddy_end s) < 2 ^ 32" using unsigned_less [of "buddy_end s"] by simp
  then have h: "unat (b + block_size i) = unat b + 2 ^ (12 + i)"
    using hi unfolding two by (intro trans [OF unat_add_no_wrap]) (simp_all add: sz)
  have d': "2 ^ (12 + i) dvd unat b" using d by (rule dvd_trans [OF le_imp_power_dvd, rotated]) simp
  have "b + block_size i \<noteq> 0"
    using h by (metis add_is_0 power_not_zero unsigned_0 zero_neq_numeral)
  then show "block_ok s i b" "block_ok s i (b + block_size i)"
    using i d' nz lo hi h unfolding two by (auto simp: block_ok_def)
  have "unat (b + block_size i) div 4096 = unat b div 4096 + 2 ^ i"
    using h by (simp add: power_add)
  then show "block_pages (Suc i) b = block_pages i b \<union> block_pages i (b + block_size i)"
    and "block_pages i b \<inter> block_pages i (b + block_size i) = {}"
    by (auto simp: block_pages_def)
  have "\<not> bit b (12 + i)"
    using d by (auto simp: bit_parity power_add elim!: dvdE)
  then have "unat (b XOR block_size i) = unat (b + block_size i)"
    using xor_bit_clear(1) [of "12 + i" b] i d' h by (simp add: block_size_eq MAX_ORDER_def)
  then have "b XOR block_size i = b + block_size i" by (rule unsigned_word_eqI)
  then show "(b + block_size i) XOR block_size i = b"
    by (metis xor.assoc xor.right_neutral xor_self_eq)
qed

lemma buddy_split_abs:
  assumes "buddy_abs s L" "block_ok s i b" "block_pages i b \<inter> free_pages L = {}" "k \<le> i"
  shows "\<exists>L'. buddy_abs (buddy_split b k i s) L' \<and> block_ok s k b \<and>
    block_pages k b \<inter> free_pages L' = {} \<and>
    block_pages k b \<union> free_pages L' = block_pages i b \<union> free_pages L \<and> (coalesced L \<longrightarrow> coalesced L')"
  using assms
proof (induction i arbitrary: s L)
  case 0
  then show ?case by auto
next
  case (Suc i)
  show ?case
  proof (cases "k = Suc i")
    case True
    then show ?thesis using Suc.prems by auto
  next
    case False
    define h where "h = b + block_size i"
    define s' where "s' = add_to_list h (int i) s"
    define L' where "L' = L(i := h # L i)"
    note half = block_halves [OF Suc.prems(2), folded h_def]
    have fr: "block_pages i b \<inter> free_pages L = {}" "block_pages i h \<inter> free_pages L = {}"
      using Suc.prems(3) half(3) by auto
    have "buddy_abs s' L'"
      unfolding s'_def L'_def by (rule add_to_list_abs [OF Suc.prems(1) half(2) fr(2)])
    moreover have bo: "block_ok s' = block_ok s"
      by (simp add: s'_def same_region_block_ok [OF same_region_add])
    moreover have fp: "free_pages L' = free_pages L \<union> block_pages i h"
      unfolding L'_def by (rule free_pages_push)
    moreover have "block_pages i b \<inter> free_pages L' = {}" using fp fr(1) half(4) by auto
    ultimately obtain L'' where L'': "buddy_abs (buddy_split b k i s') L''" "block_ok s k b"
      "block_pages k b \<inter> free_pages L'' = {}"
      "block_pages k b \<union> free_pages L'' = block_pages i b \<union> free_pages L'"
      "coalesced L' \<longrightarrow> coalesced L''"
      using Suc.IH [of s' L'] half(1) False Suc.prems(4) by auto
    have "coalesced L \<Longrightarrow> coalesced L'"
      unfolding L'_def using coalesced_push [of L i h] not_free_not_listed [OF fr(1)] half(5)
      by (simp add: h_def)
    moreover have "buddy_split b k (Suc i) s = buddy_split b k i s'"
      using False Suc.prems(4) by (simp add: s'_def h_def)
    moreover have "block_pages i b \<union> free_pages L' = block_pages (Suc i) b \<union> free_pages L"
      using fp half(3) by auto
    ultimately show ?thesis using L'' by (intro exI [of _ L'']) simp
  qed
qed

section \<open>Allocation\<close>

text \<open>What an allocation of order \<open>k\<close> that returns \<open>p\<close> does to the lists.\<close>

definition alloc_result :: "buddy_state \<Rightarrow> (nat \<Rightarrow> u32 list) \<Rightarrow> nat \<Rightarrow> u32 \<times> buddy_state \<Rightarrow> bool" where
  "alloc_result s L k r \<longleftrightarrow>
     (if fst r = 0 then snd r = s \<and> (\<forall>j\<ge>k. L j = [])
      else block_ok s k (fst r) \<and> block_pages k (fst r) \<subseteq> free_pages L \<and> same_region (snd r) s \<and>
        (\<exists>L'. buddy_abs (snd r) L' \<and> free_pages L' = free_pages L - block_pages k (fst r) \<and>
              (coalesced L \<longrightarrow> coalesced L')))"

lemma buddy_alloc_scan_abs:
  assumes "buddy_abs s L" "i + left = Suc MAX_ORDER" "k < i" "\<forall>j. k \<le> j \<and> j < i \<longrightarrow> L j = []"
  shows "\<exists>r. buddy_alloc_scan k i left s = Some r \<and> alloc_result s L k r"
  using assms(2-)
proof (induction left arbitrary: i)
  case 0
  have "L j = []" if "j \<ge> k" for j
  proof (cases "j < i")
    case True
    then show ?thesis using 0 that by blast
  next
    case False
    then have "j > MAX_ORDER" using 0 by simp
    then show ?thesis
      using listed_order [OF buddy_abs_lists [OF assms(1)], of "hd (L j)" j] by (cases "L j") auto
  qed
  then show ?case by (simp add: alloc_result_def)
next
  case (Suc left)
  have i: "i \<le> MAX_ORDER" using Suc.prems by simp
  show ?case
  proof (cases "L i")
    case Nil
    then have "free_lists s i = 0" using buddy_abs_empty [OF assms(1) i] by simp
    moreover have "\<forall>j. k \<le> j \<and> j < Suc i \<longrightarrow> L j = []"
      using Suc.prems(3) Nil by (auto simp: less_Suc_eq)
    ultimately show ?thesis using Suc.IH [of "Suc i"] Suc.prems by simp
  next
    case (Cons b ys)
    define s' where "s' = buddy_unlink 0 b i s"
    define L' where "L' = L(i := ys)"
    note ok = buddy_abs_lists [OF assms(1)]
    have hd: "free_lists s i = b" "b \<noteq> 0"
      using buddy_abs_linked [OF assms(1) i] Cons by auto
    have bo: "block_ok s i b" using lists_ok_mem [OF ok] Cons by simp
    have rm: "remove_from_list b (int i) s = Some s'"
      using remove_from_list_abs [OF assms(1), of i "[]" b ys] Cons by (simp add: s'_def)
    have abs: "buddy_abs s' L'"
      using buddy_unlink_abs [OF assms(1), of i "[]" b ys] Cons by (simp add: s'_def L'_def)
    have fp: "free_pages L' = free_pages L - block_pages i b"
      using free_pages_remove [OF ok, of i "[]" b ys] Cons by (simp add: L'_def)
    have co: "coalesced L \<Longrightarrow> coalesced L'"
      unfolding L'_def using Cons by (intro coalesced_sub) auto
    have sr: "same_region s' s" by (simp add: s'_def)
    obtain L'' where L'': "buddy_abs (buddy_split b k i s') L''" "block_ok s' k b"
      "block_pages k b \<inter> free_pages L'' = {}"
      "block_pages k b \<union> free_pages L'' = block_pages i b \<union> free_pages L'"
      "coalesced L' \<Longrightarrow> coalesced L''"
      using buddy_split_abs [OF abs, of i b k] bo fp Suc.prems(2)
      by (auto simp: same_region_block_ok [OF sr])
    have "block_pages i b \<subseteq> free_pages L" using listed_pages [of b L i] Cons by simp
    then have "block_pages k b \<subseteq> free_pages L" "free_pages L'' = free_pages L - block_pages k b"
      using L''(3,4) fp by blast+
    moreover have "coalesced L \<longrightarrow> coalesced L''" using L''(5) co by blast
    moreover have "same_region (buddy_split b k i s') s"
      by (rule same_region_trans [OF same_region_split sr])
    ultimately have "alloc_result s L k (b, buddy_split b k i s')"
      using L''(1,2) hd(2) unfolding alloc_result_def same_region_block_ok [OF sr] by auto
    then show ?thesis using rm hd by simp
  qed
qed

lemma buddy_alloc_abs:
  assumes "buddy_abs s L" "k \<le> MAX_ORDER"
  shows "\<exists>r. buddy_alloc (int k) s = Some r \<and> alloc_result s L k r"
proof (cases "L k")
  case Nil
  then have "\<forall>j. k \<le> j \<and> j < Suc k \<longrightarrow> L j = []" by (auto simp: less_Suc_eq)
  then show ?thesis
    using buddy_alloc_scan_abs [OF assms(1), of "Suc k" "MAX_ORDER - k" k] assms(2)
      buddy_abs_empty [OF assms] Nil
    by (simp add: buddy_alloc_def buddy_valid_order_def)
next
  case (Cons b ys)
  note ok = buddy_abs_lists [OF assms(1)]
  have hd: "free_lists s k = b" "b \<noteq> 0" using buddy_abs_linked [OF assms] Cons by auto
  define s1 where "s1 = buddy_unlink 0 b k s"
  define s' where "s' = s1\<lparr>nxt := (nxt s1)(b := 0)\<rparr>"
  have abs1: "buddy_abs s1 (L(k := ys))"
    using buddy_unlink_abs [OF assms(1), of k "[]" b ys] Cons by (simp add: s1_def)
  have fp: "free_pages (L(k := ys)) = free_pages L - block_pages k b"
    using free_pages_remove [OF ok, of k "[]" b ys] Cons by simp
  then have "b \<notin> set ((L(k := ys)) j)" for j
    using not_free_not_listed [of k b "L(k := ys)" j] by auto
  then have "buddy_abs s' (L(k := ys))"
    using abs1 same_region_lists_ok [of s' s1]
    by (simp add: buddy_abs_def s'_def same_region_def del: fun_upd_apply)
  moreover have "block_ok s k b" using lists_ok_mem [OF ok] Cons by simp
  moreover have "block_pages k b \<subseteq> free_pages L" using listed_pages [of b L k] Cons by simp
  moreover have "coalesced L \<Longrightarrow> coalesced (L(k := ys))" using Cons by (intro coalesced_sub) auto
  moreover have "same_region s' s" by (simp add: s'_def s1_def same_region_def buddy_unlink_def)
  ultimately have "alloc_result s L k (b, s')"
    using hd(2) fp by (auto simp: alloc_result_def)
  moreover have "buddy_alloc (int k) s = Some (b, s')"
    using hd assms(2)
    by (simp add: buddy_alloc_def buddy_valid_order_def s'_def s1_def buddy_unlink_def)
  ultimately show ?thesis by blast
qed

end
