(* ===== verification/Buddy_Run.thy ===== *)
theory Buddy_Run
  imports Buddy
begin

text \<open>
  Freeing, runs and statistics of the buddy allocator of theory \<open>Buddy\<close>: a free
  merges buddies and returns exactly the pages of the block; along every run of a client
  that frees what it holds, live blocks are disjoint and pages are conserved; the byte
  counters report the free set.
\<close>

section \<open>Merging\<close>

lemma buddy_join:
  fixes a :: u32
  defines "b \<equiv> \<lambda>k. a XOR block_size k"
  assumes k: "k < MAX_ORDER" and a: "block_ok s k a" and b: "block_ok s k (b k)"
  shows "block_ok s (Suc k) (a AND NOT (block_size k))"
    and "block_pages (Suc k) (a AND NOT (block_size k)) = block_pages k a \<union> block_pages k (b k)"
proof -
  define n where "n = 12 + k"
  have n: "n < 32" and d: "2 ^ n dvd unat a" and sz: "block_size k = 2 ^ n"
    using k a by (auto simp: n_def MAX_ORDER_def block_ok_def block_size_eq)
  define c where "c = a AND NOT (block_size k)"
  obtain lo hi where lh: "{lo, hi} = {a, b k}" "c = lo" "unat hi = unat lo + 2 ^ n" "2 ^ Suc n dvd unat lo"
  proof (cases "bit a n")
    case True
    show ?thesis
      using that [of "b k" a] xor_bit_set [OF n d True] aligned_split(2) [OF n d True]
      by (simp add: c_def b_def sz insert_commute)
  next
    case False
    show ?thesis
      using that [of a "b k"] xor_bit_clear [OF n d False] aligned_split(1) [OF n d False]
      by (simp add: c_def b_def sz)
  qed
  have ok: "block_ok s k lo" "block_ok s k hi" using a b lh(1) by (auto simp: doubleton_eq_iff)
  then have "block_ok s (Suc k) lo"
    using lh(3,4) k by (auto simp: block_ok_def n_def power_add)
  then show "block_ok s (Suc k) (a AND NOT (block_size k))" using lh(2) c_def by simp
  have "unat hi div 4096 = unat lo div 4096 + 2 ^ k" using lh(3) by (simp add: n_def power_add)
  then have "block_pages (Suc k) lo = block_pages k lo \<union> block_pages k hi"
    by (auto simp: block_pages_def)
  also have "\<dots> = block_pages k a \<union> block_pages k (b k)"
    using lh(1) by (auto simp: doubleton_eq_iff)
  finally show "block_pages (Suc k) (a AND NOT (block_size k)) = block_pages k a \<union> block_pages k (b k)"
    using lh(2) c_def by simp
qed

lemma block_size_shift: "push_bit 1 (block_size k) = block_size (Suc k)" "block_size k * 2 = block_size (Suc k)"
  by (simp_all add: block_size_eq push_bit_eq_mult power_add)

text \<open>What the merge loop started with a block of order \<open>k\<close> at \<open>a\<close> returns.\<close>

definition merge_result ::
  "buddy_state \<Rightarrow> (nat \<Rightarrow> u32 list) \<Rightarrow> nat \<Rightarrow> u32 \<Rightarrow> u32 \<times> nat \<times> buddy_state \<Rightarrow> bool" where
  "merge_result s L k a r = (case r of (a', k', s') \<Rightarrow> same_region s' s \<and> block_ok s k' a' \<and>
     (\<exists>L'. buddy_abs s' L' \<and> block_pages k' a' \<inter> free_pages L' = {} \<and>
        block_pages k' a' \<union> free_pages L' = block_pages k a \<union> free_pages L \<and>
        (coalesced L \<longrightarrow> coalesced L') \<and>
        (k' < MAX_ORDER \<longrightarrow> a' XOR block_size k' \<notin> set (L' k'))))"

lemma merge_result_stop:
  assumes "buddy_abs s L" "block_ok s k a" "block_pages k a \<inter> free_pages L = {}"
    and "k < MAX_ORDER \<Longrightarrow> a XOR block_size k \<notin> set (L k)"
  shows "merge_result s L k a (a, k, s)"
  using assms by (auto simp: merge_result_def)

lemma buddy_merge_abs:
  assumes "buddy_abs s L" "block_ok s k a" "block_pages k a \<inter> free_pages L = {}"
  shows "\<exists>r. buddy_merge a k (block_size k) s = Some r \<and> merge_result s L k a r"
  using assms
proof (induction "MAX_ORDER - k" arbitrary: k a s L)
  case 0
  then have "k = MAX_ORDER" by (simp add: block_ok_def)
  with 0 show ?case
    by (subst buddy_merge.simps) (use merge_result_stop [of s L k a] in simp)
next
  case (Suc m)
  have k: "k < MAX_ORDER" using Suc.hyps(2) by simp
  note ok = buddy_abs_lists [OF Suc.prems(1)]
  define b where "b = a XOR block_size k"
  show ?case
  proof (cases "b \<in> set (L k)")
    case False
    then have "merge_result s L k a (a, k, s)"
      using merge_result_stop [OF Suc.prems] by (simp add: b_def)
    moreover obtain q where "list_find (nxt s) b (free_lists s k) 0 = Some (0, q)"
      using list_find_miss [OF buddy_abs_linked [OF Suc.prems(1)] False] k by auto
    ultimately show ?thesis
      using k by (subst buddy_merge.simps) (simp add: b_def Let_def)
  next
    case True
    then obtain xs ys where xs: "L k = xs @ b # ys" "b \<notin> set xs"
      by (meson split_list_first)
    have bo: "block_ok s k b" using lists_ok_mem [OF ok True] .
    then have nz: "b \<noteq> 0" and rng: "\<not> (b < buddy_start s \<or> b \<ge> buddy_end s)"
      using block_ok_in_range [OF bo] by (auto simp: block_ok_def buddy_in_range_def)
    define s' where "s' = buddy_unlink (last (0 # xs)) b k s"
    define L' where "L' = L(k := xs @ ys)"
    define c where "c = a AND NOT (block_size k)"
    have find: "list_find (nxt s) b (free_lists s k) 0 = Some (b, last (0 # xs))"
      using list_find_hit [of "nxt s" "free_lists s k" xs b ys 0] xs k
        buddy_abs_linked [OF Suc.prems(1), of k]
      by simp
    have step: "buddy_merge a k (block_size k) s = buddy_merge c (Suc k) (block_size (Suc k)) s'"
      using k rng nz find
      by (subst buddy_merge.simps)
        (simp add: Let_def b_def [symmetric] s'_def c_def block_size_shift)
    have abs: "buddy_abs s' L'"
      unfolding s'_def L'_def by (rule buddy_unlink_abs [OF Suc.prems(1) xs(1)])
    have fp: "free_pages L' = free_pages L - block_pages k b"
      unfolding L'_def by (rule free_pages_remove [OF ok xs(1)])
    have sr: "same_region s' s" by (simp add: s'_def)
    have c: "block_ok s (Suc k) c" "block_pages (Suc k) c = block_pages k a \<union> block_pages k b"
      unfolding c_def b_def using buddy_join [OF k Suc.prems(2)] bo b_def by auto
    have sub: "block_pages k b \<subseteq> free_pages L" using listed_pages [of b L k] True by simp
    have "block_pages (Suc k) c \<inter> free_pages L' = {}" using c(2) fp Suc.prems(3) by auto
    moreover have "m = MAX_ORDER - Suc k" using Suc.hyps(2) by simp
    ultimately obtain r where r: "buddy_merge c (Suc k) (block_size (Suc k)) s' = Some r"
      "merge_result s' L' (Suc k) c r"
      using Suc.hyps(1) [of "Suc k" s' L' c] abs c(1) same_region_block_ok [OF sr] by auto
    have "coalesced L \<Longrightarrow> coalesced L'"
      unfolding L'_def using xs(1) by (intro coalesced_sub) auto
    moreover have "block_pages (Suc k) c \<union> free_pages L' = block_pages k a \<union> free_pages L"
      using c(2) fp sub by auto
    ultimately have "merge_result s L k a r"
      using r(2) same_region_trans [OF _ sr] unfolding merge_result_def same_region_block_ok [OF sr]
      by (auto split: prod.splits)
    then show ?thesis using step r(1) by auto
  qed
qed

lemma block_aligned: "block_ok s k a \<Longrightarrow> a AND (block_size k - 1) = 0"
  using and_mask_dvd [of a "12 + k"]
  by (simp add: block_ok_def block_size_eq mask_eq_exp_minus_1)

lemma buddy_free_abs:
  assumes "buddy_abs s L" "block_ok s k a" "block_pages k a \<inter> free_pages L = {}"
  shows "\<exists>s' L'. buddy_free a (int k) s = Some s' \<and> same_region s' s \<and> buddy_abs s' L' \<and>
    free_pages L' = free_pages L \<union> block_pages k a \<and> (coalesced L \<longrightarrow> coalesced L')"
proof -
  obtain a' k' s' where m: "buddy_merge a k (block_size k) s = Some (a', k', s')"
    "merge_result s L k a (a', k', s')"
    using buddy_merge_abs [OF assms] by (metis prod_cases3)
  then obtain L' where L': "same_region s' s" "block_ok s k' a'" "buddy_abs s' L'"
    "block_pages k' a' \<inter> free_pages L' = {}"
    "block_pages k' a' \<union> free_pages L' = block_pages k a \<union> free_pages L"
    "coalesced L \<longrightarrow> coalesced L'" "k' < MAX_ORDER \<Longrightarrow> a' XOR block_size k' \<notin> set (L' k')"
    by (auto simp: merge_result_def)
  have "buddy_abs (add_to_list a' (int k') s') (L'(k' := a' # L' k'))"
    using add_to_list_abs [OF L'(3) _ L'(4)] L'(2) same_region_block_ok [OF L'(1)] by simp
  moreover have "free_pages (L'(k' := a' # L' k')) = free_pages L \<union> block_pages k a"
    using L'(5) by (simp add: free_pages_push Un_commute)
  moreover have "coalesced L \<longrightarrow> coalesced (L'(k' := a' # L' k'))"
    using L'(6) coalesced_push L'(7) by blast
  moreover have "buddy_free a (int k) s = Some (add_to_list a' (int k') s')"
    using assms(2) m(1) block_ok_in_range [OF assms(2)] block_aligned [OF assms(2)]
    by (auto simp: buddy_free_def buddy_valid_order_def block_ok_def Let_def)
  moreover have "same_region (add_to_list a' (int k') s') s"
    by (rule same_region_trans [OF same_region_add L'(1)])
  ultimately show ?thesis by blast
qed

section \<open>Initialisation\<close>

lemma aligned_fits:
  fixes start :: u32 and j :: nat
  defines "al \<equiv> (start + block_size j - 1) AND NOT (block_size j - 1)"
  assumes s: "buddy_start s = start" and "start \<noteq> 0" "unat start + 2 ^ 29 \<le> 2 ^ 32" "j \<le> MAX_ORDER"
  shows "al + block_size j \<le> buddy_end s \<longleftrightarrow> block_ok s j (al)"
    and "block_ok s j x \<Longrightarrow> block_ok s j (al)"
proof -
  have "(2::nat) ^ (12 + j) \<le> 2 ^ 28"
    using assms(5) by (intro power_increasing) (auto simp: MAX_ORDER_def)
  then have room: "unat start + 2 ^ (12 + j) + 2 ^ (12 + j) \<le> 2 ^ 32"
    using assms(4) by simp
  then have "unat start + 2 ^ (12 + j) \<le> 2 ^ 32" by simp
  note up = align_up [OF this, folded block_size_eq, folded al_def]
  have "unat (al + block_size j) = unat (al) + 2 ^ (12 + j)"
    using up(3) room unat_block_size [OF assms(5)] by (simp add: unat_add_no_wrap)
  moreover have "al \<noteq> 0" using up(2) assms(3) by (auto simp: unat_eq_zero)
  ultimately show fits: "al + block_size j \<le> buddy_end s \<longleftrightarrow> block_ok s j (al)"
    using up(1,2) s assms(5) by (auto simp: block_ok_def word_le_nat_alt)
  assume x: "block_ok s j x"
  then have "unat (al) \<le> unat x" using up(4) s by (simp add: block_ok_def)
  then show "block_ok s j (al)"
    using x up(1,2) s \<open>al \<noteq> 0\<close> unfolding block_ok_def by auto
qed

lemma buddy_init_order_largest:
  assumes s: "buddy_start s = start" and "start \<noteq> 0" "unat start + 2 ^ 29 \<le> 2 ^ 32" "m \<le> MAX_ORDER"
  shows "case buddy_init_order start (buddy_end s) m of (k, a) \<Rightarrow>
    (k > 0 \<longrightarrow> block_ok s k a) \<and> (\<forall>j x. k < j \<and> j \<le> m \<longrightarrow> \<not> block_ok s j x)"
  using assms(4)
proof (induction m)
  case 0
  then show ?case by simp
next
  case (Suc m)
  note al = aligned_fits [OF s assms(2,3) Suc.prems]
  show ?case
  proof (cases "block_ok s (Suc m) ((start + block_size (Suc m) - 1) AND NOT (block_size (Suc m) - 1))")
    case True
    then show ?thesis using al(1) by (auto simp: Let_def)
  next
    case False
    then have "\<not> block_ok s (Suc m) x" for x using al(2) by blast
    then show ?thesis
      using Suc al(1) False by (auto simp: Let_def le_Suc_eq split: prod.splits)
  qed
qed

lemma buddy_init_bounds [simp]:
  "buddy_start (buddy_init start end s) = start" "buddy_end (buddy_init start end s) = end"
  by (simp_all add: buddy_init_def add_to_list_def Let_def split: prod.splits)

definition one_block :: "nat \<Rightarrow> u32 \<Rightarrow> nat \<Rightarrow> u32 list" where
  "one_block k a = (\<lambda>_. [])(k := [a])"

lemma free_pages_empty [simp]: "free_pages (\<lambda>_. []) = {}"
  by (simp add: free_pages_def)

lemma free_pages_one [simp]: "free_pages (one_block k a) = block_pages k a"
  using free_pages_push [of "\<lambda>_. []" k a] by (simp add: one_block_def)

lemma coalesced_one [simp]: "coalesced (one_block k a)"
  using coalesced_push [of "\<lambda>_. []" k a] by (simp add: one_block_def coalesced_def)

lemma buddy_init_cases:
  fixes s :: buddy_state and "end" :: u32
  assumes "start \<noteq> 0" "unat start + 2 ^ 29 \<le> 2 ^ 32"
  defines "s' \<equiv> buddy_init start end s"
  shows "(\<exists>k a. buddy_abs s' (one_block k a) \<and> block_ok s' k a \<and> (\<forall>j x. block_ok s' j x \<longrightarrow> j \<le> k)) \<or>
    (buddy_abs s' (\<lambda>_. []) \<and> (\<forall>j x. \<not> block_ok s' j x))"
proof -
  define s1 where "s1 = s\<lparr>buddy_start := start, buddy_end := end,
    free_lists := \<lambda>i. if i \<le> MAX_ORDER then 0 else free_lists s i, buddy_total_mem := end - start\<rparr>"
  have se: "buddy_start s1 = start" "buddy_end s1 = end" by (simp_all add: s1_def)
  have abs0: "buddy_abs s1 (\<lambda>_. [])" by (simp add: s1_def buddy_abs_def lists_ok_def)
  obtain k a where ka: "buddy_init_order start end MAX_ORDER = (k, a)" by fastforce
  then have lg: "k > 0 \<Longrightarrow> block_ok s1 k a" "\<And>j x. k < j \<Longrightarrow> \<not> block_ok s1 j x"
    using buddy_init_order_largest [OF se(1) assms(1,2), of MAX_ORDER] se(2)
    by (auto simp: block_ok_def)
  define a0 where "a0 = (start + 4095) AND NOT 4095"
  have a0: "(start + block_size 0 - 1) AND NOT (block_size 0 - 1) = a0" "block_size 0 = 4096"
    by (simp_all add: a0_def block_size_eq add.commute)
  have al: "a0 + 4096 \<le> end \<longleftrightarrow> block_ok s1 0 a0" "\<And>x. block_ok s1 0 x \<Longrightarrow> block_ok s1 0 a0"
    using aligned_fits [OF se(1) assms(1,2), of 0] unfolding a0(1) by (simp_all add: a0(2) se(2))
  have init: "s' = (if k = 0 then (if a0 + 4096 > end then s1 else add_to_list a0 0 s1)
                    else add_to_list a (int k) s1)"
    unfolding s'_def buddy_init_def by (simp add: s1_def [symmetric] a0_def Let_def ka)
  have one: "\<exists>k a. buddy_abs s' (one_block k a) \<and> block_ok s' k a \<and> (\<forall>j x. block_ok s' j x \<longrightarrow> j \<le> k)"
    if "s' = add_to_list b (int k) s1" "block_ok s1 k b" for b
    using that add_to_list_abs [OF abs0 that(2)] lg(2)
    by (auto simp: one_block_def same_region_block_ok [OF same_region_add] not_less [symmetric])
  show ?thesis
  proof (cases "k = 0 \<and> a0 + 4096 > end")
    case True
    then have "\<not> block_ok s1 0 x" for x using al se(2) by (auto simp: not_le [symmetric])
    then show ?thesis using True init abs0 lg(2) by (metis bot_nat_0.not_eq_extremum)
  next
    case False
    then have "block_ok s1 k (if k = 0 then a0 else a)"
      using al(1) se(2) lg(1) by (auto simp: not_less)
    moreover have "s' = add_to_list (if k = 0 then a0 else a) (int k) s1"
      using False init by auto
    ultimately show ?thesis using one by blast
  qed
qed

section \<open>Runs of a client\<close>

text \<open>The client holds a set of blocks with their orders, takes blocks and gives back
  blocks it holds, with their order.\<close>

inductive buddy_reach :: "buddy_state \<Rightarrow> buddy_state \<Rightarrow> (u32 \<times> nat) set \<Rightarrow> bool" for s0 where
  start: "buddy_reach s0 s0 {}"
| take: "buddy_reach s0 s H \<Longrightarrow> k \<le> MAX_ORDER \<Longrightarrow> buddy_alloc (int k) s = Some (p, s') \<Longrightarrow> p \<noteq> 0 \<Longrightarrow>
    buddy_reach s0 s' (insert (p, k) H)"
| fail: "buddy_reach s0 s H \<Longrightarrow> buddy_alloc k s = Some (0, s') \<Longrightarrow> buddy_reach s0 s' H"
| give: "buddy_reach s0 s H \<Longrightarrow> (p, k) \<in> H \<Longrightarrow> buddy_free p (int k) s = Some s' \<Longrightarrow>
    buddy_reach s0 s' (H - {(p, k)})"

definition held_pages :: "(u32 \<times> nat) set \<Rightarrow> nat set" where
  "held_pages H = (\<Union>(p, k)\<in>H. block_pages k p)"

definition held_ok :: "buddy_state \<Rightarrow> (u32 \<times> nat) set \<Rightarrow> bool" where
  "held_ok s H \<longleftrightarrow> (\<forall>(p, k)\<in>H. block_ok s k p) \<and>
     (\<forall>(p, k)\<in>H. \<forall>(q, j)\<in>H. (p, k) \<noteq> (q, j) \<longrightarrow> block_pages k p \<inter> block_pages j q = {})"

text \<open>The invariant of a run over the pages \<open>U\<close>.\<close>

definition run_ok :: "nat set \<Rightarrow> buddy_state \<Rightarrow> (u32 \<times> nat) set \<Rightarrow> bool" where
  "run_ok U s H \<longleftrightarrow> held_ok s H \<and>
     (\<exists>L. buddy_abs s L \<and> coalesced L \<and> held_pages H \<inter> free_pages L = {} \<and> held_pages H \<union> free_pages L = U)"

lemma held_pages_simps [simp]:
  "held_pages {} = {}" "held_pages (insert (p, k) H) = block_pages k p \<union> held_pages H"
  by (simp_all add: held_pages_def)

lemma same_region_held_ok: "same_region s' s \<Longrightarrow> held_ok s' = held_ok s"
  by (simp add: held_ok_def same_region_block_ok fun_eq_iff)

lemma held_ok_insert:
  assumes "held_ok s H" "block_ok s k p" "block_pages k p \<inter> held_pages H = {}"
  shows "held_ok s (insert (p, k) H)"
  using assms unfolding held_ok_def held_pages_def by blast

lemma held_ok_remove: "held_ok s H \<Longrightarrow> held_ok s (H - {x})"
  unfolding held_ok_def by blast

lemma held_pages_remove:
  assumes "held_ok s H" "(p, k) \<in> H"
  shows "held_pages (H - {(p, k)}) = held_pages H - block_pages k p"
  using assms unfolding held_ok_def held_pages_def by blast

lemma run_ok_take:
  assumes "run_ok U s H" "k \<le> MAX_ORDER" "buddy_alloc (int k) s = Some (p, s')" "p \<noteq> 0"
  shows "run_ok U s' (insert (p, k) H)"
proof -
  obtain L where L: "held_ok s H" "buddy_abs s L" "coalesced L" "held_pages H \<inter> free_pages L = {}"
    "held_pages H \<union> free_pages L = U"
    using assms(1) by (auto simp: run_ok_def)
  obtain L' where r: "block_ok s k p" "block_pages k p \<subseteq> free_pages L" "same_region s' s"
    "buddy_abs s' L'" "free_pages L' = free_pages L - block_pages k p" "coalesced L'"
    using buddy_alloc_abs [OF L(2) assms(2)] assms(3,4) L(3) by (auto simp: alloc_result_def)
  have "block_pages k p \<inter> held_pages H = {}" using L(4) r(2) by blast
  then have "held_ok s' (insert (p, k) H)"
    using held_ok_insert [OF L(1) r(1)] same_region_held_ok [OF r(3)] by simp
  moreover have "held_pages (insert (p, k) H) \<inter> free_pages L' = {}"
    "held_pages (insert (p, k) H) \<union> free_pages L' = U"
    using L(4,5) r(2,5) by auto
  ultimately show ?thesis using r(4,6) unfolding run_ok_def by blast
qed

lemma run_ok_take_fresh:
  assumes "run_ok U s H" "k \<le> MAX_ORDER" "buddy_alloc (int k) s = Some (p, s')" "p \<noteq> 0"
  shows "block_pages k p \<inter> held_pages H = {}" "block_ok s k p"
proof -
  obtain L where L: "buddy_abs s L" "held_pages H \<inter> free_pages L = {}"
    using assms(1) by (auto simp: run_ok_def)
  then have "block_pages k p \<subseteq> free_pages L" "block_ok s k p"
    using buddy_alloc_abs [OF L(1) assms(2)] assms(3,4) by (auto simp: alloc_result_def)
  then show "block_pages k p \<inter> held_pages H = {}" "block_ok s k p" using L(2) by blast+
qed

lemma run_ok_fail:
  assumes "run_ok U s H" "buddy_alloc k s = Some (0, s')"
  shows "s' = s"
proof (cases "buddy_valid_order k")
  case True
  then obtain n where n: "k = int n" "n \<le> MAX_ORDER"
    using nonneg_int_cases by (auto simp: buddy_valid_order_def)
  then show ?thesis
    using assms buddy_alloc_abs [of s _ n] by (auto simp: run_ok_def alloc_result_def)
next
  case False
  then show ?thesis using assms(2) by (simp add: buddy_alloc_def)
qed

lemma run_ok_give:
  assumes "run_ok U s H" "(p, k) \<in> H"
  shows "\<exists>s'. buddy_free p (int k) s = Some s' \<and> run_ok U s' (H - {(p, k)})"
proof -
  obtain L where L: "held_ok s H" "buddy_abs s L" "coalesced L" "held_pages H \<inter> free_pages L = {}"
    "held_pages H \<union> free_pages L = U"
    using assms(1) by (auto simp: run_ok_def)
  have p: "block_ok s k p" using L(1) assms(2) unfolding held_ok_def by blast
  have sub: "block_pages k p \<subseteq> held_pages H" using assms(2) unfolding held_pages_def by blast
  then have "block_pages k p \<inter> free_pages L = {}" using L(4) by blast
  then obtain s' L' where r: "buddy_free p (int k) s = Some s'" "same_region s' s" "buddy_abs s' L'"
    "free_pages L' = free_pages L \<union> block_pages k p" "coalesced L'"
    using buddy_free_abs [OF L(2) p] L(3) by auto
  have "held_ok s' (H - {(p, k)})"
    using held_ok_remove [OF L(1)] same_region_held_ok [OF r(2)] by simp
  moreover have "held_pages (H - {(p, k)}) \<inter> free_pages L' = {}"
    "held_pages (H - {(p, k)}) \<union> free_pages L' = U"
    using held_pages_remove [OF L(1) assms(2)] r(4) L(4,5) sub by auto
  ultimately show ?thesis using r(1,3,5) unfolding run_ok_def by blast
qed

lemma run_ok_reach: "buddy_reach s0 s H \<Longrightarrow> run_ok U s0 {} \<Longrightarrow> run_ok U s H"
proof (induction rule: buddy_reach.induct)
  case (fail s H k s')
  then show ?case using run_ok_fail [of U s H k s'] by simp
next
  case (give s H p k s')
  then show ?case using run_ok_give [of U s H p k] by auto
qed (auto intro: run_ok_take)

section \<open>Statistics\<close>

definition listed_pages_count :: "(nat \<Rightarrow> u32 list) \<Rightarrow> nat \<Rightarrow> nat" where
  "listed_pages_count L k = length (L k) * 2 ^ k"

lemma card_free_pages:
  assumes "lists_ok s L"
  shows "card (free_pages L) = (\<Sum>k\<in>{0..<Suc MAX_ORDER}. listed_pages_count L k)"
proof -
  define P where "P k = (\<Union>a\<in>set (L k). block_pages k a)" for k
  have fin: "finite (P k)" for k by (simp add: P_def block_pages_def)
  have disj: "P k \<inter> P j = {}" if "k \<noteq> j" for k j
    using listed_disjoint [OF assms] that unfolding P_def by blast
  have "card (P k) = listed_pages_count L k" for k
  proof -
    have "card (P k) = (\<Sum>a\<in>set (L k). card (block_pages k a))"
      unfolding P_def using listed_disjoint [OF assms, of _ k _ k]
      by (intro card_UN_disjoint) (auto simp: block_pages_def [of k])
    then show ?thesis
      using assms distinct_card [of "L k"] by (simp add: listed_pages_count_def lists_ok_def)
  qed
  moreover have "free_pages L = (\<Union>k\<in>{0..<Suc MAX_ORDER}. P k)"
    using listed_order [OF assms] unfolding free_pages_def P_def by fastforce
  moreover have "card (\<Union>k\<in>{0..<Suc MAX_ORDER}. P k) = (\<Sum>k\<in>{0..<Suc MAX_ORDER}. card (P k))"
    using fin disj by (intro card_UN_disjoint) auto
  ultimately show ?thesis by simp
qed

lemma card_free_pages_bound:
  assumes "lists_ok s L"
  shows "4096 * card (free_pages L) < 2 ^ 32"
proof -
  have "block_pages k a \<subseteq> {..< unat (buddy_end s) div 4096}" if "block_ok s k a" for k a
  proof -
    have "unat a + 4096 * 2 ^ k \<le> unat (buddy_end s)"
      using that by (simp add: block_ok_def power_add)
    then have "(unat a + 4096 * 2 ^ k) div 4096 \<le> unat (buddy_end s) div 4096" by (rule div_le_mono)
    then show ?thesis by (auto simp: block_pages_def)
  qed
  then have "free_pages L \<subseteq> {..< unat (buddy_end s) div 4096}"
    using lists_ok_mem [OF assms] unfolding free_pages_def by blast
  then have "card (free_pages L) \<le> unat (buddy_end s) div 4096"
    using card_mono [of "{..< unat (buddy_end s) div 4096}"] by simp
  moreover have "unat (buddy_end s) < 2 ^ 32" using unsigned_less [of "buddy_end s"] by simp
  ultimately show ?thesis by simp
qed

lemma buddy_free_memory_loop_sum:
  assumes "buddy_abs s L" "order + left \<le> Suc MAX_ORDER"
    and "unat free + 4096 * (\<Sum>k\<in>{order..<order + left}. listed_pages_count L k) < 2 ^ 32"
  shows "buddy_free_memory_loop s order left free =
    Some (free + 4096 * of_nat (\<Sum>k\<in>{order..<order + left}. listed_pages_count L k))"
  using assms(2,3)
proof (induction left arbitrary: order free)
  case 0
  then show ?case by simp
next
  case (Suc left)
  define rest where "rest = (\<Sum>k\<in>{Suc order..<Suc order + left}. listed_pages_count L k)"
  have sum: "(\<Sum>k\<in>{order..<order + Suc left}. listed_pages_count L k) = listed_pages_count L order + rest"
    by (simp add: rest_def sum.atLeast_Suc_lessThan)
  have o: "order \<le> MAX_ORDER" using Suc.prems(1) by simp
  have sz: "length (L order) * unat (block_size order) = 4096 * listed_pages_count L order"
    by (simp add: unat_block_size [OF o] listed_pages_count_def power_add)
  have sz': "of_nat (length (L order)) * block_size order = (4096 * of_nat (listed_pages_count L order) :: u32)"
    by (simp add: block_size_eq listed_pages_count_def power_add)
  define free' where "free' = free + 4096 * of_nat (listed_pages_count L order)"
  have lt: "unat free + 4096 * listed_pages_count L order + 4096 * rest < 2 ^ 32"
    using Suc.prems(2) unfolding sum by simp
  have "free_list_bytes (nxt s) (block_size order) (free_lists s order) free = Some free'"
    using free_list_bytes_linked [OF buddy_abs_linked [OF assms(1) o], of free "block_size order"] lt sz sz'
    by (simp add: free'_def)
  moreover have "unat free' = unat free + 4096 * listed_pages_count L order"
    using lt unat_of_nat [of "4096 * listed_pages_count L order", where 'a = 32]
    by (simp add: free'_def unat_add_no_wrap)
  ultimately show ?case
    using Suc.IH [of "Suc order" free'] Suc.prems(1) lt
    unfolding sum by (simp add: rest_def free'_def algebra_simps)
qed

lemma buddy_free_memory_abs:
  assumes "buddy_abs s L"
  shows "buddy_free_memory s = Some (of_nat (4096 * card (free_pages L)))"
  using buddy_free_memory_loop_sum [OF assms, of 0 "Suc MAX_ORDER" 0]
    card_free_pages [OF buddy_abs_lists [OF assms]] card_free_pages_bound [OF buddy_abs_lists [OF assms]]
  by (simp add: buddy_free_memory_def del: sum.op_ivl_Suc)

lemma live_pages_loop_sum:
  assumes "buddy_abs s L" "order + left \<le> Suc MAX_ORDER"
  shows "live_pages_loop s order left free =
    Some (free + of_nat (\<Sum>k\<in>{order..<order + left}. listed_pages_count L k))"
  using assms(2)
proof (induction left arbitrary: order free)
  case (Suc left)
  have o: "order \<le> MAX_ORDER" using Suc.prems by simp
  have "buddy_free_count_at_order (int order) s = Some (of_nat (length (L order)))"
    using list_count_linked [OF buddy_abs_linked [OF assms(1) o]] o
    by (simp add: buddy_free_count_at_order_def)
  moreover have "(\<Sum>k\<in>{order..<order + Suc left}. listed_pages_count L k) =
      listed_pages_count L order + (\<Sum>k\<in>{Suc order..<Suc order + left}. listed_pages_count L k)"
    by (simp add: sum.atLeast_Suc_lessThan)
  ultimately show ?case
    using Suc.IH [of "Suc order"] Suc.prems
    by (simp add: listed_pages_count_def push_bit_eq_mult)
qed simp

lemma buddy_live_allocations_abs:
  assumes "buddy_abs s L"
  shows "buddy_live_allocations s = Some (buddy_total_mem s div 4096 - of_nat (card (free_pages L)))"
  using live_pages_loop_sum [OF assms, of 0 "Suc MAX_ORDER" 0] card_free_pages [OF buddy_abs_lists [OF assms]]
  by (simp add: buddy_live_allocations_def del: sum.op_ivl_Suc)

lemma run_ok_alloc_returns:
  assumes "run_ok U s H"
  shows "buddy_alloc k s \<noteq> None"
proof (cases "buddy_valid_order k")
  case True
  then obtain n where n: "k = int n" "n \<le> MAX_ORDER"
    using nonneg_int_cases by (auto simp: buddy_valid_order_def)
  obtain L where "buddy_abs s L" using assms by (auto simp: run_ok_def)
  then show ?thesis using buddy_alloc_abs [of s L n] n by auto
qed (simp add: buddy_alloc_def)

text \<open>A seeded region with one block of two pages, for concrete runs.\<close>

definition buddy_boot :: buddy_state where
  "buddy_boot = \<lparr>buddy_start = 0, buddy_end = 0, buddy_total_mem = 0, free_lists = \<lambda>_. 0, nxt = \<lambda>_. 0\<rparr>"

definition buddy_two :: buddy_state where
  "buddy_two = \<lparr>buddy_start = 0x2000, buddy_end = 0x4000, buddy_total_mem = 0x2000,
     free_lists = (\<lambda>_. 0)(1 := 0x2000), nxt = \<lambda>_. 0\<rparr>"

lemma buddy_two_abs: "buddy_abs buddy_two (one_block 1 0x2000)"
  by (simp add: buddy_abs_def lists_ok_def one_block_def buddy_two_def block_ok_def MAX_ORDER_def)

lemma buddy_two_run: "run_ok (block_pages 1 0x2000) buddy_two {}"
  using buddy_two_abs by (auto simp: run_ok_def held_ok_def)

lemma buddy_init_order_numeral [simp]:
  "buddy_init_order addr end (numeral n) =
     (let bs = block_size (numeral n);
          aligned = (addr + bs - 1) AND NOT (bs - 1)
      in if aligned + bs \<le> end then (numeral n, aligned)
         else buddy_init_order addr end (pred_numeral n))"
  by (simp add: numeral_eq_Suc Let_def)

lemma buddy_alloc_scan_numeral [simp]:
  "buddy_alloc_scan order i (numeral n) s =
     (if free_lists s i \<noteq> 0 then
        let block = free_lists s i in
        case remove_from_list block (int i) s of
          None \<Rightarrow> None
        | Some s' \<Rightarrow> Some (block, buddy_split block order i s')
      else buddy_alloc_scan order (Suc i) (pred_numeral n) s)"
  by (simp add: numeral_eq_Suc)

lemma buddy_split_numeral [simp]:
  "buddy_split block order (numeral n) s =
     (if numeral n > order
      then buddy_split block order (pred_numeral n)
             (add_to_list (block + block_size (pred_numeral n)) (int (pred_numeral n)) s)
      else s)"
  by (simp add: numeral_eq_Suc)

lemma buddy_two_alloc:
  "buddy_alloc 0 buddy_two = Some (0x2000, buddy_two\<lparr>free_lists := (\<lambda>_. 0)(0 := 0x3000), nxt := \<lambda>_. 0\<rparr>)"
  by (simp add: buddy_alloc_def buddy_valid_order_def MAX_ORDER_def buddy_two_def
      remove_from_list_def add_to_list_def buddy_in_range_def block_size_eq fun_eq_iff)

section \<open>Properties\<close>

text \<open>Over a region that starts above address 0 and at least 512 MiB below the top of the
  address space, initialisation seeds the allocator with one block, of the largest order
  that fits aligned in the region, or with none if no page fits; the invariant of
  runs holds and the free byte count is the size of that block.\<close>

theorem buddy_init_largest:
  fixes st en :: u32 and s :: buddy_state
  assumes "st \<noteq> 0" "unat st + 2 ^ 29 \<le> 2 ^ 32"
  defines "s' \<equiv> buddy_init st en s"
  shows "(\<exists>k a. block_ok s' k a \<and> (\<forall>j x. block_ok s' j x \<longrightarrow> j \<le> k) \<and>
            run_ok (block_pages k a) s' {} \<and> buddy_free_memory s' = Some (block_size k)) \<or>
         ((\<forall>j x. \<not> block_ok s' j x) \<and> run_ok {} s' {} \<and> buddy_free_memory s' = Some 0)"
proof -
  have run: "run_ok (free_pages L) s' {}" if "buddy_abs s' L" "coalesced L" for L
    using that by (auto simp: run_ok_def held_ok_def)
  have one: "run_ok (block_pages k a) s' {} \<and> buddy_free_memory s' = Some (block_size k)"
    if "buddy_abs s' (one_block k a)" for k a
    using run [OF that] buddy_free_memory_abs [OF that] by (simp add: block_size_eq power_add)
  have none: "run_ok {} s' {} \<and> buddy_free_memory s' = Some 0" if "buddy_abs s' (\<lambda>_. [])"
    using run [OF that] buddy_free_memory_abs [OF that] by (simp add: coalesced_def)
  from buddy_init_cases [OF assms(1,2), of en s, folded s'_def] show ?thesis
    using one none by blast
qed

theorem buddy_init_largest_witness:
  "\<exists>k a. block_ok (buddy_init 0x1000 0x4000 buddy_boot) k a \<and>
     buddy_free_memory (buddy_init 0x1000 0x4000 buddy_boot) = Some (block_size k)"
proof -
  have "block_ok (buddy_init 0x1000 0x4000 buddy_boot) 1 0x2000"
    by (simp add: block_ok_def MAX_ORDER_def)
  then show ?thesis
    using buddy_init_largest [of "0x1000" "0x4000" buddy_boot] by auto
qed

text \<open>C3. Along every run in which a client allocates blocks and frees blocks it holds: the
  held blocks are aligned, inside the region and pairwise disjoint, no held page is on a
  free list, held and free pages together are the pages at the start, and no two buddies
  are both free; every free of a held block returns, and an allocation of a valid order
  always returns.\<close>

theorem buddy_no_overlap:
  assumes "run_ok U s0 {}" "buddy_reach s0 s H"
  shows "held_ok s H \<and>
    (\<exists>L. buddy_abs s L \<and> coalesced L \<and> held_pages H \<inter> free_pages L = {} \<and> held_pages H \<union> free_pages L = U) \<and>
    (\<forall>(p, k)\<in>H. buddy_free p (int k) s \<noteq> None) \<and> (\<forall>k. buddy_alloc k s \<noteq> None)"
proof -
  have run: "run_ok U s H" by (rule run_ok_reach [OF assms(2,1)])
  then have "\<forall>(p, k)\<in>H. buddy_free p (int k) s \<noteq> None" using run_ok_give by fastforce
  with run run_ok_alloc_returns [OF run] show ?thesis by (simp add: run_ok_def)
qed

theorem buddy_no_overlap_witness:
  "\<exists>s. buddy_reach buddy_two s {(0x2000, 0)} \<and> held_ok s {(0x2000, 0)} \<and> buddy_free 0x2000 0 s \<noteq> None"
proof -
  let ?s = "buddy_two\<lparr>free_lists := (\<lambda>_. 0)(0 := 0x3000), nxt := \<lambda>_. 0\<rparr>"
  have "buddy_reach buddy_two ?s (insert (0x2000, 0) {})"
    using buddy_two_alloc by (intro buddy_reach.take [OF buddy_reach.start, where k = 0]) simp_all
  then show ?thesis
    using buddy_no_overlap [OF buddy_two_run, of ?s "{(0x2000, 0)}"] by auto
qed

text \<open>C15. The statistics report the free set of the lists: the free byte count is 4096 times
  the number of free pages and never saturates, and the live page count is the number of
  whole pages of the region minus the free ones.\<close>

theorem buddy_statistics:
  assumes "buddy_abs s L"
  shows "buddy_free_memory s = Some (of_nat (4096 * card (free_pages L))) \<and>
    4096 * card (free_pages L) < 2 ^ 32 \<and>
    buddy_live_allocations s = Some (buddy_total_mem s div 4096 - of_nat (card (free_pages L)))"
  using buddy_free_memory_abs [OF assms] card_free_pages_bound [OF buddy_abs_lists [OF assms]]
    buddy_live_allocations_abs [OF assms]
  by simp

theorem buddy_statistics_witness:
  "buddy_free_memory buddy_two = Some 0x2000 \<and> buddy_live_allocations buddy_two = Some 0"
  using buddy_statistics [OF buddy_two_abs] by (simp add: buddy_two_def)

text \<open>Initialisation does not hand the whole region to the allocator: of the 32 MiB from 8
  MiB to 40 MiB, the 16 MiB block at 16 MiB is seeded and the other half is counted as
  used memory.\<close>

theorem buddy_init_seeds_half:
  "buddy_free_memory (buddy_init 0x800000 0x2800000 buddy_boot) = Some 0x1000000 \<and>
   buddy_used_memory (buddy_init 0x800000 0x2800000 buddy_boot) = Some 0x1000000"
proof -
  define s where "s = buddy_init 0x800000 0x2800000 buddy_boot"
  have s: "s = \<lparr>buddy_start = 0x800000, buddy_end = 0x2800000, buddy_total_mem = 0x2000000,
      free_lists = (\<lambda>_. 0)(12 := 0x1000000), nxt = (\<lambda>_. 0)(0x1000000 := 0)\<rparr>"
    by (simp add: s_def buddy_init_def buddy_boot_def MAX_ORDER_def block_size_eq add_to_list_def
        buddy_valid_order_def buddy_in_range_def fun_eq_iff)
  have "buddy_abs s (one_block 12 0x1000000)"
    by (simp add: buddy_abs_def lists_ok_def one_block_def s block_ok_def MAX_ORDER_def)
  from buddy_free_memory_abs [OF this]
  have "buddy_free_memory s = Some 0x1000000" by simp
  then show ?thesis by (simp add: buddy_used_memory_def s s_def [symmetric])
qed

end
