(* ===== verification/Slab.thy ===== *)
theory Slab
  imports Interfaces Buddy_Run
begin

text \<open>
  The slab caches, \<^verbatim>\<open>kernel/Memory/slab.c\<close>: one page per cache, 32 slots of 32, 64 or
  128 bytes, a 32-bit map of the slots in use. A cache provides the \<open>unit_allocator\<close>
  contract of theory \<open>Interfaces\<close>, with its slot addresses as units.
\<close>

section \<open>Model\<close>

definition SLAB_SLOTS_PER_CACHE :: nat where "SLAB_SLOTS_PER_CACHE = 32"

definition SLAB_NUM_CACHES :: nat where "SLAB_NUM_CACHES = 3"

record slab_t =
  bitmap :: u32
  first_slot :: u32
  slab_size :: u32

text \<open>\<^verbatim>\<open>__builtin_ctz\<close> and \<^verbatim>\<open>__builtin_popcount\<close>\<close>

definition ctz :: "u32 \<Rightarrow> nat" where
  "ctz m = (case first_idx (bit m) [0..<32] of None \<Rightarrow> 32 | Some i \<Rightarrow> i)"

definition popcount :: "u32 \<Rightarrow> nat" where
  "popcount m = count_if (bit m) [0..<32]"

definition slab_init :: "u32 \<Rightarrow> slab_t \<Rightarrow> buddy_state \<Rightarrow> (slab_t \<times> buddy_state) option" where
  "slab_init sz slab b =
     (case buddy_alloc 0 b of None \<Rightarrow> None
      | Some (p, b') \<Rightarrow> Some (slab\<lparr>bitmap := 0, slab_size := sz, first_slot := p\<rparr>, b'))"

definition slab_alloc :: "slab_t \<Rightarrow> u32 \<times> slab_t" where
  "slab_alloc slab =
     (let free_mask = NOT (bitmap slab) in
      if free_mask = 0 then (0, slab)
      else let free_bit = ctz free_mask in
        (first_slot slab + of_nat free_bit * slab_size slab,
         slab\<lparr>bitmap := bitmap slab OR push_bit free_bit 1\<rparr>))"

definition slab_free :: "u32 \<Rightarrow> slab_t \<Rightarrow> slab_t" where
  "slab_free ptr slab =
     (let index = sint ((ptr - first_slot slab) div slab_size slab) in
      if index < 0 \<or> index \<ge> int SLAB_SLOTS_PER_CACHE then slab
      else slab\<lparr>bitmap := bitmap slab AND NOT (push_bit (nat index) 1)\<rparr>)"

definition slab_cache_used :: "slab_t \<Rightarrow> u32" where
  "slab_cache_used cache = of_nat (popcount (bitmap cache))"

definition slab_cache_free :: "slab_t \<Rightarrow> u32" where
  "slab_cache_free cache = of_nat SLAB_SLOTS_PER_CACHE - slab_cache_used cache"

text \<open>The functions over the table \<^verbatim>\<open>slab_caches\<close> take the caches as a list.\<close>

definition slab_objects_used :: "slab_t list \<Rightarrow> u32" where
  "slab_objects_used caches = fold (\<lambda>c total. total + of_nat (popcount (bitmap c))) caches 0"

definition slab_objects_free :: "slab_t list \<Rightarrow> u32" where
  "slab_objects_free caches = of_nat (SLAB_NUM_CACHES * SLAB_SLOTS_PER_CACHE) - slab_objects_used caches"

definition slab_used_bytes :: "slab_t list \<Rightarrow> u32" where
  "slab_used_bytes caches = fold (\<lambda>c total. total + slab_cache_used c * slab_size c) caches 0"

definition slab_free_bytes :: "slab_t list \<Rightarrow> u32" where
  "slab_free_bytes caches = fold (\<lambda>c total. total + slab_cache_free c * slab_size c) caches 0"

section \<open>Slots\<close>

definition slot_addr :: "slab_t \<Rightarrow> nat \<Rightarrow> u32" where
  "slot_addr c i = first_slot c + of_nat i * slab_size c"

definition slab_slots :: "slab_t \<Rightarrow> u32 set" where
  "slab_slots c = slot_addr c ` {..<32}"

definition slab_taken :: "slab_t \<Rightarrow> u32 set" where
  "slab_taken c = slot_addr c ` {i. i < 32 \<and> bit (bitmap c) i}"

definition slab_avail :: "slab_t \<Rightarrow> u32 set" where
  "slab_avail c = slot_addr c ` {i. i < 32 \<and> \<not> bit (bitmap c) i}"

text \<open>A cache that has its page: the slots fit the page and do not wrap.\<close>

definition slab_ok :: "slab_t \<Rightarrow> bool" where
  "slab_ok c \<longleftrightarrow> slab_size c \<in> {32, 64, 128} \<and> first_slot c \<noteq> 0 \<and> unat (first_slot c) + 4096 \<le> 2 ^ 32"

definition slab_inv :: "u32 set \<Rightarrow> slab_t \<Rightarrow> bool" where
  "slab_inv U c \<longleftrightarrow> slab_ok c \<and> U = slab_slots c"

lemma unat_slot_addr:
  assumes "slab_ok c" "i < 32"
  shows "unat (slot_addr c i) = unat (first_slot c) + i * unat (slab_size c)"
    and "i * unat (slab_size c) + unat (slab_size c) \<le> 4096"
proof -
  have sz: "slab_size c = 32 \<or> slab_size c = 64 \<or> slab_size c = 128"
    using assms(1) by (auto simp: slab_ok_def)
  then show le: "i * unat (slab_size c) + unat (slab_size c) \<le> 4096"
    using assms(2) by (elim disjE) simp_all
  have "unat (of_nat i :: u32) = i" using assms(2) by (simp add: unat_of_nat)
  then have m: "unat (of_nat i * slab_size c) = i * unat (slab_size c)"
    using le by (simp add: unat_word_ariths)
  have "unat (slab_size c) > 0" using sz by (elim disjE) simp_all
  then show "unat (slot_addr c i) = unat (first_slot c) + i * unat (slab_size c)"
    using m le assms(1) unfolding slot_addr_def
    by (intro trans [OF unat_add_no_wrap]) (simp_all add: slab_ok_def)
qed

lemma slab_size_pos: "slab_ok c \<Longrightarrow> 0 < unat (slab_size c)"
  by (auto simp: slab_ok_def)

lemma slot_addr_inj: "slab_ok c \<Longrightarrow> inj_on (slot_addr c) {..<32}"
  by (rule inj_onI) (metis unat_slot_addr(1) lessThan_iff add_left_cancel mult_cancel2 slab_size_pos less_irrefl)

lemma slot_addr_nonzero: "slab_ok c \<Longrightarrow> i < 32 \<Longrightarrow> slot_addr c i \<noteq> 0"
  using unat_slot_addr(1) [of c i] by (auto simp: slab_ok_def unat_eq_zero)

lemma slot_index:
  assumes "slab_ok c" "i < 32"
  shows "sint ((slot_addr c i - first_slot c) div slab_size c) = int i"
proof -
  define q where "q = (slot_addr c i - first_slot c) div slab_size c"
  have le: "first_slot c \<le> slot_addr c i"
    using unat_slot_addr(1) [OF assms] by (simp add: word_le_nat_alt)
  have "unat q = i"
    unfolding q_def using unat_slot_addr(1) [OF assms] slab_size_pos [OF assms(1)] le
    by (simp add: unat_div_distrib unat_sub)
  moreover have "of_nat (unat q) = q" by simp
  ultimately have "q = of_nat i" by simp
  moreover have "sint (of_nat i :: u32) = int i"
    using assms(2) by (simp add: signed_of_nat signed_take_bit_int_eq_self)
  ultimately show ?thesis by (simp add: q_def)
qed

lemma ctz_spec:
  assumes "m \<noteq> 0"
  shows "ctz m < 32" "bit m (ctz m)"
proof -
  obtain i where i: "bit m i" using assms bit_eq_iff [of m 0] by auto
  then have "i < 32" using bit_imp_le_length [of m i] by simp
  with i obtain j where j: "first_idx (bit m) [0..<32] = Some j"
    using first_idx_ex [of i "[0..<32]" "bit m"] by auto
  then have "j < 32" "bit m j" using first_idx_less [OF j] first_idx_holds [OF j] by auto
  with j show "ctz m < 32" "bit m (ctz m)" by (simp_all add: ctz_def)
qed

lemma bit_set_slot: "i < 32 \<Longrightarrow> bit ((m :: u32) OR 2 ^ i) j \<longleftrightarrow> bit m j \<or> j = i"
  by (auto simp: bit_simps)

lemma bit_clear_slot: "i < 32 \<Longrightarrow> bit ((m :: u32) AND NOT (2 ^ i)) j \<longleftrightarrow> bit m j \<and> j \<noteq> i"
  by (auto simp: bit_simps dest: bit_imp_le_length)

section \<open>The contract\<close>

lemma slab_ok_bitmap [simp]: "slab_ok (c\<lparr>bitmap := m\<rparr>) = slab_ok c"
  by (simp add: slab_ok_def)

lemma slot_addr_bitmap [simp]: "slot_addr (c\<lparr>bitmap := m\<rparr>) = slot_addr c"
  by (simp add: slot_addr_def fun_eq_iff)

lemma slab_slots_bitmap [simp]: "slab_slots (c\<lparr>bitmap := m\<rparr>) = slab_slots c"
  by (simp add: slab_slots_def)

lemma slab_taken_avail:
  assumes "slab_ok c"
  shows "slab_taken c \<inter> slab_avail c = {}" "slab_taken c \<union> slab_avail c = slab_slots c"
proof -
  have "slab_taken c \<inter> slab_avail c = slot_addr c ` ({i. i < 32 \<and> bit (bitmap c) i} \<inter> {i. i < 32 \<and> \<not> bit (bitmap c) i})"
    unfolding slab_taken_def slab_avail_def
    by (intro inj_on_image_Int [OF slot_addr_inj [OF assms], symmetric]) auto
  also have "\<dots> = {}" by auto
  finally show "slab_taken c \<inter> slab_avail c = {}" .
  show "slab_taken c \<union> slab_avail c = slab_slots c"
    by (auto simp: slab_taken_def slab_avail_def slab_slots_def)
qed

lemma slab_alloc_full: "NOT (bitmap c) = 0 \<Longrightarrow> slab_alloc c = (0, c)"
  by (simp add: slab_alloc_def)

lemma slab_alloc_some:
  assumes "slab_ok c" "NOT (bitmap c) \<noteq> 0"
  obtains i where "i < 32" "\<not> bit (bitmap c) i"
    "slab_alloc c = (slot_addr c i, c\<lparr>bitmap := bitmap c OR push_bit i 1\<rparr>)"
proof
  show "ctz (NOT (bitmap c)) < 32" by (rule ctz_spec(1) [OF assms(2)])
  with ctz_spec(2) [OF assms(2)] show "\<not> bit (bitmap c) (ctz (NOT (bitmap c)))"
    by (simp add: bit_not_iff)
  show "slab_alloc c = (slot_addr c (ctz (NOT (bitmap c))),
      c\<lparr>bitmap := bitmap c OR push_bit (ctz (NOT (bitmap c))) 1\<rparr>)"
    using assms(2) by (simp add: slab_alloc_def slot_addr_def Let_def)
qed

lemma slab_avail_empty: "NOT (bitmap c) = 0 \<Longrightarrow> slab_avail c = {}"
proof -
  assume "NOT (bitmap c) = 0"
  then have "bit (bitmap c) i" if "i < 32" for i
    using that bit_not_iff [of "bitmap c" i] by simp
  then show ?thesis by (simp add: slab_avail_def)
qed

lemma slot_image_remove:
  assumes "slab_ok c" "i < 32"
  shows "slot_addr c ` {j. j < 32 \<and> P j \<and> j \<noteq> i} = slot_addr c ` {j. j < 32 \<and> P j} - {slot_addr c i}"
proof -
  have "{j. j < 32 \<and> P j \<and> j \<noteq> i} = {j. j < 32 \<and> P j} - {i}" by auto
  moreover have "slot_addr c ` ({j. j < 32 \<and> P j} - {i}) = slot_addr c ` {j. j < 32 \<and> P j} - slot_addr c ` {i}"
    using assms(2) by (intro inj_on_image_set_diff [OF slot_addr_inj [OF assms(1)]]) auto
  ultimately show ?thesis by simp
qed

lemma slot_image_insert:
  "i < 32 \<Longrightarrow> slot_addr c ` {j. j < 32 \<and> (P j \<or> j = i)} = insert (slot_addr c i) (slot_addr c ` {j. j < 32 \<and> P j})"
  by auto

lemma slab_set_slot:
  assumes "slab_ok c" "i < 32"
  shows "slab_avail (c\<lparr>bitmap := bitmap c OR push_bit i 1\<rparr>) = slab_avail c - {slot_addr c i}"
    and "slab_taken (c\<lparr>bitmap := bitmap c OR push_bit i 1\<rparr>) = insert (slot_addr c i) (slab_taken c)"
  using slot_image_remove [OF assms, of "\<lambda>j. \<not> bit (bitmap c) j"]
    slot_image_insert [OF assms(2), of c "bit (bitmap c)"]
  by (simp_all add: slab_avail_def slab_taken_def bit_set_slot [OF assms(2)])

lemma slab_clear_slot:
  assumes "slab_ok c" "i < 32"
  shows "slab_avail (c\<lparr>bitmap := bitmap c AND NOT (push_bit i 1)\<rparr>) = insert (slot_addr c i) (slab_avail c)"
    and "slab_taken (c\<lparr>bitmap := bitmap c AND NOT (push_bit i 1)\<rparr>) = slab_taken c - {slot_addr c i}"
  using slot_image_insert [OF assms(2), of c "\<lambda>j. \<not> bit (bitmap c) j"]
    slot_image_remove [OF assms, of "bit (bitmap c)"]
  by (simp_all add: slab_avail_def slab_taken_def bit_clear_slot [OF assms(2)])

lemma slab_free_slot:
  assumes "slab_ok c" "i < 32"
  shows "slab_free (slot_addr c i) c = c\<lparr>bitmap := bitmap c AND NOT (push_bit i 1)\<rparr>"
  using slot_index [OF assms] assms(2) by (simp add: slab_free_def SLAB_SLOTS_PER_CACHE_def Let_def)

interpretation slab: unit_allocator slab_alloc slab_free 0 slab_avail slab_inv
proof unfold_locales
  fix U :: "u32 set" and c c' :: slab_t and x :: u32
  assume inv: "slab_inv U c"
  then have ok: "slab_ok c" by (simp add: slab_inv_def)
  show "slab_avail c \<subseteq> U" using slab_taken_avail(2) [OF ok] inv by (auto simp: slab_inv_def)
  show "slab_avail c = {} \<and> c' = c" if "slab_alloc c = (0, c')"
  proof (cases "NOT (bitmap c) = 0")
    case True
    then show ?thesis using that slab_alloc_full [OF True] slab_avail_empty [OF True] by simp
  next
    case False
    then obtain i where "i < 32" "fst (slab_alloc c) = slot_addr c i"
      by (elim slab_alloc_some [OF ok]) simp
    then show ?thesis using that slot_addr_nonzero [OF ok, of i] by simp
  qed
  show "slab_inv U c' \<and> x \<in> slab_avail c \<and> slab_avail c' = slab_avail c - {x}"
    if "slab_alloc c = (x, c')" "x \<noteq> 0"
  proof -
    have nz: "NOT (bitmap c) \<noteq> 0" using that slab_alloc_full by auto
    obtain i where "i < 32" "\<not> bit (bitmap c) i"
        "slab_alloc c = (slot_addr c i, c\<lparr>bitmap := bitmap c OR push_bit i 1\<rparr>)"
      by (rule slab_alloc_some [OF ok nz])
    then have i: "i < 32" "\<not> bit (bitmap c) i" "x = slot_addr c i"
        "c' = c\<lparr>bitmap := bitmap c OR push_bit i 1\<rparr>"
      using that(1) by simp_all
    then have "x \<in> slab_avail c" by (auto simp: slab_avail_def)
    then show ?thesis using i inv slab_set_slot(1) [OF ok i(1)] by (simp add: slab_inv_def)
  qed
  show "slab_inv U (slab_free x c) \<and> slab_avail (slab_free x c) = insert x (slab_avail c)" if xU: "x \<in> U"
  proof -
    obtain i where "i < 32" "x = slot_addr c i"
      using xU inv by (auto simp: slab_inv_def slab_slots_def)
    then show ?thesis
      using slab_free_slot [OF ok] slab_clear_slot(1) [OF ok] inv by (simp add: slab_inv_def)
  qed
qed

lemma slab_taken_card:
  assumes "slab_ok c"
  shows "card (slab_taken c) = popcount (bitmap c)"
proof -
  have "card (slab_taken c) = card {i. i < 32 \<and> bit (bitmap c) i}"
    unfolding slab_taken_def using slot_addr_inj [OF assms]
    by (intro card_image) (auto simp: inj_on_def)
  also have "{i. i < 32 \<and> bit (bitmap c) i} = set (filter (bit (bitmap c)) [0..<32])" by auto
  also have "card \<dots> = popcount (bitmap c)"
    unfolding popcount_def count_if_def by (rule distinct_card) simp
  finally show ?thesis .
qed

end
