(* ===== verification/Kheap.thy ===== *)
theory Kheap
  imports Slab
begin

text \<open>
  The kernel heap, \<^verbatim>\<open>kernel/Memory/kheap.c\<close>: requests of at most 128 bytes go to a slab
  cache, larger ones to the buddy allocator behind a 12-byte header that records the
  order. The header's fields are maps from header addresses: \<open>hdr_type\<close> is the word at
  offset 4, \<open>hdr_order\<close> the word at offset 8 (offset 0, \<^verbatim>\<open>size\<close>, is never written by the
  heap and is the word the free lists use as \<^verbatim>\<open>next\<close>).

  Interrupts are off for the whole of \<^verbatim>\<open>kmalloc_raw\<close> and \<^verbatim>\<open>kfree_raw\<close>, so each is one step.
\<close>

section \<open>Model\<close>

definition BUDDY :: u32 where "BUDDY = 2"

definition HDR_SIZE :: u32 where "HDR_SIZE = 12"

record heap_state =
  hp_buddy :: buddy_state
  cache_32b :: slab_t
  cache_64b :: slab_t
  cache_128b :: slab_t
  hdr_type :: "u32 \<Rightarrow> u32"
  hdr_order :: "u32 \<Rightarrow> u32"

definition slab_caches :: "heap_state \<Rightarrow> slab_t list" where
  "slab_caches h = [cache_32b h, cache_64b h, cache_128b h]"

definition slab_init_all :: "heap_state \<Rightarrow> heap_state option" where
  "slab_init_all h =
     (case slab_init 64 (cache_64b h) (hp_buddy h) of None \<Rightarrow> None | Some (c64, b1) \<Rightarrow>
      case slab_init 128 (cache_128b h) b1 of None \<Rightarrow> None | Some (c128, b2) \<Rightarrow>
      case slab_init 32 (cache_32b h) b2 of None \<Rightarrow> None | Some (c32, b3) \<Rightarrow>
        Some (h\<lparr>hp_buddy := b3, cache_32b := c32, cache_64b := c64, cache_128b := c128\<rparr>))"

partial_function (option) size_to_order_loop :: "u32 \<Rightarrow> u32 \<Rightarrow> int \<Rightarrow> int option" where
  "size_to_order_loop sz block order =
     (if block < sz then size_to_order_loop sz (block * 2) (order + 1) else Some order)"

definition size_to_order :: "u32 \<Rightarrow> int option" where
  "size_to_order sz = size_to_order_loop sz 4096 0"

definition kmalloc_unlocked :: "u32 \<Rightarrow> heap_state \<Rightarrow> (u32 \<times> heap_state) option" where
  "kmalloc_unlocked sz h =
     (if sz \<le> 32 then let (p, c) = slab_alloc (cache_32b h) in Some (p, h\<lparr>cache_32b := c\<rparr>)
      else if sz \<le> 64 then let (p, c) = slab_alloc (cache_64b h) in Some (p, h\<lparr>cache_64b := c\<rparr>)
      else if sz \<le> 128 then let (p, c) = slab_alloc (cache_128b h) in Some (p, h\<lparr>cache_128b := c\<rparr>)
      else
        let total = sz + HDR_SIZE in
        case size_to_order total of None \<Rightarrow> None | Some order \<Rightarrow>
        case buddy_alloc order (hp_buddy h) of None \<Rightarrow> None | Some (hdr, b) \<Rightarrow>
          if hdr = 0 then Some (0, h\<lparr>hp_buddy := b\<rparr>)
          else Some (hdr + HDR_SIZE,
                     h\<lparr>hp_buddy := b, hdr_type := (hdr_type h)(hdr := BUDDY),
                       hdr_order := (hdr_order h)(hdr := of_int order)\<rparr>))"

definition in_cache_page :: "slab_t \<Rightarrow> u32 \<Rightarrow> bool" where
  "in_cache_page cache p \<longleftrightarrow> p \<ge> first_slot cache \<and> p < first_slot cache + 4096"

definition kfree_unlocked :: "u32 \<Rightarrow> heap_state \<Rightarrow> heap_state option" where
  "kfree_unlocked ptr h =
     (if ptr = 0 then Some h
      else if in_cache_page (cache_32b h) ptr then Some (h\<lparr>cache_32b := slab_free ptr (cache_32b h)\<rparr>)
      else if in_cache_page (cache_64b h) ptr then Some (h\<lparr>cache_64b := slab_free ptr (cache_64b h)\<rparr>)
      else if in_cache_page (cache_128b h) ptr then Some (h\<lparr>cache_128b := slab_free ptr (cache_128b h)\<rparr>)
      else
        let hdr = ptr - HDR_SIZE in
        if hdr_type h hdr = BUDDY then
          case buddy_free hdr (sint (hdr_order h hdr)) (hp_buddy h) of
            None \<Rightarrow> None
          | Some b \<Rightarrow> Some (h\<lparr>hp_buddy := b\<rparr>)
        else Some h)"

definition kmalloc_raw :: "u32 \<Rightarrow> heap_state \<Rightarrow> (u32 \<times> heap_state) option" where
  "kmalloc_raw sz h = kmalloc_unlocked sz h"

definition kfree_raw :: "u32 \<Rightarrow> heap_state \<Rightarrow> heap_state option" where
  "kfree_raw ptr h = kfree_unlocked ptr h"

definition heap_used_bytes :: "heap_state \<Rightarrow> u32 option" where
  "heap_used_bytes h = map_option (\<lambda>u. slab_used_bytes (slab_caches h) + u) (buddy_used_memory (hp_buddy h))"

definition heap_free_bytes :: "heap_state \<Rightarrow> u32 option" where
  "heap_free_bytes h = map_option (\<lambda>f. slab_free_bytes (slab_caches h) + f) (buddy_free_memory (hp_buddy h))"

definition heap_total_bytes :: "heap_state \<Rightarrow> u32 option" where
  "heap_total_bytes h =
     (case heap_used_bytes h of None \<Rightarrow> None | Some u \<Rightarrow>
      case heap_free_bytes h of None \<Rightarrow> None | Some f \<Rightarrow> Some (u + f))"

definition heap_largest_free_block :: "heap_state \<Rightarrow> u32" where
  "heap_largest_free_block h = buddy_largest_free_block (hp_buddy h)"

definition heap_live_allocation :: "heap_state \<Rightarrow> u32 option" where
  "heap_live_allocation h =
     map_option (\<lambda>n. slab_objects_used (slab_caches h) + n) (buddy_live_allocations (hp_buddy h))"

section \<open>The order computation\<close>

lemma size_to_order_loop_eq:
  assumes "unat sz \<le> 2 ^ (12 + k + m)" "k + m < 20"
  shows "\<exists>r\<ge>k. size_to_order_loop sz (2 ^ (12 + k)) (int k) = Some (int r) \<and> r \<le> k + m \<and>
    unat sz \<le> 2 ^ (12 + r) \<and> (r = k \<or> 2 ^ (12 + r - 1) < unat sz)"
  using assms
proof (induction m arbitrary: k)
  case 0
  then have "unat (2 ^ (12 + k) :: u32) = 2 ^ (12 + k)" by (intro pow2_unat) simp
  then have "\<not> (2 ^ (12 + k) :: u32) < sz" using 0 by (simp add: word_less_nat_alt)
  then show ?case using 0 by (subst size_to_order_loop.simps) auto
next
  case (Suc m)
  have u: "unat (2 ^ (12 + k) :: u32) = 2 ^ (12 + k)" using Suc.prems by (intro pow2_unat) simp
  show ?case
  proof (cases "(2 ^ (12 + k) :: u32) < sz")
    case False
    then have "unat sz \<le> 2 ^ (12 + k)" using u by (simp add: word_less_nat_alt)
    with False show ?thesis by (subst size_to_order_loop.simps) auto
  next
    case True
    obtain r where r: "r \<ge> Suc k" "size_to_order_loop sz (2 ^ (12 + Suc k)) (int (Suc k)) = Some (int r)"
      "r \<le> Suc k + m" "unat sz \<le> 2 ^ (12 + r)" "r = Suc k \<or> 2 ^ (12 + r - 1) < unat sz"
      using Suc.IH [of "Suc k"] Suc.prems by (auto simp: add.assoc)
    have "2 ^ (12 + k) < unat sz" using True u by (simp add: word_less_nat_alt)
    then have "r = k \<or> 2 ^ (12 + r - 1) < unat sz" using r(5) by auto
    moreover have "size_to_order_loop sz (2 ^ (12 + k)) (int k) = Some (int r)"
      using r(2) True by (subst size_to_order_loop.simps) (simp add: power_add mult.commute add.commute)
    ultimately show ?thesis using r(1,3,4) by (intro exI [of _ r]) simp
  qed
qed

lemma size_to_order_Some:
  assumes "unat sz \<le> 2 ^ 31"
  shows "\<exists>r. size_to_order sz = Some (int r) \<and> r \<le> 19 \<and> unat sz \<le> 2 ^ (12 + r) \<and>
    (r = 0 \<or> 2 ^ (12 + r - 1) < unat sz)"
  using size_to_order_loop_eq [of sz 0 19] assms by (auto simp: size_to_order_def)

text \<open>Beyond \<open>2 ^ 31\<close> the doubled block wraps to 0 and the loop never ends.\<close>

lemma doubled_power:
  fixes block :: u32
  assumes "block = 0 \<or> (\<exists>k<32. block = 2 ^ k)"
  shows "block * 2 = 0 \<or> (\<exists>k<32. block * 2 = 2 ^ k)"
proof (cases "block = 0 \<or> block = 2 ^ 31")
  case False
  then obtain k where k: "block = 2 ^ k" "k < 32" using assms by auto
  with False have "k \<noteq> 31" by auto
  with k have "block * 2 = 2 ^ Suc k" "Suc k < 32" by simp_all
  then show ?thesis by blast
qed auto

lemma size_to_order_loop_stuck:
  assumes "size_to_order_loop sz block order = Some r"
  shows "block = 0 \<or> (\<exists>k<32. block = 2 ^ k) \<longrightarrow> unat sz \<le> 2 ^ 31"
proof (rule size_to_order_loop.raw_induct [OF _ assms])
  fix f :: "u32 \<Rightarrow> u32 \<Rightarrow> int \<Rightarrow> int option" and sz block :: u32 and order r :: int
  assume IH: "\<And>sz block order r. f sz block order = Some r \<Longrightarrow>
      block = 0 \<or> (\<exists>k<32. block = 2 ^ k) \<longrightarrow> unat sz \<le> 2 ^ 31"
    and run: "(if block < sz then f sz (block * 2) (order + 1) else Some order) = Some r"
  show "block = 0 \<or> (\<exists>k<32. block = 2 ^ k) \<longrightarrow> unat sz \<le> 2 ^ 31"
  proof
    assume b: "block = 0 \<or> (\<exists>k<32. block = 2 ^ k)"
    show "unat sz \<le> 2 ^ 31"
    proof (cases "block < sz")
      case True
      then show ?thesis using IH [of sz "block * 2" "order + 1" r] run doubled_power [OF b] by simp
    next
      case False
      then have "unat sz \<le> unat block" by (simp add: word_less_nat_alt)
      moreover have "unat block \<le> 2 ^ 31"
        using b pow2_unat power_increasing [of _ 31 "2::nat"] by auto
      ultimately show ?thesis by linarith
    qed
  qed
qed

lemma size_to_order_None: "unat sz > 2 ^ 31 \<Longrightarrow> size_to_order sz = None"
  using size_to_order_loop_stuck [of sz 4096 0]
  by (cases "size_to_order sz") (auto simp: size_to_order_def dest!: spec [of _ 12])

section \<open>Heap invariant\<close>

text \<open>A client holds pairs of an address and the size it asked for. The blocks the heap
  itself holds of the buddy allocator are the three cache pages and one block per large
  allocation.\<close>

definition large_block :: "heap_state \<Rightarrow> u32 \<Rightarrow> u32 \<times> nat" where
  "large_block h p = (p - HDR_SIZE, unat (hdr_order h (p - HDR_SIZE)))"

lemma slab_caches_set: "set (slab_caches h) = {cache_32b h, cache_64b h, cache_128b h}"
  by (simp add: slab_caches_def)

definition heap_blocks :: "heap_state \<Rightarrow> (u32 \<times> u32) set \<Rightarrow> (u32 \<times> nat) set" where
  "heap_blocks h H = (\<lambda>c. (first_slot c, 0)) ` set (slab_caches h) \<union>
     {large_block h p | p sz. (p, sz) \<in> H \<and> 128 < sz}"

text \<open>The small requests each cache serves.\<close>

definition heap_class :: "u32 \<Rightarrow> u32" where
  "heap_class sz = (if sz \<le> 32 then 32 else if sz \<le> 64 then 64 else 128)"

definition class_held :: "u32 \<Rightarrow> (u32 \<times> u32) set \<Rightarrow> u32 set" where
  "class_held cl H = {p. \<exists>sz. (p, sz) \<in> H \<and> sz \<le> 128 \<and> heap_class sz = cl}"

definition the_cache :: "u32 \<Rightarrow> heap_state \<Rightarrow> slab_t" where
  "the_cache cl h = (if cl = 32 then cache_32b h else if cl = 64 then cache_64b h else cache_128b h)"

definition upd_cache :: "u32 \<Rightarrow> slab_t \<Rightarrow> heap_state \<Rightarrow> heap_state" where
  "upd_cache cl c h = (if cl = 32 then h\<lparr>cache_32b := c\<rparr> else if cl = 64 then h\<lparr>cache_64b := c\<rparr>
     else h\<lparr>cache_128b := c\<rparr>)"

definition cache_ok :: "u32 \<Rightarrow> slab_t \<Rightarrow> (u32 \<times> u32) set \<Rightarrow> bool" where
  "cache_ok cl c H \<longleftrightarrow> slab_size c = cl \<and> slab_ok c \<and> slab_taken c = class_held cl H"

definition caches_ok :: "heap_state \<Rightarrow> (u32 \<times> u32) set \<Rightarrow> bool" where
  "caches_ok h H \<longleftrightarrow> (\<forall>cl\<in>{32, 64, 128}. cache_ok cl (the_cache cl h) H) \<and>
     inj_on (\<lambda>cl. first_slot (the_cache cl h)) {32, 64, 128}"

definition large_ok :: "heap_state \<Rightarrow> (u32 \<times> u32) set \<Rightarrow> bool" where
  "large_ok h H \<longleftrightarrow> (\<forall>(p, sz)\<in>H. 128 < sz \<longrightarrow> hdr_type h (p - HDR_SIZE) = BUDDY \<and>
     unat (hdr_order h (p - HDR_SIZE)) \<le> MAX_ORDER \<and>
     12 + unat sz \<le> 2 ^ (12 + unat (hdr_order h (p - HDR_SIZE))) \<and>
     p - HDR_SIZE \<notin> first_slot ` set (slab_caches h))"

definition heap_ok :: "nat set \<Rightarrow> heap_state \<Rightarrow> (u32 \<times> u32) set \<Rightarrow> bool" where
  "heap_ok U h H \<longleftrightarrow> run_ok U (hp_buddy h) (heap_blocks h H) \<and> caches_ok h H \<and> large_ok h H \<and>
     inj_on fst H"

text \<open>The bytes of an allocation.\<close>

definition bytes_of :: "u32 \<times> u32 \<Rightarrow> nat set" where
  "bytes_of a = {unat (fst a) ..< unat (fst a) + unat (snd a)}"

lemma run_ok_blocks:
  assumes "run_ok U s H" "(p, k) \<in> H"
  shows "block_ok s k p"
    and "(q, j) \<in> H \<Longrightarrow> (q, j) \<noteq> (p, k) \<Longrightarrow> block_pages k p \<inter> block_pages j q = {}"
  using assms unfolding run_ok_def held_ok_def by blast+

text \<open>Which pages the bytes of an allocation lie in.\<close>

lemma page_of_block_byte:
  assumes "block_ok s k a" "unat a \<le> x" "x < unat a + 2 ^ (12 + k)"
  shows "x div 4096 \<in> block_pages k a"
proof -
  have d: "2 ^ (12 + k) dvd unat a" using assms(1) by (simp add: block_ok_def)
  then obtain q where q: "unat a = 2 ^ (12 + k) * q" by (rule dvdE)
  define r where "r = 2 ^ k * q"
  have a: "unat a = 4096 * r" using q by (simp add: r_def power_add)
  then have "x < (r + 2 ^ k) * 4096" using assms(3) by (simp add: power_add)
  then have "x div 4096 < r + 2 ^ k" by (rule less_mult_imp_div_less)
  then have "x div 4096 < unat a div 4096 + 2 ^ k" using a by simp
  then show ?thesis using div_le_mono [OF assms(2), of 4096] by (simp add: block_pages_def)
qed

lemma large_hdr:
  assumes "heap_ok U h H" "(p, sz) \<in> H" "128 < sz"
  shows "block_ok (hp_buddy h) (snd (large_block h p)) (fst (large_block h p))"
    and "unat p = unat (fst (large_block h p)) + 12"
    and "large_block h p \<in> heap_blocks h H"
proof -
  show mem: "large_block h p \<in> heap_blocks h H"
    using assms(2,3) by (force simp: heap_blocks_def)
  then show ok: "block_ok (hp_buddy h) (snd (large_block h p)) (fst (large_block h p))"
    using assms(1) run_ok_blocks(1) [of U "hp_buddy h" "heap_blocks h H"]
    by (simp add: heap_ok_def)
  define k where "k = snd (large_block h p)"
  define a where "a = fst (large_block h p)"
  have "unat a + 2 ^ (12 + k) \<le> unat (buddy_end (hp_buddy h))"
    using ok by (simp add: block_ok_def a_def k_def)
  moreover have "(2::nat) ^ 12 \<le> 2 ^ (12 + k)" by (intro power_increasing) auto
  moreover have "unat (buddy_end (hp_buddy h)) < 2 ^ 32"
    using unsigned_less [of "buddy_end (hp_buddy h)"] by simp
  ultimately have "unat (a + 12) = unat a + 12"
    by (intro trans [OF unat_add_no_wrap]) simp_all
  moreover have "unat p = unat (a + 12)" by (simp add: a_def large_block_def HDR_SIZE_def)
  ultimately have "unat p = unat a + 12" by (rule trans [rotated])
  then show "unat p = unat (fst (large_block h p)) + 12" unfolding a_def .
qed

lemma same_page:
  assumes "4096 dvd (f :: nat)"
  shows "f \<le> x \<and> x < f + 4096 \<longleftrightarrow> x div 4096 = f div 4096"
proof -
  obtain q where "f = 4096 * q" using assms by (rule dvdE)
  moreover have "4096 * q \<le> x \<and> x < 4096 * q + 4096 \<longleftrightarrow> x div 4096 = q" by linarith
  ultimately show ?thesis by simp
qed

abbreviation classes :: "u32 set" where
  "classes \<equiv> {32, 64, 128}"

lemma the_cache_mem: "the_cache cl h \<in> set (slab_caches h)"
  by (auto simp: the_cache_def slab_caches_def)

lemma slab_caches_classes: "set (slab_caches h) = (\<lambda>cl. the_cache cl h) ` classes"
  by (auto simp: the_cache_def slab_caches_def)

lemma heap_class_mem [simp]: "heap_class sz \<in> classes"
  by (simp add: heap_class_def)

lemma heap_okD:
  assumes "heap_ok U h H"
  shows "run_ok U (hp_buddy h) (heap_blocks h H)" "caches_ok h H" "large_ok h H" "inj_on fst H"
  using assms by (simp_all add: heap_ok_def)

lemma held_unique: "heap_ok U h H \<Longrightarrow> (p, sz) \<in> H \<Longrightarrow> (p, sz') \<in> H \<Longrightarrow> sz = sz'"
  using inj_onD [OF heap_okD(4), of U h H "(p, sz)" "(p, sz')"] by simp

lemma cache_okD:
  assumes "heap_ok U h H" "cl \<in> classes"
  shows "slab_ok (the_cache cl h)" "slab_size (the_cache cl h) = cl"
    "slab_taken (the_cache cl h) = class_held cl H"
  using heap_okD(2) [OF assms(1)] assms(2) unfolding caches_ok_def cache_ok_def by blast+

lemma cache_page:
  assumes "heap_ok U h H"
  shows "(first_slot (the_cache cl h), 0) \<in> heap_blocks h H"
    and "block_ok (hp_buddy h) 0 (first_slot (the_cache cl h))"
    and "in_cache_page (the_cache cl h) p \<longleftrightarrow> unat p div 4096 = unat (first_slot (the_cache cl h)) div 4096"
proof -
  define c where "c = the_cache cl h"
  have mem: "(first_slot c, 0) \<in> heap_blocks h H"
    using the_cache_mem [of cl h] by (auto simp: heap_blocks_def c_def)
  then have b: "block_ok (hp_buddy h) 0 (first_slot c)"
    by (rule run_ok_blocks(1) [OF heap_okD(1) [OF assms]])
  have "unat (first_slot c) + 4096 \<le> unat (buddy_end (hp_buddy h))"
    using b by (simp add: block_ok_def)
  moreover have "unat (buddy_end (hp_buddy h)) < 2 ^ 32"
    using unsigned_less [of "buddy_end (hp_buddy h)"] by simp
  ultimately have "unat (first_slot c + 4096) = unat (first_slot c) + 4096"
    by (intro trans [OF unat_add_no_wrap]) simp_all
  then have "in_cache_page c p \<longleftrightarrow> unat (first_slot c) \<le> unat p \<and> unat p < unat (first_slot c) + 4096"
    by (simp add: in_cache_page_def word_le_nat_alt word_less_nat_alt)
  moreover have "4096 dvd unat (first_slot c)" using b by (simp add: block_ok_def)
  ultimately have "in_cache_page c p \<longleftrightarrow> unat p div 4096 = unat (first_slot c) div 4096"
    by (simp add: same_page)
  with mem b show "(first_slot (the_cache cl h), 0) \<in> heap_blocks h H"
    "block_ok (hp_buddy h) 0 (first_slot (the_cache cl h))"
    "in_cache_page (the_cache cl h) p \<longleftrightarrow> unat p div 4096 = unat (first_slot (the_cache cl h)) div 4096"
    unfolding c_def .
qed

text \<open>The bytes of an allocation lie in the pages of its block: the page of its cache or the
  block behind its header.\<close>

definition home :: "heap_state \<Rightarrow> u32 \<times> u32 \<Rightarrow> u32 \<times> nat" where
  "home h a = (if snd a \<le> 128 then (first_slot (the_cache (heap_class (snd a)) h), 0)
               else large_block h (fst a))"

lemma slab_slot_page:
  assumes "heap_ok U h H" "cl \<in> classes" "p \<in> slab_slots (the_cache cl h)"
    and "unat p \<le> x" "x < unat p + unat cl"
  shows "x div 4096 \<in> block_pages 0 (first_slot (the_cache cl h))"
proof -
  note c = cache_okD [OF assms(1,2)]
  obtain i where i: "i < 32" "p = slot_addr (the_cache cl h) i"
    using assms(3) by (auto simp: slab_slots_def)
  show ?thesis
    using unat_slot_addr [OF c(1) i(1)] assms(4,5) i(2) c(2)
    by (intro page_of_block_byte [OF cache_page(2) [OF assms(1)]]) auto
qed

lemma small_slot:
  assumes "heap_ok U h H" "(p, sz) \<in> H" "sz \<le> 128"
  shows "p \<in> slab_taken (the_cache (heap_class sz) h)" "p \<in> slab_slots (the_cache (heap_class sz) h)"
    and "sz \<le> heap_class sz" "0 < heap_class sz"
proof -
  have "p \<in> class_held (heap_class sz) H"
    using assms(2,3) by (force simp: class_held_def)
  then show p: "p \<in> slab_taken (the_cache (heap_class sz) h)"
    using cache_okD(3) [OF assms(1) heap_class_mem] by simp
  then show "p \<in> slab_slots (the_cache (heap_class sz) h)"
    using slab_taken_avail(2) [OF cache_okD(1) [OF assms(1) heap_class_mem]] by blast
  show "sz \<le> heap_class sz" "0 < heap_class sz" using assms(3) by (auto simp: heap_class_def)
qed

lemma home_pages:
  assumes "heap_ok U h H" "(p, sz) \<in> H" "unat p \<le> x" "x < unat p + max 1 (unat sz)"
  shows "home h (p, sz) \<in> heap_blocks h H" "x div 4096 \<in> block_pages (snd (home h (p, sz))) (fst (home h (p, sz)))"
proof -
  have "home h (p, sz) \<in> heap_blocks h H \<and>
      x div 4096 \<in> block_pages (snd (home h (p, sz))) (fst (home h (p, sz)))"
  proof (cases "sz \<le> 128")
    case True
    note p = small_slot [OF assms(1,2) True]
    have "x < unat p + unat (heap_class sz)"
      using p(3,4) assms(4) by (simp add: word_le_nat_alt word_less_nat_alt)
    then show ?thesis
      using slab_slot_page [OF assms(1) heap_class_mem p(2) assms(3)] cache_page(1) [OF assms(1)] True
      by (simp add: home_def)
  next
    case False
    then have l: "128 < sz" by simp
    have hm: "home h (p, sz) = large_block h p" using False by (simp add: home_def)
    have "12 + unat sz \<le> 2 ^ (12 + snd (large_block h p))"
      using heap_okD(3) [OF assms(1)] assms(2) l by (auto simp: large_ok_def large_block_def)
    moreover have "0 < unat sz" using l by (simp add: word_less_nat_alt)
    ultimately have "x div 4096 \<in> block_pages (snd (large_block h p)) (fst (large_block h p))"
      using assms(3,4) large_hdr(2) [OF assms(1,2) l]
      by (intro page_of_block_byte [OF large_hdr(1) [OF assms(1,2) l]]) simp_all
    then show ?thesis using large_hdr(3) [OF assms(1,2) l] hm by simp
  qed
  then show "home h (p, sz) \<in> heap_blocks h H"
    "x div 4096 \<in> block_pages (snd (home h (p, sz))) (fst (home h (p, sz)))" by simp_all
qed

text \<open>An address whose page is the page of a cache can only be held as an object of that cache.\<close>

lemma home_unique:
  assumes "heap_ok U h H" "(p, sz) \<in> H" "(a, k) \<in> heap_blocks h H" "unat p div 4096 \<in> block_pages k a"
  shows "home h (p, sz) = (a, k)"
proof -
  have "unat p < unat p + max 1 (unat sz)" by simp
  note hp = home_pages [OF assms(1,2) order_refl this]
  show ?thesis
    using run_ok_blocks(2) [OF heap_okD(1) [OF assms(1)] assms(3), of "fst (home h (p, sz))" "snd (home h (p, sz))"]
      hp assms(4) by auto
qed

lemma cache_page_class:
  assumes "heap_ok U h H" "(p, sz) \<in> H" "cl \<in> classes" "in_cache_page (the_cache cl h) p"
  shows "sz \<le> 128" "heap_class sz = cl"
proof -
  have hm: "home h (p, sz) = (first_slot (the_cache cl h), 0)"
    using assms(4) by (intro home_unique [OF assms(1,2) cache_page(1) [OF assms(1)]])
      (simp add: cache_page(3) [OF assms(1)] block_pages_def)
  have "first_slot (the_cache cl h) \<in> first_slot ` set (slab_caches h)"
    using the_cache_mem by blast
  then show sz: "sz \<le> 128"
    using hm heap_okD(3) [OF assms(1)] assms(2)
    by (fastforce simp: home_def large_block_def large_ok_def not_le split: if_splits)
  have "inj_on (\<lambda>cl. first_slot (the_cache cl h)) classes"
    using heap_okD(2) [OF assms(1)] by (simp add: caches_ok_def)
  then show "heap_class sz = cl"
    using hm sz assms(3) heap_class_mem [of sz] by (auto simp: home_def dest!: inj_onD)
qed

section \<open>Live allocations are disjoint\<close>

lemma slots_disjoint:
  assumes "slab_ok c" "p \<in> slab_slots c" "q \<in> slab_slots c" "p \<noteq> q"
  shows "unat p + unat (slab_size c) \<le> unat q \<or> unat q + unat (slab_size c) \<le> unat p"
proof -
  obtain i j where ij: "i < 32" "j < 32" "p = slot_addr c i" "q = slot_addr c j" "i \<noteq> j"
    using assms by (auto simp: slab_slots_def)
  have "Suc i \<le> j \<or> Suc j \<le> i" using ij(5) by auto
  then have "Suc i * unat (slab_size c) \<le> j * unat (slab_size c) \<or> Suc j * unat (slab_size c) \<le> i * unat (slab_size c)"
    using mult_le_mono1 by blast
  then show ?thesis
    using unat_slot_addr(1) [OF assms(1) ij(1)] unat_slot_addr(1) [OF assms(1) ij(2)] ij(3,4) by auto
qed

lemma home_in_cache:
  assumes "heap_ok U h H" "(p, sz) \<in> H"
  shows "fst (home h (p, sz)) \<in> first_slot ` set (slab_caches h) \<longleftrightarrow> sz \<le> 128"
proof (cases "sz \<le> 128")
  case True
  then show ?thesis using the_cache_mem by (simp add: home_def)
next
  case False
  then have "p - HDR_SIZE \<notin> first_slot ` set (slab_caches h)"
    using heap_okD(3) [OF assms(1)] assms(2) unfolding large_ok_def not_le by blast
  then show ?thesis using False by (simp add: home_def large_block_def)
qed

lemma heap_ok_disjoint:
  assumes ok: "heap_ok U h H" and a: "(p, sz) \<in> H" and b: "(q, sz') \<in> H" and "(p, sz) \<noteq> (q, sz')"
  shows "bytes_of (p, sz) \<inter> bytes_of (q, sz') = {}"
proof (rule ccontr)
  assume "bytes_of (p, sz) \<inter> bytes_of (q, sz') \<noteq> {}"
  then obtain x where "x \<in> bytes_of (p, sz)" "x \<in> bytes_of (q, sz')" by blast
  then have x: "unat p \<le> x" "x < unat p + unat sz" "unat q \<le> x" "x < unat q + unat sz'"
    by (simp_all add: bytes_of_def)
  have pq: "p \<noteq> q" using held_unique [OF ok] a b assms(4) by auto
  have "x < unat p + max 1 (unat sz)" "x < unat q + max 1 (unat sz')" using x by simp_all
  note hp = home_pages [OF ok a x(1) this(1)] and hq = home_pages [OF ok b x(3) this(2)]
  have same: "home h (p, sz) = home h (q, sz')"
  proof (rule ccontr)
    assume "home h (p, sz) \<noteq> home h (q, sz')"
    then have "block_pages (snd (home h (p, sz))) (fst (home h (p, sz))) \<inter>
        block_pages (snd (home h (q, sz'))) (fst (home h (q, sz'))) = {}"
      using run_ok_blocks(2) [OF heap_okD(1) [OF ok], of "fst (home h (p, sz))" "snd (home h (p, sz))"
        "fst (home h (q, sz'))" "snd (home h (q, sz'))"] hp(1) hq(1) by simp
    then show False using hp(2) hq(2) by blast
  qed
  have "sz \<le> 128 \<longleftrightarrow> sz' \<le> 128"
    using home_in_cache [OF ok a] home_in_cache [OF ok b] same by simp
  then consider "sz \<le> 128" "sz' \<le> 128" | "\<not> sz \<le> 128" "\<not> sz' \<le> 128" by blast
  then show False
  proof cases
    case 1
    have "inj_on (\<lambda>cl. first_slot (the_cache cl h)) classes"
      using heap_okD(2) [OF ok] by (simp add: caches_ok_def)
    then have cl: "heap_class sz = heap_class sz'"
      using same 1 heap_class_mem [of sz] heap_class_mem [of sz'] by (auto simp: home_def dest!: inj_onD)
    note c = cache_okD [OF ok heap_class_mem [of sz]]
    have "unat sz \<le> unat (heap_class sz)" "unat sz' \<le> unat (heap_class sz)"
      using small_slot(3) [OF ok a 1(1)] small_slot(3) [OF ok b 1(2)] cl by (simp_all add: word_le_nat_alt)
    then show False
      using slots_disjoint [OF c(1) small_slot(2) [OF ok a 1(1)] _ pq] small_slot(2) [OF ok b 1(2)] cl c(2) x
      by auto
  next
    case 2
    then have "p - HDR_SIZE = q - HDR_SIZE" using same by (simp add: home_def large_block_def)
    then show False using pq by simp
  qed
qed

section \<open>The operations keep the invariant\<close>

lemma kmalloc_small:
  "sz \<le> 128 \<Longrightarrow> kmalloc_unlocked sz h =
    (case slab_alloc (the_cache (heap_class sz) h) of (p, c) \<Rightarrow> Some (p, upd_cache (heap_class sz) c h))"
  by (auto simp: kmalloc_unlocked_def heap_class_def the_cache_def upd_cache_def split: prod.splits)

lemma upd_cache_simps [simp]:
  "hp_buddy (upd_cache cl c h) = hp_buddy h" "hdr_type (upd_cache cl c h) = hdr_type h"
  "hdr_order (upd_cache cl c h) = hdr_order h"
  by (simp_all add: upd_cache_def)

lemma the_cache_upd:
  "cl \<in> classes \<Longrightarrow> cl' \<in> classes \<Longrightarrow> the_cache cl' (upd_cache cl c h) = (if cl' = cl then c else the_cache cl' h)"
  by (auto simp: the_cache_def upd_cache_def)

lemma slab_alloc_first [simp]:
  "first_slot (snd (slab_alloc c)) = first_slot c" "slab_size (snd (slab_alloc c)) = slab_size c"
  by (simp_all add: slab_alloc_def Let_def)

lemma slab_free_first [simp]:
  "first_slot (slab_free p c) = first_slot c" "slab_size (slab_free p c) = slab_size c"
  by (simp_all add: slab_free_def Let_def)

lemma upd_cache_first:
  assumes "cl \<in> classes" "first_slot c = first_slot (the_cache cl h)"
  shows "first_slot ` set (slab_caches (upd_cache cl c h)) = first_slot ` set (slab_caches h)"
    and "cl' \<in> classes \<Longrightarrow> first_slot (the_cache cl' (upd_cache cl c h)) = first_slot (the_cache cl' h)"
  using assms by (auto simp: slab_caches_def the_cache_def upd_cache_def)

text \<open>Replacing a cache by one on the same page, when the objects held change accordingly.\<close>

lemma heap_ok_upd_cache:
  assumes ok: "heap_ok U h H" and cl: "cl \<in> classes"
    and c: "first_slot c = first_slot (the_cache cl h)" "slab_size c = cl" "slab_taken c = class_held cl H'"
    and other: "\<And>cl'. cl' \<noteq> cl \<Longrightarrow> class_held cl' H' = class_held cl' H"
    and large: "\<And>p sz. 128 < sz \<Longrightarrow> (p, sz) \<in> H' \<longleftrightarrow> (p, sz) \<in> H" and inj: "inj_on fst H'"
  shows "heap_ok U (upd_cache cl c h) H'"
proof -
  define h' where "h' = upd_cache cl c h"
  have lb: "large_block h' = large_block h" by (simp add: h'_def large_block_def fun_eq_iff)
  have first: "first_slot ` set (slab_caches h') = first_slot ` set (slab_caches h)"
    unfolding h'_def by (rule upd_cache_first(1) [OF cl c(1)])
  have "(\<lambda>c. (first_slot c, 0::nat)) ` set (slab_caches h') = (\<lambda>c. (first_slot c, 0)) ` set (slab_caches h)"
    using arg_cong [OF first, of "\<lambda>A. (\<lambda>a. (a, 0::nat)) ` A"] by (simp add: image_image)
  then have "heap_blocks h' H' = heap_blocks h H" using large unfolding heap_blocks_def lb by blast
  moreover have "large_ok h' H'"
    using heap_okD(3) [OF ok] large first unfolding large_ok_def h'_def by fastforce
  moreover have "slab_ok c"
    using cache_okD(1,2) [OF ok cl] c(1,2) by (simp add: slab_ok_def)
  then have "\<forall>cl'\<in>classes. cache_ok cl' (the_cache cl' h') H'"
    using cache_okD [OF ok] c(2,3) other cl by (auto simp: cache_ok_def h'_def the_cache_upd)
  moreover have "inj_on (\<lambda>cl. first_slot (the_cache cl h')) classes"
    using heap_okD(2) [OF ok] upd_cache_first(2) [OF cl c(1)] unfolding caches_ok_def h'_def
    by (simp add: inj_on_def)
  ultimately show ?thesis
    using heap_okD(1) [OF ok] inj by (simp add: heap_ok_def caches_ok_def h'_def [symmetric]) (simp add: h'_def)
qed

lemma class_held_insert:
  "sz \<le> 128 \<Longrightarrow> class_held cl (insert (p, sz) H) = (if heap_class sz = cl then insert p (class_held cl H) else class_held cl H)"
  by (auto simp: class_held_def)

lemma kmalloc_small_ok:
  assumes ok: "heap_ok U h H" and sz: "sz \<le> 128" and run: "kmalloc_unlocked sz h = Some (p, h')" and nz: "p \<noteq> 0"
  shows "heap_ok U h' (insert (p, sz) H)" "p \<notin> fst ` H"
proof -
  define cl where "cl = heap_class sz"
  define c where "c = the_cache cl h"
  have cl: "cl \<in> classes" unfolding cl_def by (rule heap_class_mem)
  note c_ok = cache_okD [OF ok cl, folded c_def]
  have nf: "NOT (bitmap c) \<noteq> 0"
    using run nz kmalloc_small [OF sz, of h] slab_alloc_full [of c] by (auto simp: c_def cl_def)
  obtain i where i: "i < 32" "\<not> bit (bitmap c) i"
    and al: "slab_alloc c = (slot_addr c i, c\<lparr>bitmap := bitmap c OR push_bit i 1\<rparr>)"
    by (rule slab_alloc_some [OF c_ok(1) nf])
  have p: "p = slot_addr c i" and h': "h' = upd_cache cl (c\<lparr>bitmap := bitmap c OR push_bit i 1\<rparr>) h"
    using run kmalloc_small [OF sz, of h] al by (auto simp: c_def cl_def)
  have avail: "p \<in> slab_avail c" using i by (auto simp: p slab_avail_def)
  have slot: "p \<in> slab_slots c" using i(1) by (auto simp: p slab_slots_def)
  show fresh: "p \<notin> fst ` H"
  proof
    assume "p \<in> fst ` H"
    then obtain sz' where q: "(p, sz') \<in> H" by force
    have "unat p div 4096 \<in> block_pages 0 (first_slot c)"
      unfolding c_def using slot cl by (intro slab_slot_page [OF ok]) (auto simp: c_def)
    then have "in_cache_page c p" by (simp add: c_def cache_page(3) [OF ok] block_pages_def)
    then have "p \<in> slab_taken c"
      using cache_page_class [OF ok q cl] small_slot(1) [OF ok q] by (simp add: c_def)
    then show False using avail slab_taken_avail(1) [OF c_ok(1)] by blast
  qed
  then have inj: "inj_on fst (insert (p, sz) H)" using heap_okD(4) [OF ok] by (force simp: inj_on_def)
  show "heap_ok U h' (insert (p, sz) H)" unfolding h'
    using sz slab_set_slot(2) [OF c_ok(1) i(1)] c_ok(2,3)
    by (intro heap_ok_upd_cache [OF ok cl _ _ _ _ _ inj])
      (auto simp: c_def p class_held_insert cl_def [symmetric] dest: leD)
qed

lemma kfree_cached:
  assumes "p \<noteq> 0" "cl \<in> classes" "\<And>cl'. cl' \<in> classes \<Longrightarrow> in_cache_page (the_cache cl' h) p \<longleftrightarrow> cl' = cl"
  shows "kfree_unlocked p h = Some (upd_cache cl (slab_free p (the_cache cl h)) h)"
  using assms(1,2) assms(3) [of 32] assms(3) [of 64] assms(3) [of 128]
  by (auto simp: kfree_unlocked_def the_cache_def upd_cache_def)

lemma kfree_small_ok:
  assumes ok: "heap_ok U h H" and mem: "(p, sz) \<in> H" and sz: "sz \<le> 128"
  shows "\<exists>h'. kfree_unlocked p h = Some h' \<and> heap_ok U h' (H - {(p, sz)})"
proof -
  define cl where "cl = heap_class sz"
  define c where "c = the_cache cl h"
  have cl: "cl \<in> classes" unfolding cl_def by (rule heap_class_mem)
  note c_ok = cache_okD [OF ok cl, folded c_def]
  note slot = small_slot [OF ok mem sz, folded cl_def, folded c_def]
  obtain i where i: "i < 32" "p = slot_addr c i" using slot(2) by (auto simp: slab_slots_def)
  have page: "unat p div 4096 \<in> block_pages 0 (first_slot c)"
    unfolding c_def using slot cl by (intro slab_slot_page [OF ok]) (auto simp: c_def word_less_nat_alt)
  have uniq: "in_cache_page (the_cache cl' h) p \<longleftrightarrow> cl' = cl" if "cl' \<in> classes" for cl'
    using cache_page_class(2) [OF ok mem that] page
    by (auto simp: cl_def c_def cache_page(3) [OF ok] block_pages_def)
  have run: "kfree_unlocked p h = Some (upd_cache cl (slab_free p c) h)"
    unfolding c_def using slot_addr_nonzero [OF c_ok(1) i(1)] i(2) by (intro kfree_cached [OF _ cl uniq]) auto
  have uq: "(p, sz') \<in> H \<Longrightarrow> sz' = sz" for sz'
    using held_unique [OF ok mem] by simp
  have held: "class_held cl' (H - {(p, sz)}) = (if cl' = cl then class_held cl' H - {p} else class_held cl' H)" for cl'
    using uq by (auto simp: class_held_def cl_def)
  have "slab_taken (slab_free p c) = slab_taken c - {p}"
    using slab_free_slot [OF c_ok(1) i(1)] slab_clear_slot(2) [OF c_ok(1) i(1)] by (simp add: i(2))
  then have "slab_taken (slab_free p c) = class_held cl (H - {(p, sz)})" by (simp add: held c_ok(3))
  then have "heap_ok U (upd_cache cl (slab_free p c) h) (H - {(p, sz)})"
    using c_ok(2) sz heap_okD(4) [OF ok]
    by (intro heap_ok_upd_cache [OF ok cl]) (auto simp: c_def held dest: leD intro: inj_on_diff)
  then show ?thesis using run by blast
qed

lemma kmalloc_large:
  assumes "128 < sz"
  shows "kmalloc_unlocked sz h =
    (case size_to_order (sz + HDR_SIZE) of None \<Rightarrow> None | Some order \<Rightarrow>
     case buddy_alloc order (hp_buddy h) of None \<Rightarrow> None | Some (hdr, b) \<Rightarrow>
       if hdr = 0 then Some (0, h\<lparr>hp_buddy := b\<rparr>)
       else Some (hdr + HDR_SIZE, h\<lparr>hp_buddy := b, hdr_type := (hdr_type h)(hdr := BUDDY),
                       hdr_order := (hdr_order h)(hdr := of_int order)\<rparr>))"
proof -
  have "\<not> sz \<le> 32" "\<not> sz \<le> 64" "\<not> sz \<le> 128"
    using assms by (simp_all add: word_less_nat_alt word_le_nat_alt)
  then show ?thesis by (simp add: kmalloc_unlocked_def)
qed

text \<open>Within 12 bytes of \<open>2 ^ 32\<close> the sum with the header is a small number.\<close>

lemma header_wraps:
  assumes "\<not> unat sz < 2 ^ 32 - 12"
  shows "size_to_order (sz + HDR_SIZE) = Some 0"
proof -
  have "unat (sz + HDR_SIZE) = (unat sz + 12) mod 2 ^ 32"
    by (simp add: HDR_SIZE_def unat_word_ariths)
  moreover have "unat sz < 2 ^ 32" using unsigned_less [of sz] by simp
  ultimately have "unat (sz + HDR_SIZE) = unat sz + 12 - 2 ^ 32"
    using assms by (simp add: mod_if [of "unat sz + 12"])
  then have "unat (sz + HDR_SIZE) \<le> 4096" using \<open>unat sz < 2 ^ 32\<close> by linarith
  then show ?thesis by (simp add: size_to_order_def size_to_order_loop.simps word_less_nat_alt)
qed

text \<open>A large request that is served: the order covers header and data, and the block is
  taken from the buddy allocator.\<close>

lemma kmalloc_large_served:
  assumes ok: "heap_ok U h H" and sz: "128 < sz" "unat sz + 12 < 2 ^ 32"
    and run: "kmalloc_unlocked sz h = Some (p, h')"
  shows "(p = 0 \<and> h' = h) \<or> (\<exists>hdr k b. hdr \<noteq> 0 \<and> p = hdr + HDR_SIZE \<and> k \<le> MAX_ORDER \<and>
    12 + unat sz \<le> 2 ^ (12 + k) \<and> buddy_alloc (int k) (hp_buddy h) = Some (hdr, b) \<and>
    h' = h\<lparr>hp_buddy := b, hdr_type := (hdr_type h)(hdr := BUDDY), hdr_order := (hdr_order h)(hdr := of_nat k)\<rparr>)"
proof -
  have tot: "unat (sz + HDR_SIZE) = unat sz + 12"
    using sz(2) by (simp add: HDR_SIZE_def unat_add_no_wrap)
  have "size_to_order (sz + HDR_SIZE) \<noteq> None"
    using run by (cases "size_to_order (sz + HDR_SIZE)") (auto simp: kmalloc_large [OF sz(1)])
  then have "unat (sz + HDR_SIZE) \<le> 2 ^ 31"
    using size_to_order_None [of "sz + HDR_SIZE"] by (meson not_le)
  then obtain k where k: "size_to_order (sz + HDR_SIZE) = Some (int k)" "unat sz + 12 \<le> 2 ^ (12 + k)"
    using size_to_order_Some tot by metis
  obtain hdr b where al: "buddy_alloc (int k) (hp_buddy h) = Some (hdr, b)"
    using run kmalloc_large [OF sz(1)] k(1) by (auto split: option.splits)
  show ?thesis
  proof (cases "hdr = 0")
    case True
    then have "b = hp_buddy h" using run_ok_fail [OF heap_okD(1) [OF ok]] al by simp
    then show ?thesis using run kmalloc_large [OF sz(1)] k(1) al True by simp
  next
    case False
    then have "k \<le> MAX_ORDER" using al by (auto simp: buddy_alloc_def buddy_valid_order_def split: if_splits)
    then show ?thesis using run kmalloc_large [OF sz(1), of h] k al False
      by (intro disjI2 exI [of _ hdr] exI [of _ k] exI [of _ b]) simp
  qed
qed

lemma kfree_large_ok:
  assumes ok: "heap_ok U h H" and mem: "(p, sz) \<in> H" and sz: "128 < sz"
  shows "\<exists>h'. kfree_unlocked p h = Some h' \<and> heap_ok U h' (H - {(p, sz)})"
proof -
  define hdr where "hdr = p - HDR_SIZE"
  define k where "k = unat (hdr_order h hdr)"
  have lb: "large_block h p = (hdr, k)" by (simp add: large_block_def hdr_def k_def)
  have l: "hdr_type h hdr = BUDDY" "k \<le> MAX_ORDER" "hdr \<notin> first_slot ` set (slab_caches h)"
    using heap_okD(3) [OF ok] mem sz by (auto simp: large_ok_def hdr_def k_def)
  have "unat p = unat hdr + 12" "(hdr, k) \<in> heap_blocks h H"
    using large_hdr(2,3) [OF ok mem sz] lb by simp_all
  then have nz: "p \<noteq> 0" by auto
  obtain b where b: "buddy_free hdr (int k) (hp_buddy h) = Some b"
    "run_ok U b (heap_blocks h H - {(hdr, k)})"
    using run_ok_give [OF heap_okD(1) [OF ok] \<open>(hdr, k) \<in> heap_blocks h H\<close>] by blast
  have "\<not> in_cache_page (the_cache cl h) p" if "cl \<in> classes" for cl
    using cache_page_class(1) [OF ok mem that] sz by auto
  from this [of 32] this [of 64] this [of 128]
  have np: "\<not> in_cache_page (cache_32b h) p" "\<not> in_cache_page (cache_64b h) p" "\<not> in_cache_page (cache_128b h) p"
    by (simp_all add: the_cache_def)
  have "hdr_order h hdr = of_nat k" by (simp add: k_def)
  then have "sint (hdr_order h hdr) = int k"
    using l(2) by (simp add: MAX_ORDER_def signed_of_nat signed_take_bit_int_eq_self)
  then have run: "kfree_unlocked p h = Some (h\<lparr>hp_buddy := b\<rparr>)"
    using nz np l(1) b(1) by (simp add: kfree_unlocked_def hdr_def [symmetric] Let_def)
  define h' where "h' = h\<lparr>hp_buddy := b\<rparr>"
  have same: "slab_caches h' = slab_caches h" "large_block h' = large_block h" "the_cache cl h' = the_cache cl h" for cl
    by (simp_all add: h'_def slab_caches_def large_block_def the_cache_def fun_eq_iff)
  have "heap_blocks h' (H - {(p, sz)}) = heap_blocks h H - {(hdr, k)}"
  proof -
    have "large_block h q \<noteq> (hdr, k)" if "(q, sz') \<in> H - {(p, sz)}" for q sz'
      using held_unique [OF ok mem, of sz'] that by (auto simp: large_block_def hdr_def)
    then have "(hdr, k) \<notin> {large_block h q | q sz'. (q, sz') \<in> H - {(p, sz)} \<and> 128 < sz'}"
      by force
    moreover have "{large_block h q | q sz'. (q, sz') \<in> H \<and> 128 < sz'} =
        insert (hdr, k) {large_block h q | q sz'. (q, sz') \<in> H - {(p, sz)} \<and> 128 < sz'}"
      using mem sz lb by force
    moreover have "(hdr, k) \<notin> (\<lambda>c. (first_slot c, 0)) ` set (slab_caches h)" using l(3) by auto
    ultimately show ?thesis unfolding heap_blocks_def same by simp
  qed
  moreover have "caches_ok h' (H - {(p, sz)})"
  proof -
    have "class_held cl (H - {(p, sz)}) = class_held cl H" for cl
      using sz by (auto simp: class_held_def)
    then show ?thesis using heap_okD(2) [OF ok] by (simp add: caches_ok_def cache_ok_def same)
  qed
  moreover have "large_ok h' (H - {(p, sz)})"
    using heap_okD(3) [OF ok] by (auto simp: large_ok_def same) (auto simp: h'_def)
  ultimately have "heap_ok U h' (H - {(p, sz)})"
    using b(2) heap_okD(4) [OF ok] by (simp add: heap_ok_def inj_on_diff) (simp add: h'_def)
  then show ?thesis using run h'_def by blast
qed

lemma kmalloc_large_ok:
  assumes ok: "heap_ok U h H" and sz: "128 < sz" and nz: "hdr \<noteq> 0" and k: "k \<le> MAX_ORDER"
    and fits: "12 + unat sz \<le> 2 ^ (12 + k)" and al: "buddy_alloc (int k) (hp_buddy h) = Some (hdr, b)"
  shows "heap_ok U (h\<lparr>hp_buddy := b, hdr_type := (hdr_type h)(hdr := BUDDY),
      hdr_order := (hdr_order h)(hdr := of_nat k)\<rparr>) (insert (hdr + HDR_SIZE, sz) H)"
    and "hdr + HDR_SIZE \<noteq> 0" and "hdr + HDR_SIZE \<notin> fst ` H"
proof -
  define p where "p = hdr + HDR_SIZE"
  define h' where "h' = h\<lparr>hp_buddy := b, hdr_type := (hdr_type h)(hdr := BUDDY),
      hdr_order := (hdr_order h)(hdr := of_nat k)\<rparr>"
  note fresh = run_ok_take_fresh [OF heap_okD(1) [OF ok] k al nz]
  have blk: "block_pages j a \<subseteq> held_pages (heap_blocks h H)" if "(a, j) \<in> heap_blocks h H" for a j
    using that by (auto simp: held_pages_def)
  have new: "hdr \<noteq> a" if "(a, j) \<in> heap_blocks h H" for a j
    using fresh(1) blk [OF that] block_pages_nonempty [of hdr] by blast
  have "unat hdr + 2 ^ (12 + k) \<le> unat (buddy_end (hp_buddy h))" using fresh(2) by (simp add: block_ok_def)
  moreover have "unat (buddy_end (hp_buddy h)) < 2 ^ 32" using unsigned_less [of "buddy_end (hp_buddy h)"] by simp
  moreover have "(2::nat) ^ 12 \<le> 2 ^ (12 + k)" by (intro power_increasing) auto
  ultimately have up: "unat p = unat hdr + 12"
    unfolding p_def HDR_SIZE_def by (intro trans [OF unat_add_no_wrap]) simp_all
  then have page: "unat p div 4096 \<in> block_pages k hdr"
    using \<open>2 ^ 12 \<le> 2 ^ (12 + k)\<close> by (intro page_of_block_byte [OF fresh(2)]) simp_all
  have pH: "p \<noteq> q" if "(q, sz') \<in> H" for q sz'
  proof
    assume "p = q"
    then have "home h (q, sz') \<in> heap_blocks h H"
      "unat p div 4096 \<in> block_pages (snd (home h (q, sz'))) (fst (home h (q, sz')))"
      using home_pages [OF ok that order_refl] by simp_all
    then show False using blk [of "fst (home h (q, sz'))" "snd (home h (q, sz'))"] page fresh(1) by auto
  qed
  have big: "q - HDR_SIZE \<noteq> hdr" if "(q, sz') \<in> H" "128 < sz'" for q sz'
    using new large_hdr(3) [OF ok that] by (auto simp: large_block_def)
  have kk: "unat (of_nat k :: u32) = k" using k by (simp add: MAX_ORDER_def unat_of_nat)
  have same: "slab_caches h' = slab_caches h" "the_cache cl h' = the_cache cl h" for cl
    by (simp_all add: h'_def slab_caches_def the_cache_def)
  have lbp: "large_block h' p = (hdr, k)" by (simp add: large_block_def p_def h'_def kk)
  have lb: "large_block h' q = large_block h q" if "(q, sz') \<in> H" "128 < sz'" for q sz'
    using big [OF that] by (simp add: large_block_def h'_def)
  have "heap_blocks h' (insert (p, sz) H) = insert (hdr, k) (heap_blocks h H)"
  proof -
    have "{large_block h' q | q s. (q, s) \<in> insert (p, sz) H \<and> 128 < s} =
        insert (hdr, k) {large_block h q | q s. (q, s) \<in> H \<and> 128 < s}"
      using lb lbp sz by force
    then show ?thesis unfolding heap_blocks_def same by simp
  qed
  then have "run_ok U (hp_buddy h') (heap_blocks h' (insert (p, sz) H))"
    using run_ok_take [OF heap_okD(1) [OF ok] k al nz] by (simp add: h'_def)
  moreover have "class_held cl (insert (p, sz) H) = class_held cl H" for cl
    using sz by (auto simp: class_held_def)
  then have "caches_ok h' (insert (p, sz) H)"
    using heap_okD(2) [OF ok] by (simp add: caches_ok_def cache_ok_def same)
  moreover have "hdr \<notin> first_slot ` set (slab_caches h)" using new by (force simp: heap_blocks_def)
  then have "large_ok h' (insert (p, sz) H)"
    using heap_okD(3) [OF ok] big fits k kk unfolding large_ok_def same
    by (auto simp: h'_def p_def)
  moreover have "inj_on fst (insert (p, sz) H)"
    using heap_okD(4) [OF ok] pH by (force simp: inj_on_def)
  ultimately show "heap_ok U (h\<lparr>hp_buddy := b, hdr_type := (hdr_type h)(hdr := BUDDY),
      hdr_order := (hdr_order h)(hdr := of_nat k)\<rparr>) (insert (hdr + HDR_SIZE, sz) H)"
    unfolding heap_ok_def h'_def p_def by blast
  show "hdr + HDR_SIZE \<noteq> 0" using up by (auto simp: p_def)
  show "hdr + HDR_SIZE \<notin> fst ` H" using pH by (force simp: p_def)
qed

section \<open>Runs of clients\<close>

inductive heap_reach :: "heap_state \<Rightarrow> heap_state \<Rightarrow> (u32 \<times> u32) set \<Rightarrow> bool" for h0 where
  start: "heap_reach h0 h0 {}"
| take: "heap_reach h0 h H \<Longrightarrow> unat sz + 12 < 2 ^ 32 \<Longrightarrow> kmalloc_raw sz h = Some (p, h') \<Longrightarrow> p \<noteq> 0 \<Longrightarrow>
    heap_reach h0 h' (insert (p, sz) H)"
| fail: "heap_reach h0 h H \<Longrightarrow> unat sz + 12 < 2 ^ 32 \<Longrightarrow> kmalloc_raw sz h = Some (0, h') \<Longrightarrow> heap_reach h0 h' H"
| give: "heap_reach h0 h H \<Longrightarrow> (p, sz) \<in> H \<Longrightarrow> kfree_raw p h = Some h' \<Longrightarrow> heap_reach h0 h' (H - {(p, sz)})"

lemma kmalloc_ok:
  assumes "heap_ok U h H" "unat sz + 12 < 2 ^ 32" "kmalloc_raw sz h = Some (p, h')"
  shows "if p = 0 then h' = h else heap_ok U h' (insert (p, sz) H)"
proof (cases "sz \<le> 128")
  case True
  note run = assms(3) [unfolded kmalloc_raw_def]
  define c where "c = the_cache (heap_class sz) h"
  have "h' = h" if "p = 0"
  proof -
    have al: "slab_alloc c = (0, snd (slab_alloc c))" "h' = upd_cache (heap_class sz) (snd (slab_alloc c)) h"
      using run kmalloc_small [OF True, of h] that by (auto simp: c_def split: prod.splits)
    have "slab_inv (slab_slots c) c" using cache_okD(1) [OF assms(1) heap_class_mem] by (simp add: slab_inv_def c_def)
    then have "snd (slab_alloc c) = c" using slab.alloc_fails [OF _ al(1)] by simp
    then show ?thesis using al(2) by (auto simp: c_def upd_cache_def the_cache_def)
  qed
  then show ?thesis using kmalloc_small_ok(1) [OF assms(1) True run] by simp
next
  case False
  then have sz: "128 < sz" by simp
  from kmalloc_large_served [OF assms(1) sz assms(2) assms(3) [unfolded kmalloc_raw_def]] show ?thesis
    using kmalloc_large_ok [OF assms(1) sz] by auto
qed

text \<open>What is handed out was not live before.\<close>

lemma kmalloc_fresh:
  assumes "heap_ok U h H" "unat sz + 12 < 2 ^ 32" "kmalloc_raw sz h = Some (p, h')" "p \<noteq> 0"
  shows "p \<notin> fst ` H"
proof (cases "sz \<le> 128")
  case True
  then show ?thesis using kmalloc_small_ok(2) [OF assms(1) True] assms(3,4) by (simp add: kmalloc_raw_def)
next
  case False
  then have sz: "128 < sz" by simp
  from kmalloc_large_served [OF assms(1) sz assms(2) assms(3) [unfolded kmalloc_raw_def]] show ?thesis
    using kmalloc_large_ok(3) [OF assms(1) sz] assms(4) by auto
qed

lemma kfree_ok:
  assumes "heap_ok U h H" "(p, sz) \<in> H"
  shows "\<exists>h'. kfree_raw p h = Some h' \<and> heap_ok U h' (H - {(p, sz)})"
  using kfree_small_ok [OF assms] kfree_large_ok [OF assms] by (cases "sz \<le> 128") (auto simp: kfree_raw_def)

lemma kmalloc_new_disjoint:
  assumes ok: "heap_ok U h H" and run: "unat sz + 12 < 2 ^ 32" "kmalloc_raw sz h = Some (p, h')" "p \<noteq> 0"
  shows "p \<notin> fst ` H \<and> (\<forall>b\<in>H. bytes_of (p, sz) \<inter> bytes_of b = {})"
proof -
  have fresh: "p \<notin> fst ` H" by (rule kmalloc_fresh [OF ok run])
  have ok': "heap_ok U h' (insert (p, sz) H)" using kmalloc_ok [OF ok run(1,2)] run(3) by simp
  have "bytes_of (p, sz) \<inter> bytes_of b = {}" if "b \<in> H" for b
  proof -
    have "(p, sz) \<noteq> (fst b, snd b)" using fresh that by (metis fst_conv imageI)
    then show ?thesis using heap_ok_disjoint [OF ok', of p sz "fst b" "snd b"] that by simp
  qed
  then show ?thesis using fresh by blast
qed

lemma heap_ok_reach: "heap_reach h0 h H \<Longrightarrow> heap_ok U h0 {} \<Longrightarrow> heap_ok U h H"
proof (induction rule: heap_reach.induct)
  case (take h H sz p h')
  then show ?case using kmalloc_ok [of U h H sz p h'] by simp
next
  case (fail h H sz h')
  then show ?case using kmalloc_ok [of U h H sz 0 h'] by simp
next
  case (give h H p sz h')
  then show ?case using kfree_ok [of U h H p sz] by auto
qed

lemma slab_init_run:
  assumes "run_ok U b B" "slab_init sz c b = Some (c', b')" "first_slot c' \<noteq> 0" "sz \<in> classes"
  shows "run_ok U b' (insert (first_slot c', 0) B)" "slab_size c' = sz" "slab_ok c'" "slab_taken c' = {}"
    and "(first_slot c', 0) \<notin> B"
proof -
  obtain p where p: "buddy_alloc (int 0) b = Some (p, b')" "c' = c\<lparr>bitmap := 0, slab_size := sz, first_slot := p\<rparr>"
    using assms(2) by (auto simp: slab_init_def split: option.splits)
  then have nz: "p \<noteq> 0" using assms(3) by simp
  note take = run_ok_take [OF assms(1) _ p(1) nz] and fresh = run_ok_take_fresh [OF assms(1) _ p(1) nz]
  show "run_ok U b' (insert (first_slot c', 0) B)" "slab_size c' = sz" "slab_taken c' = {}"
    using take p(2) by (simp_all add: slab_taken_def)
  have "unat (buddy_end b) < 2 ^ 32" using unsigned_less [of "buddy_end b"] by simp
  then show "slab_ok c'" using fresh(2) p(2) assms(4) by (simp add: slab_ok_def block_ok_def)
  have "(p, 0) \<in> B \<Longrightarrow> block_pages 0 p \<subseteq> held_pages B" by (auto simp: held_pages_def)
  moreover have "block_pages 0 p \<inter> held_pages B = {}" using fresh(1) by simp
  ultimately have "(p, 0) \<notin> B" using block_pages_nonempty [of p 0] by blast
  then show "(first_slot c', 0) \<notin> B" using p(2) by simp
qed

lemma slab_init_all_ok:
  assumes "run_ok U (hp_buddy h) {}" "slab_init_all h = Some h'"
    and "\<forall>c\<in>set (slab_caches h'). first_slot c \<noteq> 0"
  shows "heap_ok U h' {}"
proof -
  obtain c64 b1 c128 b2 c32 b3 where
    i: "slab_init 64 (cache_64b h) (hp_buddy h) = Some (c64, b1)"
      "slab_init 128 (cache_128b h) b1 = Some (c128, b2)" "slab_init 32 (cache_32b h) b2 = Some (c32, b3)"
    and h': "h' = h\<lparr>hp_buddy := b3, cache_32b := c32, cache_64b := c64, cache_128b := c128\<rparr>"
    using assms(2) by (auto simp: slab_init_all_def split: option.splits)
  have nz: "first_slot c64 \<noteq> 0" "first_slot c128 \<noteq> 0" "first_slot c32 \<noteq> 0"
    using assms(3) by (simp_all add: h' slab_caches_def)
  have s1: "run_ok U b1 {(first_slot c64, 0)}" "slab_size c64 = 64" "slab_ok c64" "slab_taken c64 = {}"
    using slab_init_run [OF assms(1) i(1) nz(1)] by simp_all
  note s2 = slab_init_run [OF s1(1) i(2) nz(2), simplified]
  note s3 = slab_init_run [OF s2(1) i(3) nz(3), simplified]
  have "heap_blocks h' {} = {(first_slot c32, 0), (first_slot c128, 0), (first_slot c64, 0)}"
    by (auto simp: heap_blocks_def slab_caches_def h')
  then have "run_ok U (hp_buddy h') (heap_blocks h' {})" using s3(1) by (simp add: h')
  moreover have "caches_ok h' {}"
    using s1(2-4) s2(2-5) s3(2-5)
    by (auto simp: caches_ok_def cache_ok_def the_cache_def h' class_held_def inj_on_def)
  ultimately show ?thesis by (simp add: heap_ok_def large_ok_def)
qed

section \<open>A concrete heap\<close>

text \<open>A region of four pages, with the caches set up.\<close>

definition buddy_four :: buddy_state where
  "buddy_four = \<lparr>buddy_start = 0x4000, buddy_end = 0x8000, buddy_total_mem = 0x4000,
     free_lists = (\<lambda>_. 0)(2 := 0x4000), nxt = \<lambda>_. 0\<rparr>"

definition slab_blank :: slab_t where
  "slab_blank = \<lparr>bitmap = 0, first_slot = 0, slab_size = 0\<rparr>"

definition heap_blank :: heap_state where
  "heap_blank = \<lparr>hp_buddy = buddy_four, cache_32b = slab_blank, cache_64b = slab_blank,
     cache_128b = slab_blank, hdr_type = \<lambda>_. 0, hdr_order = \<lambda>_. 0\<rparr>"

definition heap_small :: heap_state where
  "heap_small = heap_blank\<lparr>
     hp_buddy := buddy_four\<lparr>free_lists := (\<lambda>_. 0)(0 := 0x7000)\<rparr>,
     cache_64b := \<lparr>bitmap = 0, first_slot = 0x4000, slab_size = 64\<rparr>,
     cache_128b := \<lparr>bitmap = 0, first_slot = 0x5000, slab_size = 128\<rparr>,
     cache_32b := \<lparr>bitmap = 0, first_slot = 0x6000, slab_size = 32\<rparr>\<rparr>"

lemma buddy_four_run: "run_ok (block_pages 2 0x4000) buddy_four {}"
proof -
  have "buddy_abs buddy_four (one_block 2 0x4000)"
    by (simp add: buddy_abs_def lists_ok_def one_block_def buddy_four_def block_ok_def MAX_ORDER_def)
  then show ?thesis by (auto simp: run_ok_def held_ok_def)
qed

lemmas buddy_eval = buddy_alloc_def buddy_valid_order_def MAX_ORDER_def remove_from_list_def
  add_to_list_def buddy_in_range_def block_size_eq fun_eq_iff

lemma buddy_four_allocs:
  "buddy_alloc 0 buddy_four =
     Some (0x4000, buddy_four\<lparr>free_lists := (\<lambda>_. 0)(Suc 0 := 0x6000, 0 := 0x5000)\<rparr>)"
  "buddy_alloc 0 (buddy_four\<lparr>free_lists := (\<lambda>_. 0)(Suc 0 := 0x6000, 0 := 0x5000)\<rparr>) =
     Some (0x5000, buddy_four\<lparr>free_lists := (\<lambda>_. 0)(Suc 0 := 0x6000)\<rparr>)"
  "buddy_alloc 0 (buddy_four\<lparr>free_lists := (\<lambda>_. 0)(Suc 0 := 0x6000)\<rparr>) =
     Some (0x6000, buddy_four\<lparr>free_lists := (\<lambda>_. 0)(0 := 0x7000)\<rparr>)"
  by (simp_all add: buddy_four_def buddy_eval)

lemma heap_blank_init: "slab_init_all heap_blank = Some heap_small"
  by (simp add: slab_init_all_def slab_init_def heap_blank_def heap_small_def slab_blank_def buddy_four_allocs)

lemma heap_small_ok: "heap_ok (block_pages 2 0x4000) heap_small {}"
  using slab_init_all_ok [OF _ heap_blank_init, of "block_pages 2 0x4000"] buddy_four_run
  by (simp add: heap_blank_def heap_small_def slab_caches_def)

section \<open>Properties\<close>

text \<open>C1. Along every run in which clients allocate and free what they hold, with sizes below
  \<open>2 ^ 32 - 12\<close>: the byte ranges of live allocations are pairwise disjoint, every free of
  a live allocation returns and keeps the heap invariant, and whatever is allocated next has an address
  that no live allocation has, and bytes disjoint from all of them.\<close>

theorem kmalloc_disjoint:
  assumes "heap_ok U h0 {}" "heap_reach h0 h H"
  shows "heap_ok U h H \<and>
    (\<forall>a\<in>H. \<forall>b\<in>H. a \<noteq> b \<longrightarrow> bytes_of a \<inter> bytes_of b = {}) \<and>
    (\<forall>(p, sz)\<in>H. \<exists>h'. kfree_raw p h = Some h' \<and> heap_ok U h' (H - {(p, sz)})) \<and>
    (\<forall>sz p h'. unat sz + 12 < 2 ^ 32 \<longrightarrow> kmalloc_raw sz h = Some (p, h') \<longrightarrow> p \<noteq> 0 \<longrightarrow>
       p \<notin> fst ` H \<and> (\<forall>b\<in>H. bytes_of (p, sz) \<inter> bytes_of b = {}))"
proof -
  have ok: "heap_ok U h H" by (rule heap_ok_reach [OF assms(2,1)])
  have "bytes_of a \<inter> bytes_of b = {}" if "a \<in> H" "b \<in> H" "a \<noteq> b" for a b
    using heap_ok_disjoint [OF ok, of "fst a" "snd a" "fst b" "snd b"] that by simp
  moreover have "p \<notin> fst ` H \<and> (\<forall>b\<in>H. bytes_of (p, sz) \<inter> bytes_of b = {})"
    if "unat sz + 12 < 2 ^ 32" "kmalloc_raw sz h = Some (p, h')" "p \<noteq> 0" for sz p h'
    by (rule kmalloc_new_disjoint [OF ok that])
  ultimately show ?thesis using ok kfree_ok [OF ok] by auto
qed

theorem kmalloc_disjoint_witness:
  "\<exists>h. heap_reach heap_small h {(0x6000, 20), (0x700C, 1000)} \<and>
     bytes_of (0x6000, 20) \<inter> bytes_of (0x700C, 1000) = {}"
proof -
  define h1 where "h1 = snd (the (kmalloc_raw 1000 heap_small))"
  define h2 where "h2 = snd (the (kmalloc_raw 20 h1))"
  have "size_to_order 1012 = Some 0" by (simp add: size_to_order_def size_to_order_loop.simps)
  then have al: "kmalloc_raw 1000 heap_small = Some (0x700C, h1)"
    by (simp add: h1_def kmalloc_raw_def kmalloc_unlocked_def HDR_SIZE_def heap_small_def heap_blank_def
        buddy_four_def buddy_alloc_def buddy_valid_order_def Let_def)
  then have "cache_32b h1 = cache_32b heap_small"
    using \<open>size_to_order 1012 = Some 0\<close>
    by (simp add: h1_def kmalloc_raw_def kmalloc_unlocked_def HDR_SIZE_def heap_small_def heap_blank_def
        buddy_four_def buddy_alloc_def buddy_valid_order_def Let_def)
  then have al2: "kmalloc_raw 20 h1 = Some (0x6000, h2)"
    by (simp add: h2_def kmalloc_raw_def kmalloc_unlocked_def heap_small_def slab_alloc_def ctz_def upt_zero_numeral)
  have "heap_reach heap_small h1 (insert (0x700C, 1000) {})"
    by (rule heap_reach.take [OF heap_reach.start _ al]) simp_all
  then have "heap_reach heap_small h2 (insert (0x6000, 20) (insert (0x700C, 1000) {}))"
    by (rule heap_reach.take [OF _ _ al2]) simp_all
  then show ?thesis using kmalloc_disjoint [OF heap_small_ok, of h2 "{(0x6000, 20), (0x700C, 1000)}"]
    by (intro exI [of _ h2]) simp
qed

text \<open>C16. The order computed for a request of at most \<open>2 ^ 31\<close> bytes is the least order whose
  block covers it; for a larger request the doubling loop does not return.\<close>

theorem size_to_order_least:
  "(\<forall>r. size_to_order sz = Some (int r) \<longleftrightarrow>
      unat sz \<le> 2 ^ 31 \<and> unat sz \<le> 2 ^ (12 + r) \<and> (\<forall>j<r. 2 ^ (12 + j) < unat sz)) \<and>
   (size_to_order sz = None \<longleftrightarrow> 2 ^ 31 < unat sz)"
proof (cases "unat sz \<le> 2 ^ 31")
  case True
  then obtain k where k: "size_to_order sz = Some (int k)" "unat sz \<le> 2 ^ (12 + k)"
    "k = 0 \<or> 2 ^ (12 + k - 1) < unat sz" using size_to_order_Some by metis
  have low: "2 ^ (12 + j) < unat sz" if "j < k" for j
  proof -
    have "(2::nat) ^ (12 + j) \<le> 2 ^ (12 + k - 1)" using that by (intro power_increasing) auto
    then show ?thesis using k(3) that by linarith
  qed
  have uniq: "r = k" if "unat sz \<le> 2 ^ (12 + r)" "\<forall>j<r. 2 ^ (12 + j) < unat sz" for r
    using that k(2) low [of r] by (cases r k rule: linorder_cases) auto
  have "k = r \<longleftrightarrow> unat sz \<le> 2 ^ (12 + r) \<and> (\<forall>j<r. 2 ^ (12 + j) < unat sz)" for r
    using k(2) low uniq [of r] by blast
  then show ?thesis using True k(1) by simp
next
  case False
  then show ?thesis using size_to_order_None [of sz] by simp
qed

theorem size_to_order_least_witness:
  "size_to_order 5000 = Some (int 1) \<and> size_to_order 0x80000001 = None"
proof
  show "size_to_order 5000 = Some (int 1)"
    by (rule size_to_order_least [of 5000, THEN conjunct1, THEN spec, of 1, THEN iffD2]) simp
  show "size_to_order 0x80000001 = None"
    by (rule size_to_order_least [of "0x80000001", THEN conjunct2, THEN iffD2]) simp
qed

text \<open>C17. Adding the header size wraps: a request within 12 bytes of \<open>2 ^ 32\<close> is answered like one for
  4084 bytes, in the same state, so while the buddy allocator has a page the caller gets a block of that
  single page and not an error; a request between \<open>2 ^ 31 - 12\<close> and \<open>2 ^ 32 - 12\<close> never returns.\<close>

theorem kmalloc_huge:
  assumes "unat sz > 2 ^ 31 - 12"
  shows "if unat sz < 2 ^ 32 - 12 then kmalloc_raw sz h = None
    else kmalloc_raw sz h = kmalloc_raw 4084 h \<and>
      (\<forall>hdr b. buddy_alloc 0 (hp_buddy h) = Some (hdr, b) \<and> hdr \<noteq> 0 \<longrightarrow>
         (\<exists>h'. kmalloc_raw sz h = Some (hdr + HDR_SIZE, h') \<and> hp_buddy h' = b))"
proof (cases "unat sz < 2 ^ 32 - 12")
  case True
  have "unat (sz + HDR_SIZE) = unat sz + 12"
    using True unfolding HDR_SIZE_def by (intro trans [OF unat_add_no_wrap]) simp_all
  then have "size_to_order (sz + HDR_SIZE) = None" using assms by (intro size_to_order_None) simp
  moreover have "128 < sz" using assms by (simp add: word_less_nat_alt)
  ultimately show ?thesis using True by (simp add: kmalloc_raw_def kmalloc_large)
next
  case False
  have "size_to_order (4084 + HDR_SIZE) = Some 0"
    by (simp add: HDR_SIZE_def size_to_order_def size_to_order_loop.simps)
  moreover have "128 < sz" using assms by (simp add: word_less_nat_alt)
  ultimately show ?thesis
    using False header_wraps [of sz] by (auto simp: kmalloc_raw_def kmalloc_large)
qed

theorem kmalloc_huge_witness:
  "kmalloc_raw 0x80000000 heap_small = None \<and>
   (\<exists>h'. kmalloc_raw 0xFFFFFFF8 heap_small = Some (0x700C, h')) \<and>
   kmalloc_raw 0xFFFFFFF8 heap_small = kmalloc_raw 4084 heap_small"
proof -
  have "\<exists>b. buddy_alloc 0 (hp_buddy heap_small) = Some (0x7000, b)"
    by (simp add: heap_small_def heap_blank_def buddy_four_def buddy_alloc_def buddy_valid_order_def)
  then show ?thesis
    using kmalloc_huge [of "0x80000000" heap_small] kmalloc_huge [of "0xFFFFFFF8" heap_small]
    by (auto simp: HDR_SIZE_def)
qed

end
