(* ===== verification/LockBox.thy ===== *)
theory LockBox
  imports Prelude
begin

text \<open>
  The socket table, \<^verbatim>\<open>Networking/IPv4/LockBox/lockbox.c\<close>: 64 slots, at most 8 per remote
  address, at most 4096 buffered bytes per slot. Slot numbers are natural numbers; the
  value 64 is the code's "not found". The invariant \<open>lb_inv\<close> states the quota, that no two
  slots are claimed for the same connection, and the byte cap.
\<close>

section \<open>Model\<close>

definition LOCKBOX_CAPACITY :: nat where "LOCKBOX_CAPACITY = 64"
definition LOCKBOX_MAX_PER_IP :: nat where "LOCKBOX_MAX_PER_IP = 8"
definition LOCKBOX_MAX_BUFFERED :: nat where "LOCKBOX_MAX_BUFFERED = 4096"

datatype lockbox_result_t =
  LOCKBOX_OK | LOCKBOX_REJECT_TABLE_FULL | LOCKBOX_REJECT_IP_QUOTA | LOCKBOX_REJECT_ALREADY_EXISTS

record lockbox_entry_t =
  local_port :: u16
  remote_ip :: bytes
  remote_port :: u16
  protocol :: u8
  buffered_bytes :: u32
  in_use :: bool

record lockbox =
  table :: "lockbox_entry_t list"
  rejected_count :: u32
  generation :: "u32 list"

definition lockbox_boot :: lockbox where
  "lockbox_boot = \<lparr>table = replicate LOCKBOX_CAPACITY
       \<lparr>local_port = 0, remote_ip = [0, 0, 0, 0], remote_port = 0, protocol = 0, buffered_bytes = 0, in_use = False\<rparr>,
     rejected_count = 0, generation = replicate LOCKBOX_CAPACITY 0\<rparr>"

definition count_for_ip :: "bytes \<Rightarrow> lockbox \<Rightarrow> nat" where
  "count_for_ip ip lb = count_if (\<lambda>e. in_use e \<and> remote_ip e = ip) (table lb)"

text \<open>The loop from slot \<open>start\<close> up; 64 if no slot passes the test.\<close>

definition slot_from :: "nat \<Rightarrow> (lockbox_entry_t \<Rightarrow> bool) \<Rightarrow> lockbox \<Rightarrow> nat" where
  "slot_from start P lb =
     (case first_idx P (drop start (table lb)) of None \<Rightarrow> LOCKBOX_CAPACITY | Some i \<Rightarrow> start + i)"

definition lockbox_next_for_port :: "u16 \<Rightarrow> u8 \<Rightarrow> nat \<Rightarrow> lockbox \<Rightarrow> nat" where
  "lockbox_next_for_port port proto after_id lb =
     slot_from (if after_id \<ge> LOCKBOX_CAPACITY then 0 else after_id + 1)
       (\<lambda>e. in_use e \<and> local_port e = port \<and> protocol e = proto) lb"

definition same_connection :: "u16 \<Rightarrow> bytes \<Rightarrow> u16 \<Rightarrow> u8 \<Rightarrow> lockbox_entry_t \<Rightarrow> bool" where
  "same_connection lport rip rport proto e \<longleftrightarrow>
     in_use e \<and> local_port e = lport \<and> remote_port e = rport \<and> protocol e = proto \<and> remote_ip e = rip"

definition lockbox_find_connection :: "u16 \<Rightarrow> bytes \<Rightarrow> u16 \<Rightarrow> u8 \<Rightarrow> lockbox \<Rightarrow> nat" where
  "lockbox_find_connection lport rip rport proto lb = slot_from 0 (same_connection lport rip rport proto) lb"

definition lockbox_reject :: "lockbox \<Rightarrow> lockbox" where
  "lockbox_reject lb = lb\<lparr>rejected_count := rejected_count lb + 1\<rparr>"

text \<open>The result code, the slot written to \<^verbatim>\<open>*out_id\<close> on success, and the table.\<close>

definition lockbox_claim ::
  "u16 \<Rightarrow> bytes \<Rightarrow> u16 \<Rightarrow> u8 \<Rightarrow> lockbox \<Rightarrow> lockbox_result_t \<times> nat option \<times> lockbox" where
  "lockbox_claim lport rip rport proto lb =
     (if lockbox_find_connection lport rip rport proto lb \<noteq> LOCKBOX_CAPACITY
      then (LOCKBOX_REJECT_ALREADY_EXISTS, None, lockbox_reject lb)
      else if count_for_ip rip lb \<ge> LOCKBOX_MAX_PER_IP
      then (LOCKBOX_REJECT_IP_QUOTA, None, lockbox_reject lb)
      else case first_idx (\<lambda>e. \<not> in_use e) (table lb) of
        Some i \<Rightarrow>
          (LOCKBOX_OK, Some i,
           lb\<lparr>table := (table lb)[i := \<lparr>local_port = lport, remote_ip = rip, remote_port = rport,
                protocol = proto, buffered_bytes = 0, in_use = True\<rparr>],
              generation := (generation lb)[i := generation lb ! i + 1]\<rparr>)
      | None \<Rightarrow> (LOCKBOX_REJECT_TABLE_FULL, None, lockbox_reject lb))"

definition lockbox_deposit :: "nat \<Rightarrow> u16 \<Rightarrow> lockbox \<Rightarrow> bool \<times> lockbox" where
  "lockbox_deposit k bytes lb =
     (if k \<ge> LOCKBOX_CAPACITY \<or> \<not> in_use (table lb ! k) then (False, lb)
      else let e = table lb ! k in
        if buffered_bytes e + ucast bytes > of_nat LOCKBOX_MAX_BUFFERED then (False, lockbox_reject lb)
        else (True, lb\<lparr>table := (table lb)[k := e\<lparr>buffered_bytes := buffered_bytes e + ucast bytes\<rparr>]\<rparr>))"

definition lockbox_consume :: "nat \<Rightarrow> u16 \<Rightarrow> lockbox \<Rightarrow> lockbox" where
  "lockbox_consume k bytes lb =
     (if k \<ge> LOCKBOX_CAPACITY then lb
      else let e = table lb ! k in
        lb\<lparr>table := (table lb)[k := e\<lparr>buffered_bytes :=
          if ucast bytes > buffered_bytes e then 0 else buffered_bytes e - ucast bytes\<rparr>]\<rparr>)"

definition lockbox_release :: "nat \<Rightarrow> lockbox \<Rightarrow> lockbox" where
  "lockbox_release k lb =
     (if k < LOCKBOX_CAPACITY then lb\<lparr>table := (table lb)[k := (table lb ! k)\<lparr>in_use := False\<rparr>]\<rparr> else lb)"

definition lockbox_active_count :: "lockbox \<Rightarrow> nat" where
  "lockbox_active_count lb = count_if in_use (table lb)"

definition lockbox_rejected_count :: "lockbox \<Rightarrow> u32" where
  "lockbox_rejected_count lb = rejected_count lb"

definition lockbox_listen :: "u16 \<Rightarrow> u8 \<Rightarrow> lockbox \<Rightarrow> lockbox_result_t \<times> nat option \<times> lockbox" where
  "lockbox_listen port proto lb = lockbox_claim port [0, 0, 0, 0] 0 proto lb"

definition lockbox_get_generation :: "nat \<Rightarrow> lockbox \<Rightarrow> u32" where
  "lockbox_get_generation k lb = (if k \<ge> LOCKBOX_CAPACITY then 0 else generation lb ! k)"

definition lockbox_find_listener :: "u16 \<Rightarrow> u8 \<Rightarrow> lockbox \<Rightarrow> nat" where
  "lockbox_find_listener port proto lb =
     slot_from 0 (\<lambda>e. in_use e \<and> protocol e = proto \<and> local_port e = port) lb"

definition lockbox_get_tuple :: "nat \<Rightarrow> lockbox \<Rightarrow> (u16 \<times> bytes \<times> u16) option" where
  "lockbox_get_tuple k lb =
     (if k \<ge> LOCKBOX_CAPACITY \<or> \<not> in_use (table lb ! k) then None
      else let e = table lb ! k in Some (local_port e, remote_ip e, remote_port e))"

definition lockbox_result_string :: "lockbox_result_t \<Rightarrow> string" where
  "lockbox_result_string r =
     (case r of LOCKBOX_OK \<Rightarrow> ''OK''
      | LOCKBOX_REJECT_TABLE_FULL \<Rightarrow> ''REJECT (table full)''
      | LOCKBOX_REJECT_IP_QUOTA \<Rightarrow> ''REJECT (per-IP quota)''
      | LOCKBOX_REJECT_ALREADY_EXISTS \<Rightarrow> ''REJECT (already claimed)'')"

section \<open>Invariant\<close>

abbreviation entry_key :: "lockbox_entry_t \<Rightarrow> u16 \<times> bytes \<times> u16 \<times> u8" where
  "entry_key e \<equiv> (local_port e, remote_ip e, remote_port e, protocol e)"

definition keys_unique :: "lockbox \<Rightarrow> bool" where
  "keys_unique lb \<longleftrightarrow> (\<forall>i<length (table lb). \<forall>j<length (table lb).
     in_use (table lb ! i) \<and> in_use (table lb ! j) \<and> entry_key (table lb ! i) = entry_key (table lb ! j) \<longrightarrow> i = j)"

definition lb_inv :: "lockbox \<Rightarrow> bool" where
  "lb_inv lb \<longleftrightarrow> length (table lb) = LOCKBOX_CAPACITY \<and> length (generation lb) = LOCKBOX_CAPACITY \<and>
     keys_unique lb \<and> (\<forall>ip. count_for_ip ip lb \<le> LOCKBOX_MAX_PER_IP) \<and>
     (\<forall>e\<in>set (table lb). unat (buffered_bytes e) \<le> LOCKBOX_MAX_BUFFERED)"

lemma lb_invD:
  assumes "lb_inv lb"
  shows "length (table lb) = 64" "length (generation lb) = 64" "keys_unique lb"
    "count_for_ip ip lb \<le> 8" "i < 64 \<Longrightarrow> unat (buffered_bytes (table lb ! i)) \<le> 4096"
  using assms by (auto simp: lb_inv_def LOCKBOX_CAPACITY_def LOCKBOX_MAX_PER_IP_def LOCKBOX_MAX_BUFFERED_def)

lemma lb_invI:
  assumes "length (table lb) = 64" "length (generation lb) = 64" "keys_unique lb"
    "\<And>ip. count_for_ip ip lb \<le> 8" "\<And>i. i < 64 \<Longrightarrow> unat (buffered_bytes (table lb ! i)) \<le> 4096"
  shows "lb_inv lb"
  using assms
  by (auto simp: lb_inv_def LOCKBOX_CAPACITY_def LOCKBOX_MAX_PER_IP_def LOCKBOX_MAX_BUFFERED_def all_set_conv_all_nth)

lemma lb_inv_boot: "lb_inv lockbox_boot"
  by (rule lb_invI) (auto simp: lockbox_boot_def LOCKBOX_CAPACITY_def keys_unique_def count_for_ip_def)

lemma lb_inv_reject [simp]: "lb_inv (lockbox_reject lb) = lb_inv lb"
  by (simp add: lb_inv_def lockbox_reject_def keys_unique_def count_for_ip_def)

text \<open>Rewriting one entry, keeping its key and use.\<close>

lemma lb_inv_rewrite:
  assumes "lb_inv lb" "i < 64" "in_use e' \<longrightarrow> in_use (table lb ! i)"
    and "entry_key e' = entry_key (table lb ! i)" "unat (buffered_bytes e') \<le> 4096"
  shows "lb_inv (lb\<lparr>table := (table lb)[i := e']\<rparr>)"
proof (rule lb_invI)
  note inv = lb_invD [OF assms(1)]
  have old: "in_use ((table lb)[i := e'] ! a) \<Longrightarrow> in_use (table lb ! a)"
    "entry_key ((table lb)[i := e'] ! a) = entry_key (table lb ! a)" for a
    using assms(2-4) inv(1) by (cases "a = i"; simp)+
  show "keys_unique (lb\<lparr>table := (table lb)[i := e']\<rparr>)"
    using inv(3) old unfolding keys_unique_def by simp
  show "count_for_ip ip (lb\<lparr>table := (table lb)[i := e']\<rparr>) \<le> 8" for ip
  proof -
    have "count_if (\<lambda>e. in_use e \<and> remote_ip e = ip) ((table lb)[i := e'])
        \<le> count_if (\<lambda>e. in_use e \<and> remote_ip e = ip) (table lb)"
      using assms(3,4) by (intro count_if_update_le) auto
    then show ?thesis using inv(4) [of ip] by (simp add: count_for_ip_def)
  qed
qed (use lb_invD [OF assms(1)] assms(2,5) in \<open>auto simp: nth_list_update\<close>)

lemma lb_inv_release: "lb_inv lb \<Longrightarrow> lb_inv (lockbox_release k lb)"
  using lb_inv_rewrite [of lb k "(table lb ! k)\<lparr>in_use := False\<rparr>"] lb_invD(5) [of lb k]
  by (simp add: lockbox_release_def LOCKBOX_CAPACITY_def)

lemma lb_inv_consume: "lb_inv lb \<Longrightarrow> lb_inv (lockbox_consume k bytes lb)"
proof (cases "k < 64")
  case True
  assume inv: "lb_inv lb"
  let ?e = "table lb ! k"
  have "unat (buffered_bytes ?e - ucast bytes) \<le> 4096" if "\<not> ucast bytes > buffered_bytes ?e"
    using lb_invD(5) [OF inv True] that by (simp add: unat_sub not_less)
  then show ?thesis
    using lb_inv_rewrite [OF inv True] True inv
    by (simp add: lockbox_consume_def LOCKBOX_CAPACITY_def Let_def)
qed (simp add: lockbox_consume_def LOCKBOX_CAPACITY_def)

lemma unat_deposit:
  assumes "lb_inv lb" "k < 64"
  shows "unat (buffered_bytes (table lb ! k) + ucast (bytes :: u16)) = unat (buffered_bytes (table lb ! k)) + unat bytes"
proof -
  have "unat bytes < 2 ^ 16" using unsigned_less [of bytes] by simp
  then show ?thesis
    using lb_invD(5) [OF assms] by (intro trans [OF unat_add_no_wrap]) simp_all
qed

lemma lockbox_deposit_cases:
  assumes "lb_inv lb" "k < 64"
  shows "lockbox_deposit k bytes lb =
    (if \<not> in_use (table lb ! k) then (False, lb)
     else if unat (buffered_bytes (table lb ! k)) + unat bytes > 4096 then (False, lockbox_reject lb)
     else (True, lb\<lparr>table := (table lb)[k := (table lb ! k)\<lparr>buffered_bytes :=
            buffered_bytes (table lb ! k) + ucast bytes\<rparr>]\<rparr>))"
  using unat_deposit [OF assms, of bytes] assms(2)
  by (simp add: lockbox_deposit_def LOCKBOX_CAPACITY_def LOCKBOX_MAX_BUFFERED_def word_less_nat_alt Let_def)

lemma lb_inv_deposit: "lb_inv lb \<Longrightarrow> lb_inv (snd (lockbox_deposit k bytes lb))"
proof (cases "k < 64")
  case True
  assume inv: "lb_inv lb"
  show ?thesis
    using lockbox_deposit_cases [OF inv True, of bytes] inv unat_deposit [OF inv True, of bytes]
      lb_inv_rewrite [OF inv True] by simp
qed (simp add: lockbox_deposit_def LOCKBOX_CAPACITY_def)

section \<open>Lookups and claims\<close>

lemma slot_from_0:
  assumes "length (table lb) = 64"
  shows "slot_from 0 P lb = (case first_idx P (table lb) of None \<Rightarrow> 64 | Some i \<Rightarrow> i)"
    and "slot_from 0 P lb = 64 \<longleftrightarrow> (\<forall>e\<in>set (table lb). \<not> P e)"
    and "slot_from 0 P lb \<noteq> 64 \<Longrightarrow> slot_from 0 P lb < 64 \<and> P (table lb ! slot_from 0 P lb)"
proof -
  show eq: "slot_from 0 P lb = (case first_idx P (table lb) of None \<Rightarrow> 64 | Some i \<Rightarrow> i)"
    by (simp add: slot_from_def LOCKBOX_CAPACITY_def split: option.splits)
  show "slot_from 0 P lb = 64 \<longleftrightarrow> (\<forall>e\<in>set (table lb). \<not> P e)"
    using assms first_idx_less [of P "table lb"] by (auto simp: eq first_idx_None split: option.splits)
  show "slot_from 0 P lb < 64 \<and> P (table lb ! slot_from 0 P lb)" if "slot_from 0 P lb \<noteq> 64"
    using that assms first_idx_less [of P "table lb"] first_idx_holds [of P "table lb"]
    by (auto simp: eq split: option.splits)
qed

text \<open>The table after slot \<open>i\<close> is claimed.\<close>

definition claimed :: "nat \<Rightarrow> u16 \<Rightarrow> bytes \<Rightarrow> u16 \<Rightarrow> u8 \<Rightarrow> lockbox \<Rightarrow> lockbox" where
  "claimed i lport rip rport proto lb =
     lb\<lparr>table := (table lb)[i := \<lparr>local_port = lport, remote_ip = rip, remote_port = rport,
            protocol = proto, buffered_bytes = 0, in_use = True\<rparr>],
        generation := (generation lb)[i := generation lb ! i + 1]\<rparr>"

lemma lb_inv_claimed:
  assumes inv: "lb_inv lb" and i: "i < 64" "\<not> in_use (table lb ! i)"
    and new: "\<forall>e\<in>set (table lb). \<not> same_connection lport rip rport proto e" and q: "count_for_ip rip lb < 8"
  shows "lb_inv (claimed i lport rip rport proto lb)"
proof (rule lb_invI)
  note D = lb_invD [OF inv]
  let ?e = "\<lparr>local_port = lport, remote_ip = rip, remote_port = rport, protocol = proto,
      buffered_bytes = 0, in_use = True\<rparr>"
  have fresh: "\<not> (in_use (table lb ! j) \<and> entry_key (table lb ! j) = (lport, rip, rport, proto))" if "j < 64" for j
    using new that D(1) by (auto simp: same_connection_def all_set_conv_all_nth)
  show "keys_unique (claimed i lport rip rport proto lb)"
    using D(1,3) i fresh unfolding keys_unique_def claimed_def by (auto simp: nth_list_update)
  show "count_for_ip ip (claimed i lport rip rport proto lb) \<le> 8" for ip
    using count_if_update [of i "table lb" "\<lambda>e. in_use e \<and> remote_ip e = ip" ?e] D(1) D(4) [of ip] q i
    by (auto simp: count_for_ip_def claimed_def split: if_splits)
qed (use lb_invD [OF inv] i in \<open>auto simp: claimed_def nth_list_update\<close>)

lemma lockbox_claim_cases:
  assumes "lb_inv lb"
  shows "lockbox_claim lport rip rport proto lb =
    (if \<exists>e\<in>set (table lb). same_connection lport rip rport proto e
     then (LOCKBOX_REJECT_ALREADY_EXISTS, None, lockbox_reject lb)
     else if count_for_ip rip lb = 8 then (LOCKBOX_REJECT_IP_QUOTA, None, lockbox_reject lb)
     else case first_idx (\<lambda>e. \<not> in_use e) (table lb) of
       None \<Rightarrow> (LOCKBOX_REJECT_TABLE_FULL, None, lockbox_reject lb)
     | Some i \<Rightarrow> (LOCKBOX_OK, Some i, claimed i lport rip rport proto lb))"
  using lb_invD(1) [OF assms] lb_invD(4) [OF assms, of rip] slot_from_0(2) [of lb "same_connection lport rip rport proto"]
  by (auto simp: lockbox_claim_def lockbox_find_connection_def LOCKBOX_CAPACITY_def LOCKBOX_MAX_PER_IP_def
      claimed_def split: option.splits)

lemma lb_inv_claim:
  assumes "lb_inv lb"
  shows "lb_inv (snd (snd (lockbox_claim lport rip rport proto lb)))"
proof -
  have "lb_inv (claimed i lport rip rport proto lb)"
    if "first_idx (\<lambda>e. \<not> in_use e) (table lb) = Some i" "\<forall>e\<in>set (table lb). \<not> same_connection lport rip rport proto e"
      "count_for_ip rip lb \<noteq> 8" for i
    using lb_inv_claimed [OF assms _ _ that(2)] first_idx_less [OF that(1)] first_idx_holds [OF that(1)]
      lb_invD(1) [OF assms] lb_invD(4) [OF assms, of rip] that(3) by simp
  then show ?thesis using assms by (auto simp: lockbox_claim_cases [OF assms] split: option.splits)
qed

lemma find_claimed:
  assumes inv: "lb_inv lb" and i: "i < 64" "\<not> in_use (table lb ! i)"
    and new: "\<forall>e\<in>set (table lb). \<not> same_connection lport rip rport proto e"
  shows "lockbox_find_connection lport rip rport proto (claimed i lport rip rport proto lb) = i"
proof -
  have len: "length (table lb) = 64" by (rule lb_invD(1) [OF inv])
  have "first_idx (same_connection lport rip rport proto) (table (claimed i lport rip rport proto lb)) = Some i"
  proof (rule first_idx_unique)
    fix j
    assume j: "j < length (table (claimed i lport rip rport proto lb))"
      "same_connection lport rip rport proto (table (claimed i lport rip rport proto lb) ! j)"
    show "j = i"
    proof (rule ccontr)
      assume "j \<noteq> i"
      then show False using j new len by (auto simp: claimed_def all_set_conv_all_nth)
    qed
  qed (use len i in \<open>auto simp: claimed_def same_connection_def\<close>)
  then show ?thesis
    using slot_from_0(1) [of "claimed i lport rip rport proto lb"] len
    by (simp add: lockbox_find_connection_def claimed_def)
qed

lemma claim_boot:
  "lockbox_claim lport rip rport proto lockbox_boot = (LOCKBOX_OK, Some 0, claimed 0 lport rip rport proto lockbox_boot)"
  unfolding lockbox_claim_cases [OF lb_inv_boot]
  by (simp add: lockbox_boot_def count_for_ip_def same_connection_def LOCKBOX_CAPACITY_def)

section \<open>Sequences of operations\<close>

text \<open>Every sequence of socket operations, from any client, keeps the invariant.\<close>

datatype lb_op = Claim u16 bytes u16 u8 | Deposit nat u16 | Consume nat u16 | Release nat

fun lb_step :: "lb_op \<Rightarrow> lockbox \<Rightarrow> lockbox" where
  "lb_step (Claim lport rip rport proto) lb = snd (snd (lockbox_claim lport rip rport proto lb))"
| "lb_step (Deposit k n) lb = snd (lockbox_deposit k n lb)"
| "lb_step (Consume k n) lb = lockbox_consume k n lb"
| "lb_step (Release k) lb = lockbox_release k lb"

lemma lb_inv_run: "lb_inv lb \<Longrightarrow> lb_inv (fold lb_step ops lb)"
proof (induction ops arbitrary: lb)
  case (Cons op ops)
  then have "lb_inv (lb_step op lb)"
    by (cases op) (simp_all add: lb_inv_claim lb_inv_deposit lb_inv_consume lb_inv_release)
  then show ?case using Cons.IH by simp
qed simp

section \<open>Properties\<close>

text \<open>C14. After any sequence of claims, deposits, reads and releases, no remote address holds more
  than 8 sockets, no connection is claimed twice, and no socket has more than 4096 bytes
  buffered.\<close>

theorem lockbox_quotas:
  "count_for_ip ip (fold lb_step ops lockbox_boot) \<le> 8 \<and>
   keys_unique (fold lb_step ops lockbox_boot) \<and>
   list_all (\<lambda>e. unat (buffered_bytes e) \<le> 4096) (table (fold lb_step ops lockbox_boot))"
  using lb_invD [OF lb_inv_run [OF lb_inv_boot, of ops]] by (simp add: list_all_length)

text \<open>A claim succeeds exactly when the connection is new, its address is below the quota and a
  slot is free; it then takes a slot that was free, leaves the others alone, starts with no
  buffered bytes and a new generation, and a lookup of the connection finds that slot. A
  refused claim only counts the rejection.\<close>

theorem lockbox_claim_spec:
  assumes "lb_inv lb"
  shows "case lockbox_claim lport rip rport proto lb of
    (LOCKBOX_OK, Some i, lb') \<Rightarrow>
      i < 64 \<and> \<not> in_use (table lb ! i) \<and> table lb' = (table lb)[i := table lb' ! i] \<and>
      lockbox_get_tuple i lb' = Some (lport, rip, rport) \<and> buffered_bytes (table lb' ! i) = 0 \<and>
      lockbox_get_generation i lb' = lockbox_get_generation i lb + 1 \<and>
      lockbox_find_connection lport rip rport proto lb' = i \<and>
      lockbox_active_count lb' = lockbox_active_count lb + 1
  | (r, out, lb') \<Rightarrow> r \<noteq> LOCKBOX_OK \<and> out = None \<and> lb' = lockbox_reject lb \<and>
      (lockbox_find_connection lport rip rport proto lb < 64 \<or> count_for_ip rip lb = 8 \<or>
       lockbox_active_count lb = 64)"
proof -
  note D = lb_invD [OF assms]
  have found: "lockbox_find_connection lport rip rport proto lb < 64"
    if "\<exists>e\<in>set (table lb). same_connection lport rip rport proto e"
    using slot_from_0(2,3) [OF D(1), of "same_connection lport rip rport proto"] that
    by (auto simp: lockbox_find_connection_def)
  have full: "lockbox_active_count lb = 64" if "first_idx (\<lambda>e. \<not> in_use e) (table lb) = None"
    using that count_if_full [of in_use "table lb"] D(1) by (simp add: first_idx_None lockbox_active_count_def)
  have ok: "i < 64 \<and> \<not> in_use (table lb ! i)" if "first_idx (\<lambda>e. \<not> in_use e) (table lb) = Some i" for i
    using first_idx_less [OF that] first_idx_holds [OF that] D(1) by simp
  show ?thesis
    using found full ok find_claimed [OF assms] D(1,2) count_if_set [of _ "table lb" in_use]
    by (auto simp: lockbox_claim_cases [OF assms] claimed_def lockbox_get_tuple_def lockbox_get_generation_def
        LOCKBOX_CAPACITY_def lockbox_active_count_def split: option.splits)
qed

theorem lockbox_claim_spec_witness:
  "case lockbox_claim 80 [10, 0, 0, 2] 4000 6 lockbox_boot of
    (LOCKBOX_OK, Some i, lb') \<Rightarrow> lockbox_get_tuple i lb' = Some (80, [10, 0, 0, 2], 4000)
  | _ \<Rightarrow> False"
  using lockbox_claim_spec [OF lb_inv_boot, of 80 "[10, 0, 0, 2]" 4000 6] by (simp add: claim_boot)

end
