(* ===== verification/Inbox.thy ===== *)
theory Inbox
  imports LockBox Interfaces
begin

text \<open>
  The receive buffers of TCP sockets, \<^verbatim>\<open>Networking/IPv4/Inbox/inbox.c\<close>: a ring of 4096 bytes
  per socket, emptied lazily when the socket's generation has moved on. Each socket in use
  provides the \<open>byte_stream\<close> contract of theory \<open>Interfaces\<close> on the pair of the inbox and the
  socket table, whose byte count it shares.
\<close>

section \<open>Model\<close>

record inbox_slot =
  storage :: bytes
  write_pos :: nat
  read_pos :: nat
  count :: nat
  seen_generation :: u32

type_synonym inbox = "inbox_slot list"

definition inbox_boot :: inbox where
  "inbox_boot = replicate LOCKBOX_CAPACITY
     \<lparr>storage = replicate LOCKBOX_MAX_BUFFERED 0, write_pos = 0, read_pos = 0, count = 0, seen_generation = 0\<rparr>"

definition reset_if_stale :: "u32 \<Rightarrow> inbox_slot \<Rightarrow> inbox_slot" where
  "reset_if_stale gen s =
     (if seen_generation s \<noteq> gen
      then s\<lparr>write_pos := 0, read_pos := 0, count := 0, seen_generation := gen\<rparr> else s)"

fun inbox_write :: "bytes \<Rightarrow> inbox_slot \<Rightarrow> inbox_slot" where
  "inbox_write [] s = s"
| "inbox_write (b # bs) s =
     inbox_write bs (s\<lparr>storage := (storage s)[write_pos s := b],
                       write_pos := (write_pos s + 1) mod LOCKBOX_MAX_BUFFERED\<rparr>)"

definition inbox_deposit :: "nat \<Rightarrow> bytes \<Rightarrow> u16 \<Rightarrow> inbox \<times> lockbox \<Rightarrow> bool \<times> inbox \<times> lockbox" where
  "inbox_deposit conn payload len st =
     (case st of (ib, lb) \<Rightarrow>
        if conn \<ge> LOCKBOX_CAPACITY then (False, ib, lb)
        else
          let s = reset_if_stale (lockbox_get_generation conn lb) (ib ! conn);
              (ok, lb') = lockbox_deposit conn len lb
          in if \<not> ok then (False, ib[conn := s], lb')
             else
               let s' = inbox_write (take (unat len) payload) s
               in (True, ib[conn := s'\<lparr>count := (count s' + unat len) mod 65536\<rparr>], lb'))"

fun inbox_take :: "nat \<Rightarrow> inbox_slot \<Rightarrow> bytes \<times> inbox_slot" where
  "inbox_take 0 s = ([], s)"
| "inbox_take (Suc n) s =
     (let (bs, s') = inbox_take n (s\<lparr>read_pos := (read_pos s + 1) mod LOCKBOX_MAX_BUFFERED\<rparr>)
      in (storage s ! read_pos s # bs, s'))"

text \<open>The bytes written to \<^verbatim>\<open>out\<close>; their number is the value returned.\<close>

definition inbox_read :: "nat \<Rightarrow> u16 \<Rightarrow> inbox \<times> lockbox \<Rightarrow> bytes \<times> inbox \<times> lockbox" where
  "inbox_read conn max_len st =
     (case st of (ib, lb) \<Rightarrow>
        if conn \<ge> LOCKBOX_CAPACITY then ([], ib, lb)
        else
          let s = reset_if_stale (lockbox_get_generation conn lb) (ib ! conn);
              n = (if unat max_len < count s then unat max_len else count s);
              (out, s') = inbox_take n s
          in (out, ib[conn := s'\<lparr>count := count s' - n\<rparr>],
              if n > 0 then lockbox_consume conn (of_nat n) lb else lb))"

definition inbox_available :: "nat \<Rightarrow> inbox \<times> lockbox \<Rightarrow> nat \<times> inbox \<times> lockbox" where
  "inbox_available conn st =
     (case st of (ib, lb) \<Rightarrow>
        if conn \<ge> LOCKBOX_CAPACITY then (0, ib, lb)
        else let s = reset_if_stale (lockbox_get_generation conn lb) (ib ! conn)
          in (count s, ib[conn := s], lb))"

section \<open>One ring\<close>

definition slot_ok :: "inbox_slot \<Rightarrow> bool" where
  "slot_ok s \<longleftrightarrow> length (storage s) = LOCKBOX_MAX_BUFFERED \<and> read_pos s < LOCKBOX_MAX_BUFFERED \<and>
     count s \<le> LOCKBOX_MAX_BUFFERED \<and> write_pos s = (read_pos s + count s) mod LOCKBOX_MAX_BUFFERED"

definition slot_bytes :: "inbox_slot \<Rightarrow> bytes" where
  "slot_bytes s = ring_read (storage s) (read_pos s) (count s)"

lemma slot_okD:
  assumes "slot_ok s"
  shows "length (storage s) = 4096" "read_pos s < 4096" "count s \<le> 4096"
    "write_pos s = (read_pos s + count s) mod 4096"
  using assms by (simp_all add: slot_ok_def LOCKBOX_MAX_BUFFERED_def)

lemma slot_ok_reset: "slot_ok s \<Longrightarrow> slot_ok (reset_if_stale gen s)"
  by (simp add: reset_if_stale_def slot_ok_def LOCKBOX_MAX_BUFFERED_def)

lemma inbox_write_keeps [simp]:
  "read_pos (inbox_write bs s) = read_pos s" "count (inbox_write bs s) = count s"
  "seen_generation (inbox_write bs s) = seen_generation s"
  by (induction bs arbitrary: s) simp_all

lemma inbox_write_count: "inbox_write bs (t\<lparr>count := d\<rparr>) = (inbox_write bs t)\<lparr>count := d\<rparr>"
proof (induction bs arbitrary: t)
  case (Cons b bs)
  have eq: "t\<lparr>count := d\<rparr>\<lparr>storage := (storage (t\<lparr>count := d\<rparr>))[write_pos (t\<lparr>count := d\<rparr>) := b],
      write_pos := (write_pos (t\<lparr>count := d\<rparr>) + 1) mod LOCKBOX_MAX_BUFFERED\<rparr> =
    t\<lparr>storage := (storage t)[write_pos t := b], write_pos := (write_pos t + 1) mod LOCKBOX_MAX_BUFFERED\<rparr>\<lparr>count := d\<rparr>"
    by (cases t) simp
  show ?case by (simp only: inbox_write.simps eq Cons)
qed simp

lemma inbox_write_append:
  assumes "slot_ok s" "count s + length bs \<le> 4096"
  shows "slot_ok ((inbox_write bs s)\<lparr>count := count s + length bs\<rparr>) \<and>
    slot_bytes ((inbox_write bs s)\<lparr>count := count s + length bs\<rparr>) = slot_bytes s @ bs"
  using assms
proof (induction bs arbitrary: s)
  case Nil
  then show ?case by simp
next
  case (Cons b bs)
  note D = slot_okD [OF Cons.prems(1)]
  define s1 where "s1 = s\<lparr>storage := (storage s)[write_pos s := b],
    write_pos := (write_pos s + 1) mod LOCKBOX_MAX_BUFFERED, count := count s + 1\<rparr>"
  have ok1: "slot_ok s1"
    using D Cons.prems(2) by (simp add: s1_def slot_ok_def LOCKBOX_MAX_BUFFERED_def mod_Suc_eq)
  have "slot_bytes s1 = slot_bytes s @ [b]"
    using ring_read_push [of "count s" "storage s" "read_pos s" b] D Cons.prems(2)
    by (simp add: s1_def slot_bytes_def)
  moreover have "(inbox_write (b # bs) s)\<lparr>count := c\<rparr> = (inbox_write bs s1)\<lparr>count := c\<rparr>" for c
    by (simp add: s1_def inbox_write_count)
  moreover have "count s1 = count s + 1" by (simp add: s1_def)
  ultimately show ?case using Cons.IH [OF ok1] Cons.prems(2) by simp
qed

lemma inbox_take_prefix:
  assumes "length (storage s) = 4096" "read_pos s < 4096"
  shows "fst (inbox_take n s) = ring_read (storage s) (read_pos s) n \<and>
    snd (inbox_take n s) = s\<lparr>read_pos := (read_pos s + n) mod 4096\<rparr>"
  using assms
proof (induction n arbitrary: s)
  case 0
  then show ?case by simp
next
  case (Suc n)
  have "fst (inbox_take (Suc n) s) = ring_read (storage s) (read_pos s) (Suc n)"
    using Suc.IH [of "s\<lparr>read_pos := (read_pos s + 1) mod 4096\<rparr>"] Suc.prems ring_read_pop [of "read_pos s" "storage s" n]
    by (simp add: LOCKBOX_MAX_BUFFERED_def case_prod_beta)
  moreover have "snd (inbox_take (Suc n) s) = s\<lparr>read_pos := (read_pos s + Suc n) mod 4096\<rparr>"
    using Suc.IH [of "s\<lparr>read_pos := (read_pos s + 1) mod 4096\<rparr>"] Suc.prems
    by (simp add: LOCKBOX_MAX_BUFFERED_def mod_add_left_eq case_prod_beta)
  ultimately show ?case by simp
qed

section \<open>The stream of a socket\<close>

text \<open>What a socket's buffer holds, given the socket's generation.\<close>

definition inbox_bytes :: "nat \<Rightarrow> inbox \<times> lockbox \<Rightarrow> bytes" where
  "inbox_bytes k st = slot_bytes (reset_if_stale (lockbox_get_generation k (snd st)) (fst st ! k))"

text \<open>The inbox and the socket table agree on every socket.\<close>

definition inbox_inv :: "inbox \<times> lockbox \<Rightarrow> bool" where
  "inbox_inv st \<longleftrightarrow> lb_inv (snd st) \<and> length (fst st) = LOCKBOX_CAPACITY \<and>
     (\<forall>k<LOCKBOX_CAPACITY. slot_ok (fst st ! k) \<and>
        unat (buffered_bytes (table (snd st) ! k)) = length (inbox_bytes k st))"

definition open_inv :: "nat \<Rightarrow> inbox \<times> lockbox \<Rightarrow> bool" where
  "open_inv k st \<longleftrightarrow> inbox_inv st \<and> k < LOCKBOX_CAPACITY \<and> in_use (table (snd st) ! k)"

lemma inbox_invD:
  assumes "inbox_inv (ib, lb)"
  shows "lb_inv lb" "length ib = 64" "k < 64 \<Longrightarrow> slot_ok (ib ! k)"
    "k < 64 \<Longrightarrow> unat (buffered_bytes (table lb ! k)) = length (inbox_bytes k (ib, lb))"
  using assms by (simp_all add: inbox_inv_def LOCKBOX_CAPACITY_def)

text \<open>Rewriting one socket's slot together with its byte count.\<close>

lemma inbox_inv_rewrite:
  assumes "inbox_inv (ib, lb)" "k < 64" "slot_ok s'" "seen_generation s' = generation lb ! k"
    and "unat n = length (slot_bytes s')" "unat n \<le> 4096"
  shows "inbox_inv (ib[k := s'], lb\<lparr>table := (table lb)[k := (table lb ! k)\<lparr>buffered_bytes := n\<rparr>]\<rparr>)"
    and "inbox_bytes k (ib[k := s'], lb\<lparr>table := (table lb)[k := (table lb ! k)\<lparr>buffered_bytes := n\<rparr>]\<rparr>) = slot_bytes s'"
proof -
  note D = inbox_invD [OF assms(1)]
  define lb' where "lb' = lb\<lparr>table := (table lb)[k := (table lb ! k)\<lparr>buffered_bytes := n\<rparr>]\<rparr>"
  have gen: "lockbox_get_generation j lb' = lockbox_get_generation j lb" for j
    by (simp add: lb'_def lockbox_get_generation_def)
  have lb': "lb_inv lb'"
    unfolding lb'_def using assms(2,6) by (intro lb_inv_rewrite [OF D(1)]) simp_all
  show view: "inbox_bytes k (ib[k := s'], lb') = slot_bytes s'"
    using assms(2,4) D(2) by (simp add: inbox_bytes_def gen lb'_def lockbox_get_generation_def LOCKBOX_CAPACITY_def reset_if_stale_def)
  have "inbox_bytes j (ib[k := s'], lb') = inbox_bytes j (ib, lb)" if "j \<noteq> k" for j
    using that by (simp add: inbox_bytes_def gen)
  then have "unat (buffered_bytes (table lb' ! j)) = length (inbox_bytes j (ib[k := s'], lb'))" if "j < 64" for j
    using D(4) [OF that] by (cases "j = k") (use view assms(2,5) lb_invD(1) [OF D(1)] in \<open>simp_all add: lb'_def\<close>)
  then show "inbox_inv (ib[k := s'], lb')"
    using lb' D(2,3) assms(2,3) by (auto simp: inbox_inv_def LOCKBOX_CAPACITY_def nth_list_update)
qed

lemma inbox_slot_fresh:
  assumes "inbox_inv (ib, lb)" "k < 64"
  defines "s \<equiv> reset_if_stale (lockbox_get_generation k lb) (ib ! k)"
  shows "slot_ok s" "seen_generation s = generation lb ! k" "slot_bytes s = inbox_bytes k (ib, lb)"
    "count s = length (inbox_bytes k (ib, lb))" "count s \<le> 4096"
proof -
  show ok: "slot_ok s" unfolding s_def by (rule slot_ok_reset [OF inbox_invD(3) [OF assms(1,2)]])
  show "seen_generation s = generation lb ! k"
    using assms(2) by (simp add: s_def reset_if_stale_def lockbox_get_generation_def LOCKBOX_CAPACITY_def)
  show "slot_bytes s = inbox_bytes k (ib, lb)" by (simp add: s_def inbox_bytes_def)
  then show "count s = length (inbox_bytes k (ib, lb))" by (metis slot_bytes_def ring_read_length)
  show "count s \<le> 4096" by (rule slot_okD(3) [OF ok])
qed

lemma inbox_deposit_spec:
  assumes inv: "inbox_inv (ib, lb)" and k: "k < 64" and len: "length payload = unat len"
  shows "case inbox_deposit k payload len (ib, lb) of (ok, st') \<Rightarrow>
    inbox_inv st' \<and> (ok \<longleftrightarrow> in_use (table lb ! k) \<and> length (inbox_bytes k (ib, lb)) + length payload \<le> 4096) \<and>
    inbox_bytes k st' = inbox_bytes k (ib, lb) @ (if ok then payload else []) \<and>
    in_use (table (snd st') ! k) = in_use (table lb ! k)"
proof -
  note D = inbox_invD [OF inv]
  define s where "s = reset_if_stale (lockbox_get_generation k lb) (ib ! k)"
  note S = inbox_slot_fresh [OF inv k, folded s_def]
  have buf: "unat (buffered_bytes (table lb ! k)) = count s" using D(4) [OF k] S(4) by simp
  define ok where "ok \<longleftrightarrow> in_use (table lb ! k) \<and> count s + length payload \<le> 4096"
  have same: "lb\<lparr>table := (table lb)[k := (table lb ! k)\<lparr>buffered_bytes := buffered_bytes (table lb ! k)\<rparr>]\<rparr> = lb"
    by (simp add: list_update_id)
  show ?thesis
  proof (cases ok)
    case True
    define s' where "s' = (inbox_write payload s)\<lparr>count := count s + length payload\<rparr>"
    have w: "slot_ok s'" "slot_bytes s' = slot_bytes s @ payload"
      using inbox_write_append [OF S(1), of payload] True by (auto simp: s'_def ok_def)
    define n where "n = buffered_bytes (table lb ! k) + ucast len"
    have n: "unat n = count s + length payload"
      using unat_deposit [OF D(1) k, of len] buf len by (simp add: n_def)
    have run: "inbox_deposit k payload len (ib, lb) =
        (True, ib[k := s'], lb\<lparr>table := (table lb)[k := (table lb ! k)\<lparr>buffered_bytes := n\<rparr>]\<rparr>)"
      using True k len buf lockbox_deposit_cases [OF D(1) k, of len]
      by (simp add: inbox_deposit_def LOCKBOX_CAPACITY_def Let_def s_def [symmetric] s'_def ok_def n_def)
    have "inbox_inv (ib[k := s'], lb\<lparr>table := (table lb)[k := (table lb ! k)\<lparr>buffered_bytes := n\<rparr>]\<rparr>)"
      "inbox_bytes k (ib[k := s'], lb\<lparr>table := (table lb)[k := (table lb ! k)\<lparr>buffered_bytes := n\<rparr>]\<rparr>) = slot_bytes s'"
      using S(2,3,4) w n True by (intro inbox_inv_rewrite [OF inv k w(1)]; simp add: s'_def ok_def)+
    then show ?thesis using run True S(3,4) w(2) lb_invD(1) [OF D(1)] k by (simp add: ok_def)
  next
    case False
    define lb' where "lb' = (if in_use (table lb ! k) then lockbox_reject lb else lb)"
    have lb': "lockbox_deposit k len lb = (False, lb')" "lb' = lb \<or> lb' = lockbox_reject lb"
      using False lockbox_deposit_cases [OF D(1) k, of len] buf len by (auto simp: ok_def lb'_def)
    have run: "inbox_deposit k payload len (ib, lb) = (False, ib[k := s], lb')"
      using lb'(1) k by (simp add: inbox_deposit_def LOCKBOX_CAPACITY_def s_def)
    have st: "inbox_inv (ib[k := s], lb)" "inbox_bytes k (ib[k := s], lb) = slot_bytes s"
      using inbox_inv_rewrite [OF inv k S(1,2), of "buffered_bytes (table lb ! k)"] buf S(3,4,5) by (simp_all add: same)
    moreover have "inbox_inv (ib[k := s], lockbox_reject lb) = inbox_inv (ib[k := s], lb)"
      "inbox_bytes k (ib[k := s], lockbox_reject lb) = inbox_bytes k (ib[k := s], lb)"
      by (simp_all add: inbox_inv_def inbox_bytes_def lockbox_get_generation_def)
        (simp_all add: lockbox_reject_def)
    ultimately show ?thesis using run lb'(2) False S(3,4)
      by (auto simp: ok_def lockbox_reject_def)
  qed
qed

lemma unat_buffered_sub:
  fixes b :: u32
  assumes "unat b = c" "n \<le> c" "c \<le> 4096"
  shows "unat (b - ucast (of_nat n :: u16)) = c - n" "\<not> ucast (of_nat n :: u16) > b"
proof -
  have n: "unat (ucast (of_nat n :: u16) :: u32) = n" using assms(2,3) by (simp add: unat_of_nat)
  then show "\<not> ucast (of_nat n :: u16) > b" using assms(1,2) by (simp add: word_less_nat_alt)
  then show "unat (b - ucast (of_nat n :: u16)) = c - n" using n assms(1) by (simp add: unat_sub not_less)
qed

lemma inbox_read_eq:
  assumes "k < 64"
  defines "s \<equiv> \<lambda>ib lb. reset_if_stale (lockbox_get_generation k lb) (ib ! k)"
  defines "n \<equiv> \<lambda>max_len ib lb. min (unat max_len) (count (s ib lb))"
  shows "inbox_read k max_len (ib, lb) =
    (let (out, s') = inbox_take (n max_len ib lb) (s ib lb)
     in (out, ib[k := s'\<lparr>count := count s' - n max_len ib lb\<rparr>],
         if n max_len ib lb > 0 then lockbox_consume k (of_nat (n max_len ib lb)) lb else lb))"
proof -
  have "(if a < b then a else b) = min a b" for a b :: nat by simp
  then show ?thesis using assms(1) by (simp only: inbox_read_def LOCKBOX_CAPACITY_def Let_def s_def n_def prod.case not_le [symmetric]) simp
qed

lemma inbox_read_spec:
  assumes inv: "inbox_inv (ib, lb)" and k: "k < 64"
  shows "case inbox_read k max_len (ib, lb) of (out, st') \<Rightarrow>
    inbox_inv st' \<and> out = take (unat max_len) (inbox_bytes k (ib, lb)) \<and>
    inbox_bytes k st' = drop (unat max_len) (inbox_bytes k (ib, lb)) \<and>
    in_use (table (snd st') ! k) = in_use (table lb ! k)"
proof -
  note D = inbox_invD [OF inv]
  define s where "s = reset_if_stale (lockbox_get_generation k lb) (ib ! k)"
  note S = inbox_slot_fresh [OF inv k, folded s_def] and R = slot_okD [OF S(1)]
  have buf: "unat (buffered_bytes (table lb ! k)) = count s" using D(4) [OF k] S(4) by simp
  define n where "n = min (unat max_len) (count s)"
  define s' where "s' = s\<lparr>read_pos := (read_pos s + n) mod 4096, count := count s - n\<rparr>"
  have n: "n \<le> count s" by (simp add: n_def)
  obtain d where d: "count s = n + d" using n le_Suc_ex by blast
  then have "count s' = d" "write_pos s' = (read_pos s + n + d) mod 4096"
    using R(4) by (simp_all add: s'_def add.assoc)
  then have ok': "slot_ok s'"
    using R(1,3) d by (simp add: slot_ok_def LOCKBOX_MAX_BUFFERED_def mod_add_left_eq) (simp add: s'_def mod_add_left_eq)
  have bytes': "slot_bytes s' = drop n (slot_bytes s)"
    using ring_read_drop [of n "storage s" "read_pos s" "count s"] R(1) by (simp add: slot_bytes_def s'_def)
  define m where "m = buffered_bytes (table lb ! k) - ucast (of_nat n :: u16)"
  define lb' where "lb' = lb\<lparr>table := (table lb)[k := (table lb ! k)\<lparr>buffered_bytes := m\<rparr>]\<rparr>"
  have m: "unat m = count s - n" using unat_buffered_sub(1) [OF buf n S(5)] by (simp add: m_def)
  have "(if n > 0 then lockbox_consume k (of_nat n) lb else lb) = lb'"
    using unat_buffered_sub(2) [OF buf n S(5)] k
    by (auto simp: lockbox_consume_def LOCKBOX_CAPACITY_def lb'_def m_def Let_def list_update_id)
  then have run: "inbox_read k max_len (ib, lb) = (ring_read (storage s) (read_pos s) n, ib[k := s'], lb')"
    using inbox_take_prefix [OF R(1,2), of n]
    unfolding inbox_read_eq [OF k] s_def [symmetric] n_def [symmetric] by (simp add: case_prod_beta s'_def)
  have "inbox_inv (ib[k := s'], lb')" "inbox_bytes k (ib[k := s'], lb') = slot_bytes s'"
    unfolding lb'_def using S(2) m S(5)
    by (intro inbox_inv_rewrite [OF inv k ok']; simp add: s'_def slot_bytes_def)+
  moreover have "ring_read (storage s) (read_pos s) n = take n (slot_bytes s)"
    using n by (simp add: slot_bytes_def ring_read_take)
  moreover have "take n (slot_bytes s) = take (unat max_len) (slot_bytes s)"
    "drop n (slot_bytes s) = drop (unat max_len) (slot_bytes s)"
    by (simp_all add: n_def slot_bytes_def min_def)
  ultimately show ?thesis
    using run bytes' S(3) lb_invD(1) [OF D(1)] k by (simp add: lb'_def nth_list_update)
qed

text \<open>A claim of the slot starts an empty stream.\<close>

lemma inbox_claim_empties:
  assumes inv: "inbox_inv (ib, lb)" and run: "lockbox_claim lport rip rport proto lb = (LOCKBOX_OK, Some k, lb')"
    and gen: "seen_generation (ib ! k) \<noteq> lockbox_get_generation k lb + 1"
  shows "open_inv k (ib, lb') \<and> inbox_bytes k (ib, lb') = []"
proof -
  note D = inbox_invD [OF inv]
  have i: "first_idx (\<lambda>e. \<not> in_use e) (table lb) = Some k" "lb' = claimed k lport rip rport proto lb"
    using run by (auto simp: lockbox_claim_cases [OF D(1)] split: if_splits option.splits)
  have k: "k < 64" using first_idx_less [OF i(1)] lb_invD(1) [OF D(1)] by simp
  have lb': "lb_inv lb'" using lb_inv_claim [OF D(1), of lport rip rport proto] run by simp
  have g: "lockbox_get_generation j lb' = lockbox_get_generation j lb + (if j = k then 1 else 0)" if "j < 64" for j
    using that lb_invD(2) [OF D(1)] by (simp add: i(2) claimed_def lockbox_get_generation_def LOCKBOX_CAPACITY_def)
  have empty: "inbox_bytes k (ib, lb') = []"
    using gen g [OF k] by (simp add: inbox_bytes_def reset_if_stale_def slot_bytes_def)
  have "unat (buffered_bytes (table lb' ! j)) = length (inbox_bytes j (ib, lb'))" if "j < 64" for j
  proof (cases "j = k")
    case True
    then show ?thesis using empty k lb_invD(1) [OF D(1)] by (simp add: i(2) claimed_def)
  next
    case False
    then show ?thesis using D(4) [OF that] g [OF that] by (simp add: i(2) claimed_def inbox_bytes_def)
  qed
  then have "inbox_inv (ib, lb')" using lb' D(2,3) by (simp add: inbox_inv_def LOCKBOX_CAPACITY_def)
  then show ?thesis using k empty lb_invD(1) [OF D(1)] by (simp add: open_inv_def LOCKBOX_CAPACITY_def i(2) claimed_def)
qed

interpretation inbox: byte_stream
  "\<lambda>p st. inbox_deposit k p (of_nat (length p)) st" "\<lambda>n st. inbox_read k (of_nat n) st"
  "inbox_bytes k" 4096 65535 "open_inv k" for k
proof unfold_locales
  fix st :: "inbox \<times> lockbox" and p :: bytes and n :: nat
  obtain ib lb where st: "st = (ib, lb)" by (cases st)
  assume "open_inv k st"
  then have o: "inbox_inv (ib, lb)" "k < 64" "in_use (table lb ! k)"
    by (auto simp: st open_inv_def LOCKBOX_CAPACITY_def)
  show "open_inv k (snd (inbox_deposit k p (of_nat (length p)) st)) \<and>
      fst (inbox_deposit k p (of_nat (length p)) st) = (length (inbox_bytes k st) + length p \<le> 4096) \<and>
      inbox_bytes k (snd (inbox_deposit k p (of_nat (length p)) st)) =
        inbox_bytes k st @ (if fst (inbox_deposit k p (of_nat (length p)) st) then p else [])"
    if "length p \<le> 65535"
    using inbox_deposit_spec [OF o(1,2), of p "of_nat (length p)"] that o
    by (auto simp: st unat_of_nat open_inv_def LOCKBOX_CAPACITY_def split: prod.splits)
  show "open_inv k (snd (inbox_read k (of_nat n) st)) \<and> fst (inbox_read k (of_nat n) st) = take n (inbox_bytes k st) \<and>
      inbox_bytes k (snd (inbox_read k (of_nat n) st)) = drop n (inbox_bytes k st)"
    if "n \<le> 65535"
    using inbox_read_spec [OF o(1,2), of "of_nat n"] that o
    by (auto simp: st unat_of_nat open_inv_def LOCKBOX_CAPACITY_def split: prod.splits)
qed

section \<open>Properties\<close>

text \<open>C9. From the moment a connection claims its socket, whatever deposits and reads follow, the
  bytes read are a prefix of the bytes accepted, in order, and what is left in the buffer
  is the rest; a generation the inbox has already seen for the slot is excluded.\<close>

theorem inbox_stream:
  assumes "inbox_inv (ib, lb)" and "lockbox_claim lport rip rport proto lb = (LOCKBOX_OK, Some k, lb')"
    and "seen_generation (ib ! k) \<noteq> lockbox_get_generation k lb + 1"
    and "list_all (stream_op_ok 65535) ops"
    and "stream_run (\<lambda>p. inbox_deposit k p (of_nat (length p))) (\<lambda>n. inbox_read k (of_nat n)) ops (ib, lb') = (acc, got, st')"
  shows "acc = got @ inbox_bytes k st' \<and> length (inbox_bytes k st') \<le> 4096"
proof -
  have c: "open_inv k (ib, lb')" "inbox_bytes k (ib, lb') = []"
    using inbox_claim_empties [OF assms(1-3)] by simp_all
  have r: "open_inv k st'" "acc = got @ inbox_bytes k st'"
    using inbox.stream_in_order [OF c(1) assms(4,5)] c(2) by simp_all
  obtain ib' lb'' where "st' = (ib', lb'')" by (cases st')
  then have "length (inbox_bytes k st') \<le> 4096"
    using r(1) inbox_invD(4) [of ib' lb'' k] lb_invD(5) [OF inbox_invD(1), of ib' lb'' k]
    by (simp add: open_inv_def LOCKBOX_CAPACITY_def)
  with r(2) show ?thesis by simp
qed

lemma inbox_inv_boot: "inbox_inv (inbox_boot, lockbox_boot)"
  using lb_inv_boot
  by (auto simp: inbox_inv_def inbox_boot_def inbox_bytes_def slot_ok_def slot_bytes_def reset_if_stale_def
      lockbox_get_generation_def lockbox_boot_def LOCKBOX_CAPACITY_def LOCKBOX_MAX_BUFFERED_def)

theorem inbox_stream_witness:
  "\<exists>k lb' acc got st'. lockbox_claim 80 [10, 0, 0, 2] 4000 6 lockbox_boot = (LOCKBOX_OK, Some k, lb') \<and>
     stream_run (\<lambda>p. inbox_deposit k p (of_nat (length p))) (\<lambda>n. inbox_read k (of_nat n))
       [Write [1, 2, 3], Read 2] (inbox_boot, lb') = (acc, got, st') \<and> acc = got @ inbox_bytes k st'"
proof -
  define lb' where "lb' = claimed 0 80 [10, 0, 0, 2] 4000 6 lockbox_boot"
  have c: "lockbox_claim 80 [10, 0, 0, 2] 4000 6 lockbox_boot = (LOCKBOX_OK, Some 0, lb')"
    unfolding lb'_def by (rule claim_boot)
  obtain acc got st' where r: "stream_run (\<lambda>p. inbox_deposit 0 p (of_nat (length p))) (\<lambda>n. inbox_read 0 (of_nat n))
       [Write [1, 2, 3], Read 2] (inbox_boot, lb') = (acc, got, st')"
    by (rule prod_cases3)
  have "seen_generation (inbox_boot ! 0) \<noteq> lockbox_get_generation 0 lockbox_boot + 1"
    by (simp add: inbox_boot_def lockbox_boot_def lockbox_get_generation_def LOCKBOX_CAPACITY_def)
  then have "acc = got @ inbox_bytes 0 st'"
    using inbox_stream [OF inbox_inv_boot c _ _ r] by simp
  then show ?thesis using c r by blast
qed

end
