(* ===== verification/Postbox.thy ===== *)
theory Postbox
  imports LockBox Interfaces
begin

text \<open>
  The datagram queues of UDP sockets, \<^verbatim>\<open>Networking/IPv4/Postbox/postbox.c\<close>: a ring of 8
  envelopes per slot, each of at most 576 bytes. Every slot provides the \<open>bounded_fifo\<close>
  contract of theory \<open>Interfaces\<close>, with datagrams (sender address, sender port, data) as
  elements.
\<close>

section \<open>Model\<close>

definition POSTBOX_MAX_PENDING :: nat where "POSTBOX_MAX_PENDING = 8"
definition POSTBOX_MAX_DATAGRAM :: nat where "POSTBOX_MAX_DATAGRAM = 576"

record envelope_t =
  src_ip :: bytes
  src_port :: u16
  env_len :: u16
  env_data :: bytes

record postbox_slot =
  queue :: "envelope_t list"
  head :: nat
  tail :: nat
  pending :: nat

type_synonym postbox = "postbox_slot list"

definition postbox_boot :: postbox where
  "postbox_boot = replicate LOCKBOX_CAPACITY
     \<lparr>queue = replicate POSTBOX_MAX_PENDING
        \<lparr>src_ip = [0, 0, 0, 0], src_port = 0, env_len = 0, env_data = replicate POSTBOX_MAX_DATAGRAM 0\<rparr>,
      head = 0, tail = 0, pending = 0\<rparr>"

definition postbox_deposit :: "nat \<Rightarrow> bytes \<Rightarrow> u16 \<Rightarrow> bytes \<Rightarrow> u16 \<Rightarrow> postbox \<Rightarrow> bool \<times> postbox" where
  "postbox_deposit slot ip port data len pb =
     (if slot \<ge> LOCKBOX_CAPACITY then (False, pb)
      else if unat len > POSTBOX_MAX_DATAGRAM then (False, pb)
      else if pending (pb ! slot) \<ge> POSTBOX_MAX_PENDING then (False, pb)
      else
        let s = pb ! slot; e = queue s ! tail s;
            e' = e\<lparr>src_ip := ip, src_port := port, env_len := len,
                   env_data := take (unat len) data @ drop (unat len) (env_data e)\<rparr>
        in (True, pb[slot := s\<lparr>queue := (queue s)[tail s := e'],
                               tail := (tail s + 1) mod POSTBOX_MAX_PENDING,
                               pending := pending s + 1\<rparr>]))"

text \<open>The sender, its port and the bytes copied to the caller; the number of bytes is the
  value returned, and \<open>None\<close> is a return of 0 with nothing written.\<close>

definition postbox_read :: "nat \<Rightarrow> u16 \<Rightarrow> postbox \<Rightarrow> (bytes \<times> u16 \<times> bytes) option \<times> postbox" where
  "postbox_read slot max_len pb =
     (if slot \<ge> LOCKBOX_CAPACITY \<or> pending (pb ! slot) = 0 then (None, pb)
      else
        let s = pb ! slot; e = queue s ! head s;
            n = (if max_len < env_len e then max_len else env_len e)
        in (Some (src_ip e, src_port e, take (unat n) (env_data e)),
            pb[slot := s\<lparr>head := (head s + 1) mod POSTBOX_MAX_PENDING, pending := pending s - 1\<rparr>]))"

definition postbox_pending_count :: "nat \<Rightarrow> postbox \<Rightarrow> nat" where
  "postbox_pending_count slot pb = (if slot \<ge> LOCKBOX_CAPACITY then 0 else pending (pb ! slot))"

section \<open>The queue of a slot\<close>

definition envelope_ok :: "envelope_t \<Rightarrow> bool" where
  "envelope_ok e \<longleftrightarrow> length (env_data e) = POSTBOX_MAX_DATAGRAM \<and> unat (env_len e) \<le> POSTBOX_MAX_DATAGRAM"

definition pslot_ok :: "postbox_slot \<Rightarrow> bool" where
  "pslot_ok s \<longleftrightarrow> length (queue s) = POSTBOX_MAX_PENDING \<and> head s < POSTBOX_MAX_PENDING \<and>
     pending s \<le> POSTBOX_MAX_PENDING \<and> tail s = (head s + pending s) mod POSTBOX_MAX_PENDING \<and>
     list_all envelope_ok (queue s)"

definition letter :: "envelope_t \<Rightarrow> bytes \<times> u16 \<times> bytes" where
  "letter e = (src_ip e, src_port e, take (unat (env_len e)) (env_data e))"

definition postbox_letters :: "nat \<Rightarrow> postbox \<Rightarrow> (bytes \<times> u16 \<times> bytes) list" where
  "postbox_letters k pb = map letter (ring_read (queue (pb ! k)) (head (pb ! k)) (pending (pb ! k)))"

definition postbox_inv :: "nat \<Rightarrow> postbox \<Rightarrow> bool" where
  "postbox_inv k pb \<longleftrightarrow> k < LOCKBOX_CAPACITY \<and> length pb = LOCKBOX_CAPACITY \<and> pslot_ok (pb ! k)"

definition letter_fits :: "bytes \<times> u16 \<times> bytes \<Rightarrow> bool" where
  "letter_fits l = (case l of (ip, port, data) \<Rightarrow> length data \<le> POSTBOX_MAX_DATAGRAM)"

text \<open>Depositing and reading whole datagrams. A caller's length is a 16-bit number, so a
  longer buffer cannot be passed.\<close>

definition postbox_put :: "nat \<Rightarrow> bytes \<times> u16 \<times> bytes \<Rightarrow> postbox \<Rightarrow> bool \<times> postbox" where
  "postbox_put k l pb = (case l of (ip, port, data) \<Rightarrow>
     if length data \<ge> 65536 then (False, pb) else postbox_deposit k ip port data (of_nat (length data)) pb)"

definition postbox_get :: "nat \<Rightarrow> postbox \<Rightarrow> (bytes \<times> u16 \<times> bytes) option \<times> postbox" where
  "postbox_get k pb = postbox_read k (of_nat POSTBOX_MAX_DATAGRAM) pb"

lemma pslot_okD:
  assumes "pslot_ok s"
  shows "length (queue s) = 8" "head s < 8" "pending s \<le> 8" "tail s = (head s + pending s) mod 8"
    "i < 8 \<Longrightarrow> length (env_data (queue s ! i)) = 576 \<and> unat (env_len (queue s ! i)) \<le> 576"
  using assms
  by (auto simp: pslot_ok_def POSTBOX_MAX_PENDING_def POSTBOX_MAX_DATAGRAM_def envelope_ok_def list_all_length)

lemma postbox_put_refused:
  assumes "postbox_inv k pb" "\<not> letter_fits l \<or> length (postbox_letters k pb) = 8"
  shows "\<not> fst (postbox_put k l pb) \<and> postbox_inv k (snd (postbox_put k l pb)) \<and>
    postbox_letters k (snd (postbox_put k l pb)) = postbox_letters k pb"
proof -
  have "postbox_put k l pb = (False, pb)"
    using assms
    by (auto simp: postbox_put_def postbox_deposit_def postbox_inv_def letter_fits_def postbox_letters_def
      POSTBOX_MAX_PENDING_def POSTBOX_MAX_DATAGRAM_def unat_of_nat split: prod.splits)
  then show ?thesis using assms(1) by simp
qed

lemma postbox_put_accepted:
  assumes inv: "postbox_inv k pb" and fits: "letter_fits l" and room: "length (postbox_letters k pb) < 8"
  shows "fst (postbox_put k l pb) \<and> postbox_inv k (snd (postbox_put k l pb)) \<and>
    postbox_letters k (snd (postbox_put k l pb)) = postbox_letters k pb @ [l]"
proof -
  obtain ip port data where l: "l = (ip, port, data)" by (cases l)
  define s where "s = pb ! k"
  have ok: "pslot_ok s" and k: "k < 64" "length pb = 64"
    using inv by (auto simp: postbox_inv_def s_def LOCKBOX_CAPACITY_def)
  note D = pslot_okD [OF ok]
  have len: "length data \<le> 576" using fits by (simp add: l letter_fits_def POSTBOX_MAX_DATAGRAM_def)
  have pend: "pending s < 8" using room by (simp add: postbox_letters_def s_def)
  define e where "e = (queue s ! tail s)\<lparr>src_ip := ip, src_port := port, env_len := of_nat (length data),
      env_data := data @ drop (length data) (env_data (queue s ! tail s))\<rparr>"
  define s' where "s' = s\<lparr>queue := (queue s)[tail s := e], tail := (tail s + 1) mod 8, pending := pending s + 1\<rparr>"
  have t: "tail s < 8" using D(4) by simp
  have run: "postbox_put k l pb = (True, pb[k := s'])"
    using k len pend
    by (simp add: l postbox_put_def postbox_deposit_def LOCKBOX_CAPACITY_def POSTBOX_MAX_PENDING_def
        POSTBOX_MAX_DATAGRAM_def unat_of_nat Let_def s_def [symmetric] s'_def e_def)
  have "envelope_ok e"
    using D(5) [OF t] len by (simp add: e_def envelope_ok_def POSTBOX_MAX_DATAGRAM_def unat_of_nat)
  then have ok': "pslot_ok s'"
    using ok D(1-4) pend
    by (auto simp: s'_def pslot_ok_def POSTBOX_MAX_PENDING_def list_all_iff mod_Suc_eq dest!: set_update_subset_insert [THEN subsetD])
  have "letter e = l" using len by (simp add: e_def letter_def l unat_of_nat)
  then have "postbox_letters k (pb[k := s']) = postbox_letters k pb @ [l]"
    using ring_read_push [of "pending s" "queue s" "head s" e] D pend k
    by (simp add: postbox_letters_def s'_def s_def)
  then show ?thesis using run ok' k by (simp add: postbox_inv_def LOCKBOX_CAPACITY_def)
qed

lemma postbox_get_empty:
  "postbox_letters k pb = [] \<Longrightarrow> postbox_get k pb = (None, pb)"
  by (simp add: postbox_get_def postbox_read_def postbox_letters_def ring_read_def)

lemma postbox_get_oldest:
  assumes inv: "postbox_inv k pb" and ne: "postbox_letters k pb = l # ls"
  shows "fst (postbox_get k pb) = Some l \<and> postbox_inv k (snd (postbox_get k pb)) \<and>
    postbox_letters k (snd (postbox_get k pb)) = ls"
proof -
  define s where "s = pb ! k"
  have ok: "pslot_ok s" and k: "k < 64" "length pb = 64"
    using inv by (auto simp: postbox_inv_def s_def LOCKBOX_CAPACITY_def)
  note D = pslot_okD [OF ok]
  obtain n where n: "pending s = Suc n"
    using ne by (cases "pending s") (auto simp: postbox_letters_def s_def)
  have l: "l = letter (queue s ! head s)" "ls = map letter (ring_read (queue s) ((head s + 1) mod 8) n)"
    using ne n ring_read_pop [of "head s" "queue s" n] D(1,2) by (simp_all add: postbox_letters_def s_def [symmetric])
  define s' where "s' = s\<lparr>head := (head s + 1) mod 8, pending := n\<rparr>"
  have "env_len (queue s ! head s) \<le> of_nat 576"
    using D(5) [OF D(2)] by (simp add: word_le_nat_alt)
  then have run: "postbox_get k pb = (Some l, pb[k := s'])"
    using k n by (simp add: postbox_get_def postbox_read_def LOCKBOX_CAPACITY_def POSTBOX_MAX_PENDING_def
        POSTBOX_MAX_DATAGRAM_def Let_def s_def [symmetric] s'_def l(1) letter_def)
  have "pslot_ok s'"
    using ok n D(4) by (simp add: s'_def pslot_ok_def POSTBOX_MAX_PENDING_def mod_add_left_eq mod_Suc_eq) 
  then show ?thesis
    using run k l(2) by (simp add: postbox_inv_def LOCKBOX_CAPACITY_def postbox_letters_def s'_def)
qed

interpretation postbox: bounded_fifo "postbox_put k" "postbox_get k" letter_fits "postbox_letters k" 8 "postbox_inv k" for k
proof unfold_locales
  fix pb l ls
  show "postbox_inv k pb \<Longrightarrow> length (postbox_letters k pb) \<le> 8"
    using pslot_okD(3) [of "pb ! k"] by (simp add: postbox_inv_def postbox_letters_def)
qed (fact postbox_put_refused postbox_put_accepted postbox_get_oldest | rule postbox_get_empty, assumption)+

section \<open>Properties\<close>


lemma postbox_inv_boot: "k < 64 \<Longrightarrow> postbox_inv k postbox_boot"
  by (simp add: postbox_inv_def postbox_boot_def pslot_ok_def envelope_ok_def LOCKBOX_CAPACITY_def
      POSTBOX_MAX_PENDING_def POSTBOX_MAX_DATAGRAM_def list_all_length)


end
