(* ===== verification/Slots.thy ===== *)
theory Slots
  imports Prelude Interfaces
begin

text \<open>
  Static tables of keyed slots. Most modules of the network stack keep a fixed array whose
  entries carry an in-use flag and a key, search it with a loop, reuse the entry that
  matches and otherwise take the first free one. \<open>slot_view\<close> is such a table read as a map
  from keys to values; the lemmas give the effect of writing one entry on that map.
\<close>

definition keyed :: "('e \<Rightarrow> bool) \<Rightarrow> ('e \<Rightarrow> 'k) \<Rightarrow> 'e list \<Rightarrow> bool" where
  "keyed used key t \<longleftrightarrow> (\<forall>i<length t. \<forall>j<length t.
     used (t ! i) \<and> used (t ! j) \<and> key (t ! i) = key (t ! j) \<longrightarrow> i = j)"

definition slot_find :: "('e \<Rightarrow> bool) \<Rightarrow> ('e \<Rightarrow> 'k) \<Rightarrow> 'k \<Rightarrow> 'e list \<Rightarrow> nat option" where
  "slot_find used key k t = first_idx (\<lambda>e. used e \<and> key e = k) t"

definition slot_view :: "('e \<Rightarrow> bool) \<Rightarrow> ('e \<Rightarrow> 'k) \<Rightarrow> ('e \<Rightarrow> 'v) \<Rightarrow> 'e list \<Rightarrow> 'k \<Rightarrow> 'v option" where
  "slot_view used key val t k = map_option (\<lambda>i. val (t ! i)) (slot_find used key k t)"

lemma slot_findD:
  assumes "slot_find used key k t = Some i"
  shows "i < length t" "used (t ! i)" "key (t ! i) = k"
  using first_idx_less [OF assms [unfolded slot_find_def]] first_idx_holds [OF assms [unfolded slot_find_def]]
  by simp_all

lemma slot_find_None: "slot_find used key k t = None \<longleftrightarrow> (\<forall>i<length t. used (t ! i) \<longrightarrow> key (t ! i) \<noteq> k)"
  by (auto simp: slot_find_def first_idx_None all_set_conv_all_nth)

lemma slot_find_unique:
  assumes "keyed used key t" "i < length t" "used (t ! i)"
  shows "slot_find used key (key (t ! i)) t = Some i"
  unfolding slot_find_def
proof (rule first_idx_unique [OF assms(2)])
  fix j
  assume "j < length t" "used (t ! j) \<and> key (t ! j) = key (t ! i)"
  then show "j = i" using assms unfolding keyed_def by blast
qed (use assms(3) in simp)

lemma slot_view_None: "slot_view used key val t k = None \<longleftrightarrow> slot_find used key k t = None"
  by (simp add: slot_view_def)

lemma slot_view_Some:
  assumes "keyed used key t"
  shows "slot_view used key val t k = Some v \<longleftrightarrow> (\<exists>i<length t. used (t ! i) \<and> key (t ! i) = k \<and> val (t ! i) = v)"
proof
  assume "slot_view used key val t k = Some v"
  then obtain i where i: "slot_find used key k t = Some i" "val (t ! i) = v" by (auto simp: slot_view_def)
  then show "\<exists>i<length t. used (t ! i) \<and> key (t ! i) = k \<and> val (t ! i) = v" using slot_findD [OF i(1)] by blast
next
  assume "\<exists>i<length t. used (t ! i) \<and> key (t ! i) = k \<and> val (t ! i) = v"
  then obtain i where i: "i < length t" "used (t ! i)" "key (t ! i) = k" "val (t ! i) = v" by blast
  show "slot_view used key val t k = Some v"
    using slot_find_unique [of used key t i] assms i by (simp add: slot_view_def)
qed

text \<open>A write that does not put a used key in two slots.\<close>

lemma keyed_write:
  assumes "keyed used key t" "\<And>j. j < length t \<Longrightarrow> j \<noteq> i \<Longrightarrow> used e \<Longrightarrow> used (t ! j) \<Longrightarrow> key (t ! j) \<noteq> key e"
  shows "keyed used key (t[i := e])"
  unfolding keyed_def
proof (intro allI impI)
  fix a b
  assume ab: "a < length (t[i := e])" "b < length (t[i := e])"
    "used (t[i := e] ! a) \<and> used (t[i := e] ! b) \<and> key (t[i := e] ! a) = key (t[i := e] ! b)"
  show "a = b"
  proof (rule ccontr)
    assume ne: "a \<noteq> b"
    consider "a = i" "b \<noteq> i" | "b = i" "a \<noteq> i" | "a \<noteq> i" "b \<noteq> i" using ne by blast
    then show False
    proof cases
      case 1
      then show False using ab assms(2) [of b] by simp
    next
      case 2
      then show False using ab assms(2) [of a] by simp
    next
      case 3
      then show False using ab ne assms(1) unfolding keyed_def by simp
    qed
  qed
qed

lemma slot_view_ext:
  assumes "keyed used key t" "\<And>k v. m k = Some v \<longleftrightarrow> (\<exists>i<length t. used (t ! i) \<and> key (t ! i) = k \<and> val (t ! i) = v)"
  shows "slot_view used key val t = m"
proof
  fix k
  show "slot_view used key val t k = m k"
    using slot_view_Some [OF assms(1), of val k] assms(2) [of k] by (metis not_None_eq)
qed

lemma keyed_set:
  assumes "keyed used key t" "i < length t" "used e" "used (t ! i) \<Longrightarrow> key (t ! i) = key e"
    and "\<not> used (t ! i) \<Longrightarrow> slot_find used key (key e) t = None"
  shows "keyed used key (t[i := e])"
proof (rule keyed_write [OF assms(1)])
  fix j
  assume j: "j < length t" "j \<noteq> i" "used (t ! j)"
  show "key (t ! j) \<noteq> key e"
    using assms(1,2,4,5) j unfolding keyed_def slot_find_None by metis
qed

lemma slot_view_set:
  assumes "keyed used key t" "i < length t" "used e" "used (t ! i) \<Longrightarrow> key (t ! i) = key e"
    and "\<not> used (t ! i) \<Longrightarrow> slot_find used key (key e) t = None"
  shows "slot_view used key val (t[i := e]) = (slot_view used key val t)(key e \<mapsto> val e)"
proof (rule slot_view_ext [OF keyed_set [OF assms]])
  fix k v
  have other: "key (t ! j) \<noteq> key e" if "j < length t" "j \<noteq> i" "used (t ! j)" for j
    using assms(1,2,4,5) that unfolding keyed_def slot_find_None by metis
  show "((slot_view used key val t)(key e \<mapsto> val e)) k = Some v \<longleftrightarrow>
      (\<exists>j<length (t[i := e]). used (t[i := e] ! j) \<and> key (t[i := e] ! j) = k \<and> val (t[i := e] ! j) = v)"
  proof (cases "k = key e")
    case True
    then show ?thesis using assms(2,3) other by (auto simp: nth_list_update)
  next
    case False
    have "used (t[i := e] ! j) \<and> key (t[i := e] ! j) = k \<longleftrightarrow> used (t ! j) \<and> key (t ! j) = k"
      "used (t ! j) \<and> key (t ! j) = k \<Longrightarrow> t[i := e] ! j = t ! j" for j
      using assms(2,4) False by (cases "j = i"; auto)+
    then have "(\<exists>j<length (t[i := e]). used (t[i := e] ! j) \<and> key (t[i := e] ! j) = k \<and> val (t[i := e] ! j) = v) \<longleftrightarrow>
        (\<exists>j<length t. used (t ! j) \<and> key (t ! j) = k \<and> val (t ! j) = v)"
      by (metis length_list_update)
    then show ?thesis using False slot_view_Some [OF assms(1), of val k v] by simp
  qed
qed

lemma keyed_clear: "keyed used key t \<Longrightarrow> \<not> used e \<Longrightarrow> keyed used key (t[i := e])"
  by (rule keyed_write) simp_all

lemma slot_view_clear:
  assumes "keyed used key t" "i < length t" "used (t ! i)" "\<not> used e"
  shows "slot_view used key val (t[i := e]) = (slot_view used key val t)(key (t ! i) := None)"
proof (rule slot_view_ext [OF keyed_clear [OF assms(1,4)]])
  fix k v
  have other: "key (t ! j) \<noteq> key (t ! i)" if "j < length t" "j \<noteq> i" "used (t ! j)" for j
    using assms(1-3) that unfolding keyed_def by metis
  have "(\<exists>j<length (t[i := e]). used (t[i := e] ! j) \<and> key (t[i := e] ! j) = k \<and> val (t[i := e] ! j) = v) \<longleftrightarrow>
      (\<exists>j<length t. used (t ! j) \<and> key (t ! j) = k \<and> val (t ! j) = v \<and> j \<noteq> i)"
    using assms(2,4) by (auto simp: nth_list_update)
  also have "\<dots> \<longleftrightarrow> k \<noteq> key (t ! i) \<and> slot_view used key val t k = Some v"
    unfolding slot_view_Some [OF assms(1)] using other by blast
  finally show "((slot_view used key val t)(key (t ! i) := None)) k = Some v \<longleftrightarrow>
      (\<exists>j<length (t[i := e]). used (t[i := e] ! j) \<and> key (t[i := e] ! j) = k \<and> val (t[i := e] ! j) = v)"
    by simp
qed

lemma slot_view_dom:
  assumes "keyed used key t"
  shows "finite (dom (slot_view used key val t))" "card (dom (slot_view used key val t)) = count_if used t"
proof -
  define A where "A = {i. i < length t \<and> used (t ! i)}"
  have dom: "dom (slot_view used key val t) = (\<lambda>i. key (t ! i)) ` A"
    using slot_view_Some [OF assms, of val] by (auto simp: A_def dom_def)
  have inj: "inj_on (\<lambda>i. key (t ! i)) A"
    using assms by (auto simp: inj_on_def A_def keyed_def)
  show "finite (dom (slot_view used key val t))" by (simp add: dom A_def)
  have "card (dom (slot_view used key val t)) = card A" unfolding dom by (rule card_image [OF inj])
  also have "\<dots> = count_if used t"
    unfolding A_def count_if_def by (rule length_filter_conv_card [symmetric])
  finally show "card (dom (slot_view used key val t)) = count_if used t" .
qed

text \<open>A sweep that only takes entries out of use.\<close>

lemma keyed_sweep:
  assumes "keyed used key t" "\<And>e. used (f e) \<Longrightarrow> used e \<and> key (f e) = key e"
  shows "keyed used key (map f t)"
  unfolding keyed_def
proof (intro allI impI)
  fix i j
  assume "i < length (map f t)" "j < length (map f t)"
    "used (map f t ! i) \<and> used (map f t ! j) \<and> key (map f t ! i) = key (map f t ! j)"
  then show "i = j" using assms(1) assms(2) [of "t ! i"] assms(2) [of "t ! j"] unfolding keyed_def by simp
qed

lemma keyed_distinct: "distinct (map key t) \<Longrightarrow> keyed used key t"
  by (auto simp: keyed_def distinct_conv_nth)

lemma keyed_replicate [simp]: "\<not> used e \<Longrightarrow> keyed used key (replicate n e)"
  by (simp add: keyed_def)

lemma slot_view_replicate [simp]: "\<not> used e \<Longrightarrow> slot_view used key val (replicate n e) = Map.empty"
  by (simp add: slot_view_def slot_find_def fun_eq_iff)

section \<open>Search, else first free slot\<close>

text \<open>The slot a table update writes: the one with the key, else the first free one.\<close>

definition slot_for :: "('e \<Rightarrow> bool) \<Rightarrow> ('e \<Rightarrow> 'k) \<Rightarrow> 'k \<Rightarrow> 'e list \<Rightarrow> nat option" where
  "slot_for used key k t =
     (case slot_find used key k t of Some i \<Rightarrow> Some i | None \<Rightarrow> first_idx (\<lambda>e. \<not> used e) t)"

lemma slot_forD:
  assumes "slot_for used key k t = Some i"
  shows "i < length t" "used (t ! i) \<Longrightarrow> key (t ! i) = k" "\<not> used (t ! i) \<Longrightarrow> slot_find used key k t = None"
proof -
  have "i < length t \<and> (used (t ! i) \<longrightarrow> key (t ! i) = k) \<and> (\<not> used (t ! i) \<longrightarrow> slot_find used key k t = None)"
  proof (cases "slot_find used key k t")
    case None
    then have "first_idx (\<lambda>e. \<not> used e) t = Some i" using assms by (simp add: slot_for_def)
    from first_idx_less [OF this] first_idx_holds [OF this] None show ?thesis by simp
  next
    case (Some j)
    then have "j = i" using assms by (simp add: slot_for_def)
    with slot_findD [OF Some] show ?thesis by simp
  qed
  then show "i < length t" "used (t ! i) \<Longrightarrow> key (t ! i) = k" "\<not> used (t ! i) \<Longrightarrow> slot_find used key k t = None"
    by simp_all
qed

lemma slot_for_None:
  "slot_for used key k t = None \<longleftrightarrow> slot_find used key k t = None \<and> count_if used t = length t"
  by (auto simp: slot_for_def first_idx_None count_if_full split: option.splits)

section \<open>The bounded map a slot table implements\<close>

lemma slot_put_effect:
  assumes k: "keyed used key t" and e: "\<And>i. used (e i) \<and> key (e i) = k \<and> val (e i) = v"
    and r: "r = (case slot_for used key k t of None \<Rightarrow> (False, t) | Some i \<Rightarrow> (True, t[i := e i]))"
  shows "keyed used key (snd r) \<and> length (snd r) = length t \<and>
    fst r = (k \<in> dom (slot_view used key val t) \<or> card (dom (slot_view used key val t)) < length t) \<and>
    slot_view used key val (snd r) = map_op (length t) (Update k v) (slot_view used key val t)"
proof -
  have dom: "k \<in> dom (slot_view used key val t) \<longleftrightarrow> slot_find used key k t \<noteq> None"
    by (auto simp: slot_view_def)
  have card: "card (dom (slot_view used key val t)) = count_if used t" by (rule slot_view_dom(2) [OF k])
  show ?thesis
  proof (cases "slot_for used key k t")
    case None
    then have "slot_find used key k t = None" "count_if used t = length t" by (simp_all add: slot_for_None)
    then show ?thesis using None dom card k r by simp
  next
    case (Some i)
    note S = slot_forD [OF Some]
    have "keyed used key (t[i := e i])" using S e by (intro keyed_set [OF k]) simp_all
    moreover have "slot_view used key val (t[i := e i]) = (slot_view used key val t)(key (e i) \<mapsto> val (e i))"
      using S e by (intro slot_view_set [OF k]) simp_all
    moreover have "k \<in> dom (slot_view used key val t) \<or> card (dom (slot_view used key val t)) < length t"
      using Some slot_for_None [of used key k t] dom card le_neq_implies_less [OF count_if_le [of used t]] by auto
    ultimately show ?thesis using Some e r by simp
  qed
qed

lemma slot_drop_effect:
  assumes k: "keyed used key t" and e: "\<And>i. \<not> used (e i)"
    and r: "r = (case slot_find used key k t of None \<Rightarrow> t | Some i \<Rightarrow> t[i := e i])"
  shows "keyed used key r \<and> length r = length t \<and>
    slot_view used key val r = map_op c (Delete k) (slot_view used key val t)"
proof (cases "slot_find used key k t")
  case None
  then have "slot_view used key val t k = None" by (simp add: slot_view_def)
  then show ?thesis using None k r by (simp add: fun_upd_idem)
next
  case (Some i)
  note S = slot_findD [OF Some]
  have "keyed used key (t[i := e i])" using e by (intro keyed_clear [OF k])
  moreover have "slot_view used key val (t[i := e i]) = (slot_view used key val t)(key (t ! i) := None)"
    using S e by (intro slot_view_clear [OF k])
  ultimately show ?thesis using Some S(3) r by simp
qed

end
