(* ===== verification/Menu.thy ===== *)
theory Menu
  imports Slots
begin

text \<open>
  The list of open ports, \<^verbatim>\<open>Networking/Menu/menu.c\<close>: 32 entries keyed by port and protocol.
  It provides the \<open>bounded_table\<close> contract with pairs of port and protocol as keys.
\<close>

section \<open>Model\<close>

definition MENU_CAPACITY :: nat where "MENU_CAPACITY = 32"

record menu_entry_t =
  menu_port :: u16
  menu_protocol :: u8
  menu_in_use :: bool

type_synonym menu = "menu_entry_t list"

definition menu_boot :: menu where
  "menu_boot = replicate MENU_CAPACITY \<lparr>menu_port = 0, menu_protocol = 0, menu_in_use = False\<rparr>"

definition menu_find_entry :: "u16 \<Rightarrow> u8 \<Rightarrow> menu \<Rightarrow> nat option" where
  "menu_find_entry port protocol m =
     first_idx (\<lambda>e. menu_in_use e \<and> menu_protocol e = protocol \<and> menu_port e = port) m"

definition menu_open_port :: "u16 \<Rightarrow> u8 \<Rightarrow> menu \<Rightarrow> bool \<times> menu" where
  "menu_open_port port protocol m =
     (case menu_find_entry port protocol m of
        Some i \<Rightarrow> (True, m)
      | None \<Rightarrow>
          (case first_idx (\<lambda>e. \<not> menu_in_use e) m of
             Some i \<Rightarrow> (True, m[i := (m ! i)\<lparr>menu_port := port, menu_protocol := protocol, menu_in_use := True\<rparr>])
           | None \<Rightarrow> (False, m)))"

definition menu_close_port :: "u16 \<Rightarrow> u8 \<Rightarrow> menu \<Rightarrow> menu" where
  "menu_close_port port protocol m =
     (case menu_find_entry port protocol m of
        Some i \<Rightarrow> m[i := (m ! i)\<lparr>menu_in_use := False\<rparr>] | None \<Rightarrow> m)"

definition menu_is_open :: "u16 \<Rightarrow> u8 \<Rightarrow> menu \<Rightarrow> bool" where
  "menu_is_open port protocol m \<longleftrightarrow> menu_find_entry port protocol m \<noteq> None"

definition menu_count :: "menu \<Rightarrow> nat" where
  "menu_count m = count_if menu_in_use m"

section \<open>The table contract\<close>

definition menu_key :: "menu_entry_t \<Rightarrow> u16 \<times> u8" where
  "menu_key e = (menu_port e, menu_protocol e)"

definition menu_inv :: "menu \<Rightarrow> bool" where
  "menu_inv m \<longleftrightarrow> length m = 32 \<and> keyed menu_in_use menu_key m"

definition menu_lookup :: "menu \<Rightarrow> u16 \<times> u8 \<Rightarrow> unit option" where
  "menu_lookup m = slot_view menu_in_use menu_key (\<lambda>_. ()) m"

lemma menu_find_slot: "menu_find_entry p q m = slot_find menu_in_use menu_key (p, q) m"
  unfolding menu_find_entry_def slot_find_def by (rule first_idx_cong) (auto simp: menu_key_def)

lemma menu_inv_boot: "menu_inv menu_boot"
  by (simp add: menu_inv_def menu_boot_def MENU_CAPACITY_def)

lemma menu_open_slot:
  "menu_open_port p q m = (case slot_for menu_in_use menu_key (p, q) m of None \<Rightarrow> (False, m)
     | Some i \<Rightarrow> (True, m[i := (m ! i)\<lparr>menu_port := p, menu_protocol := q, menu_in_use := True\<rparr>]))"
proof (cases "slot_find menu_in_use menu_key (p, q) m")
  case None
  then show ?thesis by (simp add: menu_open_port_def menu_find_slot slot_for_def split: option.splits)
next
  case (Some i)
  then have "(m ! i)\<lparr>menu_port := p, menu_protocol := q, menu_in_use := True\<rparr> = m ! i"
    using slot_findD(2,3) [OF Some] by (cases "m ! i") (simp add: menu_key_def)
  then show ?thesis using Some by (simp add: menu_open_port_def menu_find_slot slot_for_def)
qed

lemma menu_open_effect:
  assumes "menu_inv m"
  shows "menu_inv (snd (menu_open_port p q m)) \<and>
    fst (menu_open_port p q m) = ((p, q) \<in> dom (menu_lookup m) \<or> card (dom (menu_lookup m)) < 32) \<and>
    menu_lookup (snd (menu_open_port p q m)) = map_op 32 (Update (p, q) ()) (menu_lookup m)"
  using assms slot_put_effect [of menu_in_use menu_key m
      "\<lambda>i. (m ! i)\<lparr>menu_port := p, menu_protocol := q, menu_in_use := True\<rparr>" "(p, q)" "\<lambda>_. ()" "()" "menu_open_port p q m"]
  by (simp add: menu_inv_def menu_lookup_def menu_open_slot menu_key_def)

lemma menu_close_effect:
  assumes "menu_inv m"
  shows "menu_inv (menu_close_port p q m) \<and> menu_lookup (menu_close_port p q m) = map_op 32 (Delete (p, q)) (menu_lookup m)"
  using assms slot_drop_effect [of menu_in_use menu_key m
      "\<lambda>i. (m ! i)\<lparr>menu_in_use := False\<rparr>" "menu_close_port p q m" "(p, q)" "\<lambda>_. ()" 32]
  by (simp add: menu_inv_def menu_lookup_def menu_close_port_def menu_find_slot cong: option.case_cong)

definition menu_open_key :: "u16 \<times> u8 \<Rightarrow> unit \<Rightarrow> menu \<Rightarrow> bool \<times> menu" where
  "menu_open_key k u m = menu_open_port (fst k) (snd k) m"

definition menu_close_key :: "u16 \<times> u8 \<Rightarrow> menu \<Rightarrow> menu" where
  "menu_close_key k m = menu_close_port (fst k) (snd k) m"

interpretation ports: bounded_table menu_open_key menu_close_key menu_lookup 32 menu_inv
proof unfold_locales
  fix m :: menu and k :: "u16 \<times> u8" and v :: unit
  assume inv: "menu_inv m"
  then show "finite (dom (menu_lookup m)) \<and> card (dom (menu_lookup m)) \<le> 32"
    using slot_view_dom [of menu_in_use menu_key m "\<lambda>_. ()"] count_if_le [of menu_in_use m]
    by (simp add: menu_inv_def menu_lookup_def)
  show "menu_inv (snd (menu_open_key k v m)) \<and>
      fst (menu_open_key k v m) = (k \<in> dom (menu_lookup m) \<or> card (dom (menu_lookup m)) < 32) \<and>
      menu_lookup (snd (menu_open_key k v m)) = map_op 32 (Update k v) (menu_lookup m)"
    using menu_open_effect [OF inv, of "fst k" "snd k"] by (simp add: menu_open_key_def)
  show "menu_inv (menu_close_key k m) \<and> menu_lookup (menu_close_key k m) = map_op 32 (Delete k) (menu_lookup m)"
    using menu_close_effect [OF inv, of "fst k" "snd k"] by (simp add: menu_close_key_def)
qed

section \<open>Properties\<close>

text \<open>Whatever ports are opened and closed, a port answers as open exactly when it is in the set of
  open ports of a map that refuses a new port when 32 are open.\<close>

theorem menu_refines_map:
  "menu_is_open p q (fold (table_step menu_open_key menu_close_key) ops menu_boot) \<longleftrightarrow>
     fold (map_op 32) ops Map.empty (p, q) \<noteq> None"
proof -
  have "menu_lookup menu_boot = Map.empty" by (simp add: menu_lookup_def menu_boot_def)
  then have "menu_lookup (fold (table_step menu_open_key menu_close_key) ops menu_boot) = fold (map_op 32) ops Map.empty"
    using ports.run_refines [OF menu_inv_boot, of ops] by simp
  then show ?thesis
    unfolding menu_is_open_def menu_find_slot
    by (metis menu_lookup_def slot_view_None)
qed

end
