(* ===== verification/Bouncer.thy ===== *)
theory Bouncer
  imports Prelude Interfaces
begin

text \<open>
  The frame filter at the door, \<^verbatim>\<open>Networking/IPv4/Bouncer/bouncer.c\<close>: the verdict on a frame's
  length and destination address, and the log of verdicts, which provides the \<open>recent_log\<close>
  contract for what it records of every frame (tick, verdict, length).
\<close>

section \<open>Model\<close>

definition MIN_ETHERNET_FRAME :: u16 where "MIN_ETHERNET_FRAME = 14"
definition MAX_ETHERNET_FRAME :: u16 where "MAX_ETHERNET_FRAME = 1518"
definition BOUNCER_LOG_CAPACITY :: nat where "BOUNCER_LOG_CAPACITY = 64"

datatype bounce_verdict_t =
  BOUNCE_ACCEPT | BOUNCE_REJECT_TOO_SHORT | BOUNCE_REJECT_TOO_LONG | BOUNCE_REJECT_BAD_DEST

record bouncer_log_entry_t =
  bl_tick :: u32
  bl_verdict :: bounce_verdict_t
  bl_length :: u16
  bl_dest_mac :: bytes
  bl_src_mac :: bytes

record bouncer =
  door_log :: "bouncer_log_entry_t list"
  log_head :: nat
  log_total :: u32
  turned_away :: u32

definition bouncer_boot :: bouncer where
  "bouncer_boot = \<lparr>door_log = replicate BOUNCER_LOG_CAPACITY
       \<lparr>bl_tick = 0, bl_verdict = BOUNCE_ACCEPT, bl_length = 0, bl_dest_mac = replicate 6 0, bl_src_mac = replicate 6 0\<rparr>,
     log_head = 0, log_total = 0, turned_away = 0\<rparr>"

definition mac_equal :: "bytes \<Rightarrow> bytes \<Rightarrow> bool" where
  "mac_equal a b \<longleftrightarrow> list_all (\<lambda>i. a ! i = b ! i) [0..<6]"

definition mac_broadcast :: "bytes \<Rightarrow> bool" where
  "mac_broadcast mac \<longleftrightarrow> list_all (\<lambda>i. mac ! i = 0xFF) [0..<6]"

definition mac_multicast :: "bytes \<Rightarrow> bool" where
  "mac_multicast mac \<longleftrightarrow> mac ! 0 AND 0x01 \<noteq> 0"

definition bouncer_check :: "bytes \<Rightarrow> u16 \<Rightarrow> bytes \<Rightarrow> bounce_verdict_t" where
  "bouncer_check frame len our_mac =
     (if len > MAX_ETHERNET_FRAME then BOUNCE_REJECT_TOO_LONG
      else if len < MIN_ETHERNET_FRAME then BOUNCE_REJECT_TOO_SHORT
      else if mac_equal frame our_mac then BOUNCE_ACCEPT
      else if mac_broadcast frame then BOUNCE_ACCEPT
      else if mac_multicast frame then BOUNCE_ACCEPT
      else BOUNCE_REJECT_BAD_DEST)"

definition bouncer_log ::
  "u32 \<Rightarrow> bounce_verdict_t \<Rightarrow> u16 \<Rightarrow> bytes option \<Rightarrow> bytes option \<Rightarrow> bouncer \<Rightarrow> bouncer" where
  "bouncer_log now verdict len dest_mac src_mac b =
     (let e = door_log b ! log_head b;
          e = e\<lparr>bl_tick := now, bl_verdict := verdict, bl_length := len\<rparr>;
          e = (case dest_mac of Some m \<Rightarrow> e\<lparr>bl_dest_mac := take 6 m\<rparr> | None \<Rightarrow> e);
          e = (case src_mac of Some m \<Rightarrow> e\<lparr>bl_src_mac := take 6 m\<rparr> | None \<Rightarrow> e)
      in b\<lparr>door_log := (door_log b)[log_head b := e],
           log_head := (log_head b + 1) mod BOUNCER_LOG_CAPACITY,
           log_total := log_total b + 1,
           turned_away := (if verdict \<noteq> BOUNCE_ACCEPT then turned_away b + 1 else turned_away b)\<rparr>)"

definition bouncer_log_count :: "bouncer \<Rightarrow> u32" where
  "bouncer_log_count b =
     (if log_total b < of_nat BOUNCER_LOG_CAPACITY then log_total b else of_nat BOUNCER_LOG_CAPACITY)"

definition bouncer_log_get :: "u32 \<Rightarrow> bouncer \<Rightarrow> bouncer_log_entry_t option" where
  "bouncer_log_get index b =
     (if index \<ge> bouncer_log_count b then None
      else let pos = (log_head b + BOUNCER_LOG_CAPACITY - 1 - unat index) mod BOUNCER_LOG_CAPACITY
           in Some (door_log b ! pos))"

fun bounce_verdict_string :: "bounce_verdict_t \<Rightarrow> string" where
  "bounce_verdict_string BOUNCE_ACCEPT = ''LET IN''"
| "bounce_verdict_string BOUNCE_REJECT_BAD_DEST = ''TURNED_AWAY (Not in the List )''"
| "bounce_verdict_string BOUNCE_REJECT_TOO_SHORT = ''TURNED AWAY (too short)''"
| "bounce_verdict_string BOUNCE_REJECT_TOO_LONG = ''TURNED AWAY (too long)''"

section \<open>The log contract\<close>

text \<open>A visit: what the log is told of one frame, and what it records of every visit.\<close>

type_synonym visit = "u32 \<times> bounce_verdict_t \<times> u16"

definition bl_visit :: "bouncer_log_entry_t \<Rightarrow> visit" where
  "bl_visit e = (bl_tick e, bl_verdict e, bl_length e)"

definition bouncer_inv :: "bouncer \<Rightarrow> bool" where
  "bouncer_inv b \<longleftrightarrow> length (door_log b) = 64 \<and> log_head b < 64"

definition bouncer_entries :: "bouncer \<Rightarrow> visit list" where
  "bouncer_entries b = recent (map bl_visit (door_log b)) (log_head b) (min (unat (log_total b)) 64)"

definition bouncer_room :: "bouncer \<Rightarrow> nat" where
  "bouncer_room b = 2 ^ 32 - 1 - unat (log_total b)"

text \<open>A log call with the addresses left out, as the receive path makes it for a bad status.\<close>

definition bouncer_visit :: "bytes option \<Rightarrow> bytes option \<Rightarrow> visit \<Rightarrow> bouncer \<Rightarrow> bouncer" where
  "bouncer_visit dest src v b = bouncer_log (fst v) (fst (snd v)) (snd (snd v)) dest src b"

lemma bouncer_visit_effect:
  assumes inv: "bouncer_inv b" and room: "0 < bouncer_room b"
  shows "bouncer_inv (bouncer_visit dest src v b) \<and>
    bouncer_room (bouncer_visit dest src v b) = bouncer_room b - 1 \<and>
    bouncer_entries (bouncer_visit dest src v b) = take 64 (v # bouncer_entries b)"
proof -
  have suc: "unat (log_total b + 1) = Suc (unat (log_total b))"
    using room by (simp add: bouncer_room_def u32_suc_room)
  define buf where "buf = map bl_visit (door_log b)"
  have len: "length buf = 64" and head: "log_head b < length buf"
    using inv by (simp_all add: bouncer_inv_def buf_def)
  have cell: "map bl_visit (door_log (bouncer_visit dest src v b)) = buf[log_head b := v]"
    by (cases v) (simp add: bouncer_visit_def bouncer_log_def Let_def map_update buf_def bl_visit_def split: option.splits)
  have rest: "log_head (bouncer_visit dest src v b) = Suc (log_head b) mod 64"
    "log_total (bouncer_visit dest src v b) = log_total b + 1"
    "length (door_log (bouncer_visit dest src v b)) = length (door_log b)"
    by (simp_all add: bouncer_visit_def bouncer_log_def Let_def BOUNCER_LOG_CAPACITY_def)
  have "min (Suc (min (unat (log_total b)) 64)) 64 = min (Suc (unat (log_total b))) 64" by simp
  then have "bouncer_entries (bouncer_visit dest src v b) = take 64 (v # bouncer_entries b)"
    using recent_add [OF head, of "min (unat (log_total b)) 64" v] len suc
    unfolding bouncer_entries_def cell rest by (simp flip: buf_def)
  then show ?thesis using inv suc rest by (simp add: bouncer_inv_def bouncer_room_def)
qed

interpretation visits: recent_log "bouncer_visit dest src" bouncer_entries bouncer_room 64 bouncer_inv for dest src
proof unfold_locales
  show "length (bouncer_entries b) \<le> 64" for b by (simp add: bouncer_entries_def)
qed (rule bouncer_visit_effect)

lemma bouncer_log_get_entries:
  assumes "bouncer_inv b"
  shows "map_option bl_visit (bouncer_log_get i b) =
    (if unat i < length (bouncer_entries b) then Some (bouncer_entries b ! unat i) else None)"
proof -
  have cnt: "unat (bouncer_log_count b) = min (unat (log_total b)) 64"
    by (auto simp: bouncer_log_count_def BOUNCER_LOG_CAPACITY_def word_less_nat_alt min_def)
  have len: "length (bouncer_entries b) = min (unat (log_total b)) 64" by (simp add: bouncer_entries_def)
  have pos: "(log_head b + 64 - 1 - unat i) mod 64 < length (door_log b)" using assms by (simp add: bouncer_inv_def)
  show ?thesis
  proof (cases "unat i < min (unat (log_total b)) 64")
    case True
    then have "bouncer_entries b ! unat i = bl_visit (door_log b ! ((log_head b + 64 - 1 - unat i) mod 64))"
      unfolding bouncer_entries_def recent_nth [OF True] using pos assms by (simp add: bouncer_inv_def)
    moreover have "bouncer_log_get i b = Some (door_log b ! ((log_head b + 64 - 1 - unat i) mod 64))"
      using True cnt by (simp add: bouncer_log_get_def word_le_nat_alt BOUNCER_LOG_CAPACITY_def not_le)
    ultimately show ?thesis using True len by simp
  next
    case False
    then show ?thesis using cnt len by (auto simp: bouncer_log_get_def word_le_nat_alt not_less)
  qed
qed

lemma mac_equal_eq: "length a = 6 \<Longrightarrow> 6 \<le> length f \<Longrightarrow> mac_equal f a \<longleftrightarrow> take 6 f = a"
  by (auto simp: mac_equal_def list_all_iff list_eq_iff_nth_eq)

lemma bouncer_accepts: "bouncer_check frame len our_mac = BOUNCE_ACCEPT \<longleftrightarrow> 14 \<le> len \<and> len \<le> 1518 \<and> (mac_equal frame our_mac \<or> frame ! 0 AND 1 = 1)"
proof -
  have o: "frame ! 0 AND 1 = 1 \<longleftrightarrow> odd (frame ! 0)" by (simp add: and_one_eq odd_iff_mod_2_eq_one)
  have "mac_multicast frame \<longleftrightarrow> odd (frame ! 0)" by (simp add: mac_multicast_def and_one_eq odd_iff_mod_2_eq_one)
  moreover have "mac_broadcast frame \<Longrightarrow> odd (frame ! 0)" by (simp add: mac_broadcast_def upt_rec numeral_eq_Suc)
  ultimately show ?thesis unfolding o by (auto simp: bouncer_check_def MIN_ETHERNET_FRAME_def MAX_ETHERNET_FRAME_def not_less)
qed

section \<open>Properties\<close>

text \<open>A frame is let in exactly when its length is that of an Ethernet frame and it is addressed to
  this machine, to everybody or to a group.\<close>

theorem bouncer_lets_in:
  "bouncer_check frame len our_mac = BOUNCE_ACCEPT \<longleftrightarrow>
     14 \<le> len \<and> len \<le> 1518 \<and> (mac_equal frame our_mac \<or> frame ! 0 AND 1 = 1)"
  by (rule bouncer_accepts)

end
