(* ===== verification/Curfew.thy ===== *)
theory Curfew
  imports Slots
begin

text \<open>
  The rate limiter for malformed traffic, \<^verbatim>\<open>Networking/Curfew/curfew.c\<close>: 64 addresses, each with a
  window of 200 ticks, denied from its 150th bad frame in a window until the window rolls. When
  the table is full the address seen least recently is evicted.
\<close>

section \<open>Model\<close>

definition CURFEW_CAPACITY :: nat where "CURFEW_CAPACITY = 64"
definition CURFEW_WINDOW_TICKS :: u32 where "CURFEW_WINDOW_TICKS = 200"
definition CURFEW_THRESHOLD :: u32 where "CURFEW_THRESHOLD = 150"

record curfew_entry_t =
  cf_ip :: bytes
  cf_window_start :: u32
  cf_count :: u32
  cf_last_seen :: u32
  cf_denied :: bool
  cf_in_use :: bool

record curfew =
  cf_entries :: "curfew_entry_t list"
  cf_denied_total :: u32

definition curfew_boot :: curfew where
  "curfew_boot = \<lparr>cf_entries = replicate CURFEW_CAPACITY \<lparr>cf_ip = [0, 0, 0, 0], cf_window_start = 0,
     cf_count = 0, cf_last_seen = 0, cf_denied = False, cf_in_use = False\<rparr>, cf_denied_total = 0\<rparr>"

text \<open>The pointer \<^verbatim>\<open>oldest\<close> of the search loop at its end.\<close>

definition curfew_oldest :: "curfew_entry_t list \<Rightarrow> nat option" where
  "curfew_oldest t =
     fold (\<lambda>i oldest.
       if cf_in_use (t ! i) \<and> (case oldest of None \<Rightarrow> True | Some m \<Rightarrow> cf_last_seen (t ! i) < cf_last_seen (t ! m))
       then Some i else oldest) [0..<length t] None"

definition curfew_find_or_create :: "u32 \<Rightarrow> bytes \<Rightarrow> curfew_entry_t list \<Rightarrow> nat option \<times> curfew_entry_t list" where
  "curfew_find_or_create now ip t =
     (case slot_find cf_in_use cf_ip ip t of
        Some i \<Rightarrow> (Some i, t)
      | None \<Rightarrow>
          (case (case first_idx (\<lambda>e. \<not> cf_in_use e) t of Some f \<Rightarrow> Some f | None \<Rightarrow> curfew_oldest t) of
             None \<Rightarrow> (None, t)
           | Some target \<Rightarrow> (Some target, t[target := (t ! target)\<lparr>cf_ip := ip, cf_window_start := now, cf_count := 0,
                 cf_denied := False, cf_in_use := True, cf_last_seen := now\<rparr>])))"

definition roll_window :: "u32 \<Rightarrow> curfew_entry_t \<Rightarrow> curfew_entry_t" where
  "roll_window now e =
     (if now - cf_window_start e > CURFEW_WINDOW_TICKS
      then e\<lparr>cf_window_start := now, cf_count := 0, cf_denied := False\<rparr> else e)"

definition curfew_check :: "u32 \<Rightarrow> bytes \<Rightarrow> curfew \<Rightarrow> bool \<times> curfew" where
  "curfew_check now src_ip c =
     (case curfew_find_or_create now src_ip (cf_entries c) of
        (None, t) \<Rightarrow> (True, c\<lparr>cf_entries := t\<rparr>)
      | (Some i, t) \<Rightarrow>
          let e = roll_window now ((t ! i)\<lparr>cf_last_seen := now\<rparr>)
          in (\<not> cf_denied e, c\<lparr>cf_entries := t[i := e]\<rparr>))"

definition curfew_strike :: "u32 \<Rightarrow> bytes \<Rightarrow> curfew \<Rightarrow> curfew" where
  "curfew_strike now src_ip c =
     (case curfew_find_or_create now src_ip (cf_entries c) of
        (None, t) \<Rightarrow> c\<lparr>cf_entries := t\<rparr>
      | (Some i, t) \<Rightarrow>
          let e = roll_window now ((t ! i)\<lparr>cf_last_seen := now\<rparr>);
              e = e\<lparr>cf_count := cf_count e + 1\<rparr>
          in if cf_count e \<ge> CURFEW_THRESHOLD \<and> \<not> cf_denied e
             then c\<lparr>cf_entries := t[i := e\<lparr>cf_denied := True\<rparr>], cf_denied_total := cf_denied_total c + 1\<rparr>
             else c\<lparr>cf_entries := t[i := e]\<rparr>)"

definition curfew_denied_count :: "curfew \<Rightarrow> u32" where
  "curfew_denied_count c = cf_denied_total c"

section \<open>The table\<close>

definition curfew_inv :: "curfew_entry_t list \<Rightarrow> bool" where
  "curfew_inv t \<longleftrightarrow> length t = 64 \<and> keyed cf_in_use cf_ip t"

text \<open>The search for the entry seen least recently.\<close>

lemma curfew_oldest_scan:
  assumes "n \<le> length t"
  defines "r \<equiv> fold (\<lambda>i oldest.
       if cf_in_use (t ! i) \<and> (case oldest of None \<Rightarrow> True | Some m \<Rightarrow> cf_last_seen (t ! i) < cf_last_seen (t ! m))
       then Some i else oldest) [0..<n] None"
  shows "case r of None \<Rightarrow> \<forall>j<n. \<not> cf_in_use (t ! j)
    | Some i \<Rightarrow> i < n \<and> cf_in_use (t ! i) \<and> (\<forall>j<n. cf_in_use (t ! j) \<longrightarrow> cf_last_seen (t ! i) \<le> cf_last_seen (t ! j))"
  unfolding r_def using assms(1)
proof (induction n)
  case (Suc n)
  let ?r = "fold (\<lambda>i oldest.
       if cf_in_use (t ! i) \<and> (case oldest of None \<Rightarrow> True | Some m \<Rightarrow> cf_last_seen (t ! i) < cf_last_seen (t ! m))
       then Some i else oldest) [0..<n] None"
  show ?case
  proof (cases ?r)
    case None
    then show ?thesis using Suc by (auto simp: less_Suc_eq)
  next
    case (Some i)
    then show ?thesis using Suc by (auto simp: less_Suc_eq not_less)
  qed
qed simp

lemma curfew_oldest_least:
  assumes "curfew_oldest t = Some i"
  shows "i < length t" "cf_in_use (t ! i)" "j < length t \<Longrightarrow> cf_in_use (t ! j) \<Longrightarrow> cf_last_seen (t ! i) \<le> cf_last_seen (t ! j)"
  using curfew_oldest_scan [of "length t" t] assms by (simp_all add: curfew_oldest_def)

section \<open>Histories of checks and strikes\<close>

datatype curfew_event = Checked u32 bytes | Struck u32 bytes

fun event_tick :: "curfew_event \<Rightarrow> u32" where
  "event_tick (Checked now ip) = now" | "event_tick (Struck now ip) = now"

fun event_ip :: "curfew_event \<Rightarrow> bytes" where
  "event_ip (Checked now ip) = ip" | "event_ip (Struck now ip) = ip"

fun curfew_apply :: "curfew_event \<Rightarrow> curfew \<Rightarrow> curfew" where
  "curfew_apply (Checked now ip) c = snd (curfew_check now ip c)"
| "curfew_apply (Struck now ip) c = curfew_strike now ip c"

fun strikes_of :: "bytes \<Rightarrow> curfew_event list \<Rightarrow> nat" where
  "strikes_of ip [] = 0"
| "strikes_of ip (Checked now ip' # evs) = strikes_of ip evs"
| "strikes_of ip (Struck now ip' # evs) = (if ip' = ip then Suc (strikes_of ip evs) else strikes_of ip evs)"

text \<open>The table as a map from addresses to entries.\<close>

definition curfew_view :: "curfew \<Rightarrow> bytes \<Rightarrow> curfew_entry_t option" where
  "curfew_view c = slot_view cf_in_use cf_ip (\<lambda>e. e) (cf_entries c)"

definition fresh_entry :: "u32 \<Rightarrow> bytes \<Rightarrow> curfew_entry_t" where
  "fresh_entry now ip = \<lparr>cf_ip = ip, cf_window_start = now, cf_count = 0, cf_last_seen = now, cf_denied = False, cf_in_use = True\<rparr>"

fun entry_next :: "curfew_event \<Rightarrow> curfew_entry_t \<Rightarrow> curfew_entry_t" where
  "entry_next (Checked now ip) e = roll_window now (e\<lparr>cf_last_seen := now\<rparr>)"
| "entry_next (Struck now ip) e =
     (let e = roll_window now (e\<lparr>cf_last_seen := now\<rparr>); e = e\<lparr>cf_count := cf_count e + 1\<rparr>
      in if cf_count e \<ge> CURFEW_THRESHOLD \<and> \<not> cf_denied e then e\<lparr>cf_denied := True\<rparr> else e)"

lemma entry_next_key [simp]: "cf_ip (entry_next ev e) = cf_ip e" "cf_in_use (entry_next ev e) = cf_in_use e"
  by (cases ev; simp add: roll_window_def Let_def)+

lemma curfew_view_Some:
  assumes "curfew_view c ip = Some e"
  obtains i where "slot_find cf_in_use cf_ip ip (cf_entries c) = Some i" "cf_entries c ! i = e"
  using assms by (auto simp: curfew_view_def slot_view_def)

text \<open>While the table has room for the address, an event changes the address's own entry and no other.\<close>

lemma find_or_create_room:
  assumes "slot_for cf_in_use cf_ip ip t = Some i"
  shows "curfew_find_or_create now ip t =
    (Some i, t[i := if slot_find cf_in_use cf_ip ip t = None then fresh_entry now ip else t ! i])"
proof (cases "slot_find cf_in_use cf_ip ip t")
  case None
  have "(t ! i)\<lparr>cf_ip := ip, cf_window_start := now, cf_count := 0, cf_denied := False, cf_in_use := True, cf_last_seen := now\<rparr> = fresh_entry now ip"
    by (cases "t ! i") (simp add: fresh_entry_def)
  then show ?thesis using None assms by (simp add: slot_for_def curfew_find_or_create_def)
next
  case (Some j)
  then show ?thesis using assms by (simp add: slot_for_def curfew_find_or_create_def)
qed

lemma event_entries:
  assumes "slot_for cf_in_use cf_ip (event_ip ev) (cf_entries c) = Some i"
  shows "cf_entries (curfew_apply ev c) = (cf_entries c)[i := entry_next ev
    (case curfew_view c (event_ip ev) of None \<Rightarrow> fresh_entry (event_tick ev) (event_ip ev) | Some e \<Rightarrow> e)]"
proof -
  have i: "i < length (cf_entries c)" by (rule slot_forD(1) [OF assms])
  define b where "b = (if slot_find cf_in_use cf_ip (event_ip ev) (cf_entries c) = None
    then fresh_entry (event_tick ev) (event_ip ev) else cf_entries c ! i)"
  have v: "(case curfew_view c (event_ip ev) of None \<Rightarrow> fresh_entry (event_tick ev) (event_ip ev) | Some e \<Rightarrow> e) = b"
    using assms by (auto simp: b_def slot_for_def curfew_view_def slot_view_def split: option.splits)
  have f: "curfew_find_or_create (event_tick ev) (event_ip ev) (cf_entries c) = (Some i, (cf_entries c)[i := b])"
    unfolding b_def by (rule find_or_create_room [OF assms])
  show ?thesis
    using f i unfolding v by (cases ev) (auto simp: curfew_check_def curfew_strike_def Let_def)
qed

lemma event_view:
  assumes inv: "curfew_inv (cf_entries c)" and room: "event_ip ev \<in> dom (curfew_view c) \<or> card (dom (curfew_view c)) < 64"
  shows "curfew_inv (cf_entries (curfew_apply ev c))"
    "curfew_view (curfew_apply ev c) = (curfew_view c)(event_ip ev \<mapsto> entry_next ev
       (case curfew_view c (event_ip ev) of None \<Rightarrow> fresh_entry (event_tick ev) (event_ip ev) | Some e \<Rightarrow> e))"
proof -
  let ?t = "cf_entries c" and ?ip = "event_ip ev"
  define e where "e = entry_next ev (case curfew_view c ?ip of None \<Rightarrow> fresh_entry (event_tick ev) ?ip | Some e \<Rightarrow> e)"
  have k: "keyed cf_in_use cf_ip ?t" and len: "length ?t = 64" using inv by (simp_all add: curfew_inv_def)
  have "slot_for cf_in_use cf_ip ?ip ?t \<noteq> None"
    using room slot_view_dom(2) [OF k, of "\<lambda>e. e"] len unfolding slot_for_None curfew_view_def domIff slot_view_None by auto
  then obtain i where i: "slot_for cf_in_use cf_ip ?ip ?t = Some i" by blast
  note I = slot_forD [OF i] and E = event_entries [OF i, folded e_def]
  have e: "cf_in_use e" "cf_ip e = ?ip"
    using slot_findD [of cf_in_use cf_ip ?ip ?t] by (auto simp: e_def fresh_entry_def curfew_view_def slot_view_def split: option.splits)
  note W = keyed_set [OF k I(1) e(1)] slot_view_set [OF k I(1) e(1), where val = "\<lambda>e. e"]
  show "curfew_inv (cf_entries (curfew_apply ev c))" using W(1) I e len by (simp add: curfew_inv_def E)
  show "curfew_view (curfew_apply ev c) = (curfew_view c)(?ip \<mapsto> e)" using W(2) I e by (simp add: curfew_view_def E)
qed

section \<open>The tally of one address\<close>

text \<open>The entry of an address after \<open>n\<close> strikes in the window that began at \<open>w\<close>.\<close>

definition tally :: "u32 \<Rightarrow> nat \<Rightarrow> curfew_entry_t \<Rightarrow> bool" where
  "tally w n e \<longleftrightarrow> cf_window_start e = w \<and> cf_count e = of_nat n \<and> (cf_denied e \<longleftrightarrow> 150 \<le> n)"

lemma threshold_word: "n < 150 \<Longrightarrow> (CURFEW_THRESHOLD \<le> of_nat n + 1) = (150 \<le> Suc n)"
  by (simp add: CURFEW_THRESHOLD_def word_le_nat_alt unat_word_ariths unat_of_nat)

lemma tally_within:
  assumes "tally w n e" "event_tick ev - w \<le> 200"
  shows "tally w (n + strikes_of (event_ip ev) [ev]) (entry_next ev e)"
proof -
  have "\<not> CURFEW_WINDOW_TICKS < event_tick ev - w" using assms(2) by (simp add: CURFEW_WINDOW_TICKS_def not_less)
  then show ?thesis
    using assms(1) threshold_word [of n]
    by (cases ev) (auto simp: tally_def roll_window_def Let_def add.commute not_le)
qed

lemma tally_opens:
  assumes "200 < event_tick ev - cf_window_start e"
  shows "tally (event_tick ev) (strikes_of (event_ip ev) [ev]) (entry_next ev e)"
  using assms threshold_word [of 0] by (cases ev) (simp_all add: tally_def roll_window_def Let_def CURFEW_WINDOW_TICKS_def)

lemma tally_fresh: "tally (event_tick ev) (strikes_of (event_ip ev) [ev]) (entry_next ev (fresh_entry (event_tick ev) (event_ip ev)))"
  using tally_within [of "event_tick ev" 0 "fresh_entry (event_tick ev) (event_ip ev)" ev] by (simp add: tally_def fresh_entry_def)

lemma strikes_of_Cons: "strikes_of ip (ev # evs) = (if event_ip ev = ip then strikes_of ip [ev] else 0) + strikes_of ip evs"
  by (cases ev) simp_all

lemma tally_history:
  assumes "curfew_inv (cf_entries c)" "curfew_view c ip = Some e" "tally w n e"
    "card (dom (curfew_view c) \<union> event_ip ` set evs) \<le> 64" "\<forall>ev\<in>set evs. event_ip ev = ip \<longrightarrow> event_tick ev - w \<le> 200"
  shows "\<exists>e'. curfew_view (fold curfew_apply evs c) ip = Some e' \<and> tally w (n + strikes_of ip evs) e'"
  using assms
proof (induction evs arbitrary: c e n)
  case (Cons ev evs)
  let ?c = "curfew_apply ev c" and ?n = "n + (if event_ip ev = ip then strikes_of ip [ev] else 0)"
  have fin: "finite (dom (curfew_view c))"
    using Cons.prems(1) by (simp add: curfew_inv_def curfew_view_def slot_view_dom(1))
  have "card (insert (event_ip ev) (dom (curfew_view c))) \<le> 64"
    by (rule order_trans [OF card_mono Cons.prems(4)]) (use fin in auto)
  then have room: "event_ip ev \<in> dom (curfew_view c) \<or> card (dom (curfew_view c)) < 64"
    using fin by (cases "event_ip ev \<in> dom (curfew_view c)") simp_all
  note V = event_view [OF Cons.prems(1) room]
  obtain e' where e': "curfew_view ?c ip = Some e'" "tally w ?n e'"
    using Cons.prems(2,3,5) tally_within [of w n e ev] V(2) by (cases "event_ip ev = ip") auto
  have d: "dom (curfew_view ?c) \<union> event_ip ` set evs = dom (curfew_view c) \<union> event_ip ` set (ev # evs)" using V(2) by auto
  show ?case
    using Cons.IH [OF V(1) e'] Cons.prems(4,5) d strikes_of_Cons [of ip ev evs] by (simp add: add.assoc)
qed auto

lemma check_tally:
  assumes "curfew_view c ip = Some e" "tally w n e"
  shows "fst (curfew_check now ip c) \<longleftrightarrow> n < 150 \<or> 200 < now - w"
proof -
  obtain i where "slot_find cf_in_use cf_ip ip (cf_entries c) = Some i" "cf_entries c ! i = e" by (rule curfew_view_Some [OF assms(1)])
  then show ?thesis
    using assms(2) by (auto simp: tally_def curfew_check_def curfew_find_or_create_def Let_def roll_window_def CURFEW_WINDOW_TICKS_def)
qed

section \<open>Properties\<close>

text \<open>C20. Take a history of checks and strikes of any addresses, whose first event is the one that opens a
  window for \<open>ip\<close> at tick \<open>w\<close>: the address has no entry yet, or the window of its entry has run out.
  If the further events of \<open>ip\<close> come within 200 ticks of \<open>w\<close>, and the addresses in the table and in the
  history are at most 64, so that nothing is evicted, then afterwards \<open>ip\<close> is refused exactly
  when at least 150 of the strikes were its own and the window still runs; what the other addresses did
  has no influence. Tick differences are taken modulo the counter's width. With more than 64
  addresses the least recently seen one is evicted, and its count is lost: that case is outside.\<close>

theorem curfew_denies:
  assumes "curfew_inv (cf_entries c)" "event_ip ev = ip" "event_tick ev = w"
    "\<forall>e. curfew_view c ip = Some e \<longrightarrow> 200 < w - cf_window_start e"
    "\<forall>ev\<in>set evs. event_ip ev = ip \<longrightarrow> event_tick ev - w \<le> 200"
    "card (dom (curfew_view c) \<union> event_ip ` set (ev # evs)) \<le> 64"
  shows "fst (curfew_check now ip (fold curfew_apply (ev # evs) c)) \<longleftrightarrow> strikes_of ip (ev # evs) < 150 \<or> 200 < now - w"
proof -
  let ?c = "curfew_apply ev c"
  have fin: "finite (dom (curfew_view c))" using assms(1) by (simp add: curfew_inv_def curfew_view_def slot_view_dom(1))
  have "card (insert ip (dom (curfew_view c))) \<le> 64"
    by (rule order_trans [OF card_mono assms(6)]) (use fin assms(2) in auto)
  then have room: "event_ip ev \<in> dom (curfew_view c) \<or> card (dom (curfew_view c)) < 64"
    using fin assms(2) by (cases "ip \<in> dom (curfew_view c)") simp_all
  note V = event_view [OF assms(1) room]
  obtain e where e: "curfew_view ?c ip = Some e" "tally w (strikes_of ip [ev]) e"
    using V(2) assms(2-4) tally_fresh [of ev] tally_opens [of ev] by (cases "curfew_view c ip") auto
  have "dom (curfew_view ?c) \<union> event_ip ` set evs = dom (curfew_view c) \<union> event_ip ` set (ev # evs)" using V(2) by auto
  then obtain e' where "curfew_view (fold curfew_apply evs ?c) ip = Some e'" "tally w (strikes_of ip [ev] + strikes_of ip evs) e'"
    using tally_history [OF V(1) e _ assms(5)] assms(6) by auto
  from check_tally [OF this] show ?thesis using strikes_of_Cons [of ip ev evs] assms(2) by simp
qed

theorem curfew_denies_witness:
  "let evs = Checked 5 [10, 0, 0, 9] # Struck 6 [10, 0, 0, 7] # replicate 150 (Struck 7 [10, 0, 0, 9])
   in fst (curfew_check 9 [10, 0, 0, 9] (fold curfew_apply evs curfew_boot)) = False \<and>
      fst (curfew_check 206 [10, 0, 0, 9] (fold curfew_apply evs curfew_boot)) = True"
proof -
  let ?evs = "Struck 6 [10, 0, 0, 7] # replicate 150 (Struck 7 [10, 0, 0, 9])"
  have v: "curfew_view curfew_boot = Map.empty"
    by (simp add: curfew_view_def curfew_boot_def)
  have "curfew_inv (cf_entries curfew_boot)" by (simp add: curfew_inv_def curfew_boot_def CURFEW_CAPACITY_def)
  moreover have "strikes_of [10, 0, 0, 9] (replicate n (Struck 7 [10, 0, 0, 9])) = n" for n by (induction n) simp_all
  moreover have "event_ip ` set (Checked 5 [10, 0, 0, 9] # ?evs) = {[10, 0, 0, 7], [10, 0, 0, 9]}" by auto
  moreover have "\<forall>ev\<in>set ?evs. event_ip ev = [10, 0, 0, 9] \<longrightarrow> event_tick ev - 5 \<le> 200" by simp
  ultimately show ?thesis
    using curfew_denies [of curfew_boot "Checked 5 [10, 0, 0, 9]" "[10, 0, 0, 9]" 5 ?evs 9]
      curfew_denies [of curfew_boot "Checked 5 [10, 0, 0, 9]" "[10, 0, 0, 9]" 5 ?evs 206] v
    by (simp add: Let_def del: fold.simps image_insert set_simps)
qed

text \<open>A new address on a full table takes the slot of an address that no other was seen before; every
  other entry stays.\<close>

theorem curfew_evicts_oldest:
  assumes "curfew_inv t" "count_if cf_in_use t = 64" "slot_find cf_in_use cf_ip ip t = None"
    "curfew_find_or_create now ip t = (Some i, t')"
  shows "cf_ip (t' ! i) = ip \<and> (\<forall>j<64. cf_last_seen (t ! i) \<le> cf_last_seen (t ! j)) \<and> (\<forall>j<64. j \<noteq> i \<longrightarrow> t' ! j = t ! j)"
proof -
  have len: "length t = 64" using assms(1) by (simp add: curfew_inv_def)
  have full: "list_all cf_in_use t" using assms(2) len by (metis count_if_full list_all_iff)
  then have used: "cf_in_use (t ! j)" if "j < 64" for j using that len by (simp add: list_all_length)
  have none: "first_idx (\<lambda>e. \<not> cf_in_use e) t = None" using full by (simp add: first_idx_None list_all_iff)
  have i: "curfew_oldest t = Some i"
    using assms(3,4) none by (auto simp: curfew_find_or_create_def split: option.splits)
  then have "t' = t[i := (t ! i)\<lparr>cf_ip := ip, cf_window_start := now, cf_count := 0,
                 cf_denied := False, cf_in_use := True, cf_last_seen := now\<rparr>]"
    using assms(3,4) none by (simp add: curfew_find_or_create_def)
  then show ?thesis using curfew_oldest_least [OF i] used len by simp
qed

theorem curfew_evicts_oldest_witness:
  "let t = map (\<lambda>i. \<lparr>cf_ip = [10, 0, 0, of_nat i], cf_window_start = 0, cf_count = 0,
        cf_last_seen = (if i = 7 then 1 else 50), cf_denied = False, cf_in_use = True\<rparr>) [0..<64]
   in \<forall>j<64. cf_last_seen (t ! 7) \<le> cf_last_seen (t ! j)"
proof -
  define t where "t = map (\<lambda>i. \<lparr>cf_ip = [10, 0, 0, of_nat i], cf_window_start = 0, cf_count = 0,
        cf_last_seen = (if i = 7 then 1 else 50), cf_denied = False, cf_in_use = True\<rparr>) [0..<64]"
  have "distinct (map cf_ip t)" unfolding t_def by code_simp
  then have 1: "curfew_inv t" by (simp add: curfew_inv_def keyed_distinct t_def)
  have 2: "count_if cf_in_use t = 64" "slot_find cf_in_use cf_ip [10, 0, 0, 99] t = None"
    "fst (curfew_find_or_create 60 [10, 0, 0, 99] t) = Some 7"
    unfolding t_def by code_simp+
  obtain t' where "curfew_find_or_create 60 [10, 0, 0, 99] t = (Some 7, t')"
    using 2(3) by (metis prod.collapse)
  from curfew_evicts_oldest [OF 1 2(1,2) this] show ?thesis by (simp add: t_def)
qed

end
