(* ===== verification/Audit_Log.thy ===== *)
theory Audit_Log
  imports Prelude Interfaces
begin

text \<open>
  Security events: the hook table of \<^verbatim>\<open>Networking/IDS/ids.c\<close> and its one subscriber, the event
  log of \<^verbatim>\<open>Networking/Audit/audit.c\<close>. A hook is a function on the state \<open>'s\<close> its module keeps;
  the current tick is an argument. The audit log provides the \<open>recent_log\<close> contract.
\<close>

section \<open>Model of the hook table\<close>

definition IDS_MAX_HOOKS :: nat where "IDS_MAX_HOOKS = 8"

datatype ids_event_type_t = IDS_EVENT_GUESTLIST_DENY | IDS_EVENT_CURFEW_REJECT
  | IDS_EVENT_ROLODEX_DISPUTED | IDS_EVENT_IP_REJECT | IDS_EVENT_WATCHLIST_FLAG | IDS_EVENT_PORT_SCAN_BAN

fun ids_event_code :: "ids_event_type_t \<Rightarrow> u8" where
  "ids_event_code IDS_EVENT_GUESTLIST_DENY = 1"
| "ids_event_code IDS_EVENT_CURFEW_REJECT = 2"
| "ids_event_code IDS_EVENT_ROLODEX_DISPUTED = 3"
| "ids_event_code IDS_EVENT_IP_REJECT = 4"
| "ids_event_code IDS_EVENT_WATCHLIST_FLAG = 5"
| "ids_event_code IDS_EVENT_PORT_SCAN_BAN = 6"

type_synonym 's ids_hook_fn = "u32 \<Rightarrow> ids_event_type_t \<Rightarrow> bytes \<Rightarrow> string option \<Rightarrow> 's \<Rightarrow> 's"

text \<open>The table keeps the registered hooks in order; \<^verbatim>\<open>hook_count\<close> is its length.
  \<open>ids_env\<close> is the state the hooks act on.\<close>

record 's ids =
  hooks :: "'s ids_hook_fn list"
  ids_env :: 's

definition ids_register_hook :: "'s ids_hook_fn \<Rightarrow> 's ids \<Rightarrow> bool \<times> 's ids" where
  "ids_register_hook fn s =
     (if length (hooks s) \<ge> IDS_MAX_HOOKS then (False, s) else (True, s\<lparr>hooks := hooks s @ [fn]\<rparr>))"

definition ids_notify :: "u32 \<Rightarrow> ids_event_type_t \<Rightarrow> bytes option \<Rightarrow> string option \<Rightarrow> 's ids \<Rightarrow> 's ids" where
  "ids_notify now type ip detail s =
     (let safe_ip = (case ip of Some a \<Rightarrow> a | None \<Rightarrow> [0, 0, 0, 0])
      in s\<lparr>ids_env := fold (\<lambda>h. h now type safe_ip detail) (hooks s) (ids_env s)\<rparr>)"

fun ids_event_string :: "ids_event_type_t \<Rightarrow> string" where
  "ids_event_string IDS_EVENT_GUESTLIST_DENY = ''guestlist deny''"
| "ids_event_string IDS_EVENT_CURFEW_REJECT = ''curfew rate limit''"
| "ids_event_string IDS_EVENT_ROLODEX_DISPUTED = ''rolodex disputed''"
| "ids_event_string IDS_EVENT_IP_REJECT = ''malformed ip packet''"
| "ids_event_string IDS_EVENT_WATCHLIST_FLAG = ''watchlist flood flag''"
| "ids_event_string IDS_EVENT_PORT_SCAN_BAN = ''sentry port scan ban''"

section \<open>Model of the audit log\<close>

definition AUDIT_LOG_CAPACITY :: nat where "AUDIT_LOG_CAPACITY = 64"

record audit_record_t =
  audit_tick :: u32
  audit_event_type :: u8
  audit_ip :: bytes

definition audit_zero :: audit_record_t where
  "audit_zero = \<lparr>audit_tick = 0, audit_event_type = 0, audit_ip = [0, 0, 0, 0]\<rparr>"

record audit =
  log_buf :: "audit_record_t list"
  write_pos :: nat
  total_logged :: u32

definition audit_boot :: audit where
  "audit_boot = \<lparr>log_buf = replicate AUDIT_LOG_CAPACITY audit_zero, write_pos = 0, total_logged = 0\<rparr>"

definition on_event :: "audit ids_hook_fn" where
  "on_event now type ip detail a =
     a\<lparr>log_buf := (log_buf a)[write_pos a := \<lparr>audit_tick = now, audit_event_type = ids_event_code type, audit_ip = take 4 ip\<rparr>],
       write_pos := (write_pos a + 1) mod AUDIT_LOG_CAPACITY,
       total_logged := total_logged a + 1\<rparr>"

definition audit_start :: "audit ids \<Rightarrow> audit ids" where
  "audit_start s = snd (ids_register_hook on_event s)"

definition audit_count :: "audit \<Rightarrow> u32" where
  "audit_count a = total_logged a"

definition audit_held :: "audit \<Rightarrow> u32" where
  "audit_held a = (if total_logged a < of_nat AUDIT_LOG_CAPACITY then total_logged a else of_nat AUDIT_LOG_CAPACITY)"

definition audit_get :: "u32 \<Rightarrow> audit \<Rightarrow> bool \<times> audit_record_t" where
  "audit_get i a =
     (if i \<ge> audit_held a then (False, audit_zero)
      else let oldest = (if total_logged a < of_nat AUDIT_LOG_CAPACITY then 0 else write_pos a);
               idx = (oldest + unat i) mod AUDIT_LOG_CAPACITY
           in (True, log_buf a ! idx))"

section \<open>The log contract\<close>

definition audit_inv :: "audit \<Rightarrow> bool" where
  "audit_inv a \<longleftrightarrow> length (log_buf a) = 64 \<and> write_pos a = unat (total_logged a) mod 64"

definition audit_entries :: "audit \<Rightarrow> audit_record_t list" where
  "audit_entries a = recent (log_buf a) (write_pos a) (min (unat (total_logged a)) 64)"

definition audit_room :: "audit \<Rightarrow> nat" where
  "audit_room a = 2 ^ 32 - 1 - unat (total_logged a)"

text \<open>An event as the log records it.\<close>

definition audit_add :: "u32 \<times> ids_event_type_t \<times> bytes \<Rightarrow> audit \<Rightarrow> audit" where
  "audit_add e a = on_event (fst e) (fst (snd e)) (snd (snd e)) None a"

definition audit_of :: "u32 \<times> ids_event_type_t \<times> bytes \<Rightarrow> audit_record_t" where
  "audit_of e = \<lparr>audit_tick = fst e, audit_event_type = ids_event_code (fst (snd e)), audit_ip = take 4 (snd (snd e))\<rparr>"

definition audit_push :: "audit_record_t \<Rightarrow> audit \<Rightarrow> audit" where
  "audit_push r a =
     a\<lparr>log_buf := (log_buf a)[write_pos a := r], write_pos := (write_pos a + 1) mod AUDIT_LOG_CAPACITY,
       total_logged := total_logged a + 1\<rparr>"

lemma audit_add_push: "audit_add e = audit_push (audit_of e)"
  by (rule ext) (simp add: audit_add_def audit_push_def on_event_def audit_of_def)

interpretation events: recent_log audit_push audit_entries audit_room 64 audit_inv
proof unfold_locales
  fix a :: audit and r
  assume inv: "audit_inv a"
  show "length (audit_entries a) \<le> 64" by (simp add: audit_entries_def)
  assume "0 < audit_room a"
  then have suc: "unat (total_logged a + 1) = Suc (unat (total_logged a))"
    by (simp add: audit_room_def u32_suc_room)
  have head: "write_pos a < length (log_buf a)" using inv by (simp add: audit_inv_def)
  have "min (Suc (min (unat (total_logged a)) 64)) 64 = min (Suc (unat (total_logged a))) 64" by simp
  then have "audit_entries (audit_push r a) = take 64 (r # audit_entries a)"
    using recent_add [OF head, of "min (unat (total_logged a)) 64" r] inv suc
    by (simp add: audit_entries_def audit_push_def audit_inv_def AUDIT_LOG_CAPACITY_def)
  then show "audit_inv (audit_push r a) \<and> audit_room (audit_push r a) = audit_room a - 1 \<and>
      audit_entries (audit_push r a) = take 64 (r # audit_entries a)"
    using inv suc by (simp add: audit_inv_def audit_push_def audit_room_def AUDIT_LOG_CAPACITY_def mod_Suc_eq)
qed

lemma fold_audit_add: "fold audit_add es = fold audit_push (map audit_of es)"
  by (induction es) (simp_all add: audit_add_push fun_eq_iff)

lemma audit_held_nat: "unat (audit_held a) = min (unat (total_logged a)) 64"
  by (auto simp: audit_held_def AUDIT_LOG_CAPACITY_def word_less_nat_alt min_def)

lemma audit_get_entries:
  assumes "audit_inv a" "unat i < length (audit_entries a)"
  shows "audit_get i a = (True, rev (audit_entries a) ! unat i)"
proof -
  let ?n = "unat (total_logged a)"
  define m where "m = min ?n 64"
  have i: "unat i < m" using assms(2) by (simp add: audit_entries_def m_def)
  then have ok: "\<not> i \<ge> audit_held a" by (simp add: word_le_nat_alt audit_held_nat flip: m_def)
  have "m - Suc (unat i) < m" using i by simp
  from recent_nth [OF this, of "log_buf a" "write_pos a"]
  have pos: "rev (audit_entries a) ! unat i = log_buf a ! ((write_pos a + 64 - 1 - (m - Suc (unat i))) mod 64)"
    using i assms(1) by (simp add: rev_nth audit_entries_def audit_inv_def ac_simps flip: m_def)
  have "(write_pos a + 64 - 1 - (m - Suc (unat i))) mod 64 = ((if ?n < 64 then 0 else write_pos a) + unat i) mod 64"
  proof (cases "?n < 64")
    case True
    then have "write_pos a + 64 - 1 - (m - Suc (unat i)) = unat i + 64" using assms(1) i by (simp add: audit_inv_def m_def)
    then show ?thesis using True by simp
  next
    case False
    then show ?thesis using i by (simp add: m_def)
  qed
  then show ?thesis
    using ok pos by (simp add: audit_get_def Let_def AUDIT_LOG_CAPACITY_def word_less_nat_alt)
qed

section \<open>Properties\<close>

text \<open>C19. After any number of events below the width of the counter, the log returns the last 64 of
  them, oldest first, and nothing else.\<close>

theorem audit_keeps_last:
  assumes "length es < 2 ^ 32"
  shows "audit_get i (fold audit_add es audit_boot) =
    (let kept = drop (length es - 64) es
     in if unat i < length kept then (True, audit_of (kept ! unat i)) else (False, audit_zero))"
proof -
  define a where "a = fold audit_add es audit_boot"
  have boot: "audit_inv audit_boot" "audit_entries audit_boot = []"
    by (simp_all add: audit_inv_def audit_boot_def AUDIT_LOG_CAPACITY_def audit_entries_def)
  have a: "audit_inv a" "audit_entries a = take 64 (rev (map audit_of es))"
    using events.adds_from_empty [OF boot, of "map audit_of es"] assms
    by (simp_all add: a_def fold_audit_add audit_room_def audit_boot_def)
  have rev: "rev (audit_entries a) = map audit_of (drop (length es - 64) es)"
    by (simp add: a(2) take_rev drop_map flip: rev_map)
  have len: "length (audit_entries a) = length (drop (length es - 64) es)"
    using arg_cong [OF rev, of length] by simp
  show ?thesis
  proof (cases "unat i < length (drop (length es - 64) es)")
    case True
    then show ?thesis
      using audit_get_entries [OF a(1), of i] len rev unfolding Let_def a_def [symmetric] by simp
  next
    case False
    then have "\<not> unat i < unat (audit_held a)" using len by (simp add: audit_held_nat audit_entries_def)
    then show ?thesis
      using False unfolding Let_def a_def [symmetric] by (simp add: audit_get_def word_le_nat_alt)
  qed
qed

theorem audit_keeps_last_witness:
  "audit_get 0 (fold audit_add [(5, IDS_EVENT_IP_REJECT, [10, 0, 0, 1])] audit_boot) =
     (True, \<lparr>audit_tick = 5, audit_event_type = 4, audit_ip = [10, 0, 0, 1]\<rparr>)"
  using audit_keeps_last [of "[(5, IDS_EVENT_IP_REJECT, [10, 0, 0, 1])]" 0] by (simp add: audit_of_def)

end
