(* ===== verification/WatchList.thy ===== *)
theory WatchList
  imports Slots Audit_Log
begin

text \<open>
  The flood detector by hardware address, \<^verbatim>\<open>Networking/WatchList/watchlist.c\<close>: 16 addresses with
  a window of 200 ticks, flagged from the 4000th rejected frame in a window. A full table
  ignores new addresses. Flagging notifies the event hooks.
\<close>

section \<open>Model\<close>

definition WATCHLIST_CAPACITY :: nat where "WATCHLIST_CAPACITY = 16"
definition WATCH_WINDOW_TICKS :: u32 where "WATCH_WINDOW_TICKS = 200"
definition WATCH_THRESHOLD :: u32 where "WATCH_THRESHOLD = 4000"

record watch_entry_t =
  wl_mac :: bytes
  wl_window_start :: u32
  wl_count :: u32
  wl_flagged :: bool
  wl_in_use :: bool

record watchlist =
  wl_entries :: "watch_entry_t list"
  wl_dropped_total :: u32

definition watchlist_boot :: watchlist where
  "watchlist_boot = \<lparr>wl_entries = replicate WATCHLIST_CAPACITY \<lparr>wl_mac = replicate 6 0, wl_window_start = 0,
     wl_count = 0, wl_flagged = False, wl_in_use = False\<rparr>, wl_dropped_total = 0\<rparr>"

definition watch_find_or_create :: "u32 \<Rightarrow> bytes \<Rightarrow> watch_entry_t list \<Rightarrow> nat option \<times> watch_entry_t list" where
  "watch_find_or_create now mac t =
     (case slot_find wl_in_use wl_mac mac t of
        Some i \<Rightarrow> (Some i, t)
      | None \<Rightarrow>
          (case first_idx (\<lambda>e. \<not> wl_in_use e) t of
             Some f \<Rightarrow> (Some f, t[f := (t ! f)\<lparr>wl_mac := mac, wl_window_start := now, wl_count := 0,
                 wl_flagged := False, wl_in_use := True\<rparr>])
           | None \<Rightarrow> (None, t)))"

definition watchlist_strike :: "u32 \<Rightarrow> bytes \<Rightarrow> watchlist \<times> 's ids \<Rightarrow> bool \<times> watchlist \<times> 's ids" where
  "watchlist_strike now src_mac st =
     (let (w, hk) = st in
      case watch_find_or_create now src_mac (wl_entries w) of
        (None, t) \<Rightarrow> (False, w\<lparr>wl_entries := t\<rparr>, hk)
      | (Some i, t) \<Rightarrow>
          let e = t ! i;
              e = (if now - wl_window_start e > WATCH_WINDOW_TICKS
                   then e\<lparr>wl_window_start := now, wl_count := 0, wl_flagged := False\<rparr> else e);
              e = e\<lparr>wl_count := wl_count e + 1\<rparr>
          in if wl_count e \<ge> WATCH_THRESHOLD
             then (let hk' = (if \<not> wl_flagged e
                     then ids_notify now IDS_EVENT_WATCHLIST_FLAG None (Some ''flagged by MAC,No ip available in this layer '') hk
                     else hk)
                   in (True, w\<lparr>wl_entries := t[i := e\<lparr>wl_flagged := True\<rparr>]\<rparr>, hk'))
             else (wl_flagged e, w\<lparr>wl_entries := t[i := e]\<rparr>, hk))"

definition watchlist_note_dropped :: "watchlist \<Rightarrow> watchlist" where
  "watchlist_note_dropped w = w\<lparr>wl_dropped_total := wl_dropped_total w + 1\<rparr>"

definition watchlist_dropped_count :: "watchlist \<Rightarrow> u32" where
  "watchlist_dropped_count w = wl_dropped_total w"

definition watchlist_is_flagged :: "u32 \<Rightarrow> bytes \<Rightarrow> watchlist \<Rightarrow> bool \<times> watchlist" where
  "watchlist_is_flagged now src_mac w =
     (case slot_find wl_in_use wl_mac src_mac (wl_entries w) of
        None \<Rightarrow> (False, w)
      | Some i \<Rightarrow>
          let e = wl_entries w ! i;
              e = (if now - wl_window_start e > WATCH_WINDOW_TICKS then e\<lparr>wl_flagged := False\<rparr> else e)
          in (wl_flagged e, w\<lparr>wl_entries := (wl_entries w)[i := e]\<rparr>))"

definition watchlist_flagged_count :: "watchlist \<Rightarrow> nat" where
  "watchlist_flagged_count w = count_if (\<lambda>e. wl_in_use e \<and> wl_flagged e) (wl_entries w)"

section \<open>Strikes of one address\<close>

definition watch_inv :: "watch_entry_t list \<Rightarrow> bool" where
  "watch_inv t \<longleftrightarrow> length t = 16 \<and> keyed wl_in_use wl_mac t"

text \<open>The entry of an address after \<open>n\<close> strikes in the window that began at \<open>w\<close>.\<close>

definition watched :: "bytes \<Rightarrow> u32 \<Rightarrow> nat \<Rightarrow> watchlist \<Rightarrow> bool" where
  "watched mac w n s \<longleftrightarrow> watch_inv (wl_entries s) \<and>
     (\<exists>i. slot_find wl_in_use wl_mac mac (wl_entries s) = Some i \<and>
        wl_window_start (wl_entries s ! i) = w \<and> wl_count (wl_entries s ! i) = of_nat n \<and>
        (wl_flagged (wl_entries s ! i) \<longleftrightarrow> 4000 \<le> n))"

lemma watch_entry_write:
  assumes "watch_inv t" "i < length t" "wl_in_use e"
    "wl_in_use (t ! i) \<Longrightarrow> wl_mac (t ! i) = wl_mac e" "\<not> wl_in_use (t ! i) \<Longrightarrow> slot_find wl_in_use wl_mac (wl_mac e) t = None"
  shows "watch_inv (t[i := e])" "slot_find wl_in_use wl_mac (wl_mac e) (t[i := e]) = Some i"
proof -
  have k: "keyed wl_in_use wl_mac t" using assms(1) by (simp add: watch_inv_def)
  have k': "keyed wl_in_use wl_mac (t[i := e])" using assms by (intro keyed_set [OF k])
  then show "watch_inv (t[i := e])" using assms(1) by (simp add: watch_inv_def)
  show "slot_find wl_in_use wl_mac (wl_mac e) (t[i := e]) = Some i"
    using slot_find_unique [OF k', of i] assms(2,3) by simp
qed

lemma watch_threshold: "n < 4000 \<Longrightarrow> (WATCH_THRESHOLD \<le> of_nat n + 1) = (4000 \<le> Suc n)"
  by (simp add: WATCH_THRESHOLD_def word_le_nat_alt unat_word_ariths unat_of_nat)

lemma watch_first:
  assumes inv: "watch_inv (wl_entries s)" and new: "slot_find wl_in_use wl_mac mac (wl_entries s) = None"
    and free: "count_if wl_in_use (wl_entries s) < 16"
  obtains s' where "snd (watchlist_strike now mac (s, hk)) = (s', hk)" "watched mac now 1 s'"
proof -
  let ?t = "wl_entries s"
  have len: "length ?t = 16" using inv by (simp add: watch_inv_def)
  obtain f where f: "first_idx (\<lambda>e. \<not> wl_in_use e) ?t = Some f"
    using free len first_idx_None [of "\<lambda>e. \<not> wl_in_use e" ?t] count_if_full [of wl_in_use ?t] by fastforce
  define e where "e = (?t ! f)\<lparr>wl_mac := mac, wl_window_start := now, wl_count := 1, wl_flagged := False, wl_in_use := True\<rparr>"
  have "snd (watchlist_strike now mac (s, hk)) = (s\<lparr>wl_entries := ?t[f := e]\<rparr>, hk)"
    using f new first_idx_less [OF f] watch_threshold [of 0]
    by (cases "?t ! f") (simp add: watchlist_strike_def watch_find_or_create_def Let_def e_def)
  moreover have "watch_inv (?t[f := e])" "slot_find wl_in_use wl_mac mac (?t[f := e]) = Some f"
    using watch_entry_write [OF inv, of f e] first_idx_less [OF f] first_idx_holds [OF f] new by (simp_all add: e_def)
  ultimately show ?thesis using first_idx_less [OF f]
    by (intro that [of "s\<lparr>wl_entries := ?t[f := e]\<rparr>"]) (simp_all add: watched_def e_def)
qed

definition flag_notice :: "u32 \<Rightarrow> 's ids \<Rightarrow> 's ids" where
  "flag_notice now = ids_notify now IDS_EVENT_WATCHLIST_FLAG None (Some ''flagged by MAC,No ip available in this layer '')"

lemma watch_again:
  assumes s: "watched mac w n s" and win: "now - w \<le> 200"
  obtains s' where "watched mac w (Suc n) s'"
    "snd (watchlist_strike now mac (s, hk)) = (s', if Suc n = 4000 then flag_notice now hk else hk)"
proof -
  let ?t = "wl_entries s"
  obtain i where i: "watch_inv ?t" "slot_find wl_in_use wl_mac mac ?t = Some i"
    "wl_window_start (?t ! i) = w" "wl_count (?t ! i) = of_nat n" "wl_flagged (?t ! i) \<longleftrightarrow> 4000 \<le> n"
    using s by (auto simp: watched_def)
  note S = slot_findD [OF i(2)]
  have nw: "\<not> WATCH_WINDOW_TICKS < now - w" using win by (simp add: WATCH_WINDOW_TICKS_def not_less)
  define e where "e = (?t ! i)\<lparr>wl_count := of_nat n + 1, wl_flagged := 4000 \<le> Suc n\<rparr>"
  have "snd (watchlist_strike now mac (s, hk)) =
      (s\<lparr>wl_entries := ?t[i := e]\<rparr>, if Suc n = 4000 then flag_notice now hk else hk)"
  proof (cases "4000 \<le> n")
    case True
    then show ?thesis using i nw
      by (cases "?t ! i") (simp add: watchlist_strike_def watch_find_or_create_def Let_def e_def)
  next
    case False
    then show ?thesis using i nw watch_threshold [of n]
      by (cases "?t ! i") (auto simp: watchlist_strike_def watch_find_or_create_def Let_def e_def flag_notice_def)
  qed
  moreover have "watch_inv (?t[i := e])" "slot_find wl_in_use wl_mac mac (?t[i := e]) = Some i"
    using watch_entry_write [OF i(1), of i e] S by (simp_all add: e_def)
  ultimately show ?thesis using S i(3)
    by (intro that [of "s\<lparr>wl_entries := ?t[i := e]\<rparr>"]) (simp_all add: watched_def e_def add.commute)
qed

lemma watches_in_window:
  assumes "watched mac w n s" "list_all (\<lambda>t. t - w \<le> 200) ts"
  shows "\<exists>s'. watched mac w (n + length ts) s' \<and>
    fold (\<lambda>t st. snd (watchlist_strike t mac st)) ts (s, hk) =
      (s', if n < 4000 \<and> 4000 \<le> n + length ts then flag_notice (ts ! (3999 - n)) hk else hk)"
  using assms
proof (induction ts arbitrary: n s hk)
  case (Cons t ts)
  obtain s1 where s1: "watched mac w (Suc n) s1"
    "snd (watchlist_strike t mac (s, hk)) = (s1, if Suc n = 4000 then flag_notice t hk else hk)"
    using watch_again [of mac w n s t hk] Cons.prems by auto
  have idx: "(t # ts) ! (3999 - n) = (if Suc n = 4000 then t else ts ! (3999 - Suc n))" if "n < 4000"
  proof -
    have "3999 - n = (if Suc n = 4000 then 0 else Suc (3999 - Suc n))" using that by arith
    then show ?thesis by (cases "Suc n = 4000") simp_all
  qed
  show ?case
    using Cons.IH [OF s1(1), of "if Suc n = 4000 then flag_notice t hk else hk"] Cons.prems s1(2) idx
    by (cases "Suc n = 4000") auto
qed auto

section \<open>Properties\<close>

text \<open>A hardware address whose first rejected frame came at tick \<open>w\<close> and that has more of them in the
  200 ticks after it is flagged exactly from its 4000th one, while the window runs, and the event
  hooks hear of it once, at the tick of the 4000th frame.\<close>

theorem watchlist_flags_flood:
  assumes "watch_inv (wl_entries s)" "slot_find wl_in_use wl_mac mac (wl_entries s) = None"
    "count_if wl_in_use (wl_entries s) < 16" "list_all (\<lambda>t. t - w \<le> 200) ts"
    "fold (\<lambda>t st. snd (watchlist_strike t mac st)) (w # ts) (s, hk) = (s', hk')"
  shows "(fst (watchlist_is_flagged now mac s') \<longleftrightarrow> 4000 \<le> Suc (length ts) \<and> now - w \<le> 200) \<and>
    hk' = (if 4000 \<le> Suc (length ts)
           then ids_notify (ts ! 3998) IDS_EVENT_WATCHLIST_FLAG None (Some ''flagged by MAC,No ip available in this layer '') hk
           else hk)"
proof -
  obtain s1 where s1: "snd (watchlist_strike w mac (s, hk)) = (s1, hk)" "watched mac w 1 s1"
    using watch_first [OF assms(1-3)] by blast
  obtain s2 where s2: "watched mac w (Suc (length ts)) s2" "s' = s2"
    "hk' = (if 4000 \<le> Suc (length ts) then flag_notice (ts ! 3998) hk else hk)"
    using watches_in_window [OF s1(2) assms(4), of hk] s1(1) assms(5) by auto
  have "fst (watchlist_is_flagged now mac s2) \<longleftrightarrow> 4000 \<le> Suc (length ts) \<and> now - w \<le> 200"
    using s2(1) by (auto simp: watched_def watchlist_is_flagged_def Let_def WATCH_WINDOW_TICKS_def not_less split: if_splits)
  then show ?thesis using s2(2,3) by (simp add: flag_notice_def)
qed

theorem watchlist_flags_flood_witness:
  "fst (watchlist_is_flagged 9 [2, 0, 0, 0, 0, 1]
     (fst (fold (\<lambda>t st. snd (watchlist_strike t [2, 0, 0, 0, 0, 1] st)) (5 # replicate 3999 7)
        (watchlist_boot, \<lparr>hooks = [], ids_env = ()\<rparr>))))"
proof -
  define r where "r = fold (\<lambda>t st. snd (watchlist_strike t [2, 0, 0, 0, 0, 1] st)) (5 # replicate 3999 7)
        (watchlist_boot, \<lparr>hooks = [], ids_env = ()\<rparr>)"
  have h: "watch_inv (wl_entries watchlist_boot)" "slot_find wl_in_use wl_mac [2, 0, 0, 0, 0, 1] (wl_entries watchlist_boot) = None"
    "count_if wl_in_use (wl_entries watchlist_boot) < 16" "list_all (\<lambda>t. t - 5 \<le> (200 :: u32)) (replicate 3999 7)"
    by (simp_all add: watch_inv_def watchlist_boot_def WATCHLIST_CAPACITY_def slot_find_def list_all_iff)
  have "fst (watchlist_is_flagged 9 [2, 0, 0, 0, 0, 1] (fst r))"
    using watchlist_flags_flood [OF h, of _ "fst r" "snd r" 9] by (simp add: r_def)
  then show ?thesis by (simp only: r_def)
qed

end
