(* ===== verification/GuestList.thy ===== *)
theory GuestList
  imports Slots
begin

text \<open>
  The access list by address, \<^verbatim>\<open>Networking/GuestList/guestlist.c\<close>: 32 entries, permanent or
  with an expiry tick. The pair of \<^verbatim>\<open>guestlist_set\<close> and \<^verbatim>\<open>guestlist_clear\<close> provides the
  \<open>bounded_table\<close> contract, with \<^verbatim>\<open>guestlist_check\<close> as lookup. The current tick is an argument.
\<close>

section \<open>Model\<close>

definition GUESTLIST_CAPACITY :: nat where "GUESTLIST_CAPACITY = 32"

datatype guestlist_verdict_t = GUESTLIST_NO_RULE | GUESTLIST_ALLOWED | GUESTLIST_DENIED

record guestlist_entry_t =
  gl_ip :: bytes
  gl_action :: guestlist_verdict_t
  expires_at_tick :: u32
  gl_in_use :: bool

type_synonym guestlist = "guestlist_entry_t list"

definition guestlist_boot :: guestlist where
  "guestlist_boot = replicate GUESTLIST_CAPACITY
     \<lparr>gl_ip = [0, 0, 0, 0], gl_action = GUESTLIST_NO_RULE, expires_at_tick = 0, gl_in_use = False\<rparr>"

definition guestlist_find_entry :: "bytes \<Rightarrow> guestlist \<Rightarrow> nat option" where
  "guestlist_find_entry ip g = slot_find gl_in_use gl_ip ip g"

definition guestlist_set :: "bytes \<Rightarrow> guestlist_verdict_t \<Rightarrow> guestlist \<Rightarrow> bool \<times> guestlist" where
  "guestlist_set ip action g =
     (case guestlist_find_entry ip g of
        Some i \<Rightarrow> (True, g[i := (g ! i)\<lparr>gl_action := action\<rparr>])
      | None \<Rightarrow>
          (case first_idx (\<lambda>e. \<not> gl_in_use e) g of
             Some i \<Rightarrow> (True, g[i := (g ! i)\<lparr>gl_ip := ip, gl_action := action, gl_in_use := True\<rparr>])
           | None \<Rightarrow> (False, g)))"

definition guestlist_clear :: "bytes \<Rightarrow> guestlist \<Rightarrow> guestlist" where
  "guestlist_clear ip g =
     (case guestlist_find_entry ip g of
        Some i \<Rightarrow> g[i := (g ! i)\<lparr>gl_in_use := False\<rparr>] | None \<Rightarrow> g)"

definition guestlist_check :: "bytes \<Rightarrow> guestlist \<Rightarrow> guestlist_verdict_t" where
  "guestlist_check ip g =
     (case guestlist_find_entry ip g of None \<Rightarrow> GUESTLIST_NO_RULE | Some i \<Rightarrow> gl_action (g ! i))"

definition guestlist_set_timed ::
  "u32 \<Rightarrow> bytes \<Rightarrow> guestlist_verdict_t \<Rightarrow> u32 \<Rightarrow> guestlist \<Rightarrow> bool \<times> guestlist" where
  "guestlist_set_timed now ip action duration_ticks g =
     (case guestlist_set ip action g of
        (False, g') \<Rightarrow> (False, g')
      | (True, g') \<Rightarrow>
          (case guestlist_find_entry ip g' of
             Some i \<Rightarrow> (True, g'[i := (g' ! i)\<lparr>expires_at_tick := now + duration_ticks\<rparr>])
           | None \<Rightarrow> (True, g')))"

definition guestlist_expire :: "u32 \<Rightarrow> guestlist_entry_t \<Rightarrow> guestlist_entry_t" where
  "guestlist_expire now e =
     (if \<not> gl_in_use e \<or> expires_at_tick e = 0 then e
      else if now \<ge> expires_at_tick e then e\<lparr>gl_in_use := False\<rparr> else e)"

definition guestlist_tick :: "u32 \<Rightarrow> guestlist \<Rightarrow> guestlist" where
  "guestlist_tick now g = map (guestlist_expire now) g"

definition guestlist_count :: "guestlist \<Rightarrow> nat" where
  "guestlist_count g = count_if gl_in_use g"

section \<open>The table contract\<close>

definition gl_inv :: "guestlist \<Rightarrow> bool" where
  "gl_inv g \<longleftrightarrow> length g = 32 \<and> keyed gl_in_use gl_ip g"

definition gl_lookup :: "guestlist \<Rightarrow> bytes \<Rightarrow> guestlist_verdict_t option" where
  "gl_lookup g = slot_view gl_in_use gl_ip gl_action g"

lemma guestlist_check_lookup:
  "guestlist_check ip g = (case gl_lookup g ip of None \<Rightarrow> GUESTLIST_NO_RULE | Some a \<Rightarrow> a)"
  by (simp add: guestlist_check_def guestlist_find_entry_def gl_lookup_def slot_view_def split: option.splits)

lemma gl_inv_boot: "gl_inv guestlist_boot"
  by (simp add: gl_inv_def guestlist_boot_def GUESTLIST_CAPACITY_def)

text \<open>A set writes the slot of the address, or else the first free slot.\<close>

lemma guestlist_set_slot:
  "guestlist_set ip action g =
     (case slot_for gl_in_use gl_ip ip g of None \<Rightarrow> (False, g)
      | Some i \<Rightarrow> (True, g[i := (g ! i)\<lparr>gl_ip := ip, gl_action := action, gl_in_use := True\<rparr>]))"
proof (cases "slot_find gl_in_use gl_ip ip g")
  case None
  then show ?thesis by (simp add: guestlist_set_def guestlist_find_entry_def slot_for_def split: option.splits)
next
  case (Some i)
  then have "(g ! i)\<lparr>gl_action := action\<rparr> = (g ! i)\<lparr>gl_ip := ip, gl_action := action, gl_in_use := True\<rparr>"
    using slot_findD(2,3) [OF Some] by (cases "g ! i") simp
  then show ?thesis using Some by (simp add: guestlist_set_def guestlist_find_entry_def slot_for_def)
qed

lemma guestlist_set_effect:
  assumes "gl_inv g"
  shows "gl_inv (snd (guestlist_set ip a g)) \<and>
    fst (guestlist_set ip a g) = (ip \<in> dom (gl_lookup g) \<or> card (dom (gl_lookup g)) < 32) \<and>
    gl_lookup (snd (guestlist_set ip a g)) = map_op 32 (Update ip a) (gl_lookup g)"
  using assms slot_put_effect [of gl_in_use gl_ip g
      "\<lambda>i. (g ! i)\<lparr>gl_ip := ip, gl_action := a, gl_in_use := True\<rparr>" ip gl_action a "guestlist_set ip a g"]
  by (simp add: gl_inv_def gl_lookup_def guestlist_set_slot)

lemma guestlist_clear_effect:
  assumes "gl_inv g"
  shows "gl_inv (guestlist_clear ip g) \<and> gl_lookup (guestlist_clear ip g) = map_op 32 (Delete ip) (gl_lookup g)"
  using assms slot_drop_effect [of gl_in_use gl_ip g
      "\<lambda>i. (g ! i)\<lparr>gl_in_use := False\<rparr>" "guestlist_clear ip g" ip gl_action 32]
  by (simp add: gl_inv_def gl_lookup_def guestlist_clear_def guestlist_find_entry_def cong: option.case_cong)

interpretation guests: bounded_table guestlist_set guestlist_clear gl_lookup 32 gl_inv
proof unfold_locales
  fix g
  assume inv: "gl_inv g"
  then show "finite (dom (gl_lookup g)) \<and> card (dom (gl_lookup g)) \<le> 32"
    using slot_view_dom [of gl_in_use gl_ip g gl_action] count_if_le [of gl_in_use g]
    by (simp add: gl_inv_def gl_lookup_def)
qed (fact guestlist_set_effect guestlist_clear_effect)+

section \<open>Expiry\<close>

text \<open>The table read with both fields of an entry.\<close>

definition gl_timed :: "guestlist \<Rightarrow> bytes \<Rightarrow> (guestlist_verdict_t \<times> u32) option" where
  "gl_timed g = slot_view gl_in_use gl_ip (\<lambda>e. (gl_action e, expires_at_tick e)) g"

lemma gl_timed_lookup: "gl_lookup g ip = map_option fst (gl_timed g ip)"
  by (simp add: gl_lookup_def gl_timed_def slot_view_def option.map_comp comp_def)

lemma guestlist_expire_fields [simp]:
  "gl_ip (guestlist_expire now e) = gl_ip e" "gl_action (guestlist_expire now e) = gl_action e"
  "expires_at_tick (guestlist_expire now e) = expires_at_tick e"
  "gl_in_use (guestlist_expire now e) \<longleftrightarrow> gl_in_use e \<and> (expires_at_tick e = 0 \<or> now < expires_at_tick e)"
  by (auto simp: guestlist_expire_def)

lemma gl_inv_tick: "gl_inv g \<Longrightarrow> gl_inv (guestlist_tick now g)"
  by (auto simp: gl_inv_def guestlist_tick_def keyed_def)

lemma gl_timed_tick:
  assumes "gl_inv g"
  shows "gl_timed (guestlist_tick now g) ip =
    (case gl_timed g ip of None \<Rightarrow> None
     | Some (a, x) \<Rightarrow> if x = 0 \<or> now < x then Some (a, x) else None)"
proof -
  have k: "keyed gl_in_use gl_ip g" "keyed gl_in_use gl_ip (guestlist_tick now g)"
    using assms gl_inv_tick [OF assms] by (simp_all add: gl_inv_def)
  have iff: "gl_timed (guestlist_tick now g) ip = Some (a, x) \<longleftrightarrow> gl_timed g ip = Some (a, x) \<and> (x = 0 \<or> now < x)" for a x
    unfolding gl_timed_def slot_view_Some [OF k(1)] slot_view_Some [OF k(2)]
    by (auto simp: guestlist_tick_def)
  show ?thesis
  proof (cases "gl_timed (guestlist_tick now g) ip")
    case None
    then show ?thesis using iff by (auto split: option.splits)
  next
    case (Some ax)
    then show ?thesis using iff [of "fst ax" "snd ax"] by (cases ax) (auto split: option.splits)
  qed
qed

lemma gl_timed_ticks:
  assumes "gl_inv g" "gl_timed g ip = Some (a, x)" "x \<noteq> 0"
  shows "gl_inv (fold guestlist_tick ts g) \<and>
    gl_timed (fold guestlist_tick ts g) ip = (if list_all (\<lambda>t. t < x) ts then Some (a, x) else None)"
proof -
  have gone: "gl_inv g \<Longrightarrow> gl_timed g ip = None \<Longrightarrow> gl_inv (fold guestlist_tick ts g) \<and> gl_timed (fold guestlist_tick ts g) ip = None" for ts g
    by (induction ts arbitrary: g) (simp_all add: gl_inv_tick gl_timed_tick)
  show ?thesis
    using assms(1,2)
  proof (induction ts arbitrary: g)
    case (Cons t ts)
    then show ?case
      using gone [of "guestlist_tick t g"] assms(3) by (cases "t < x") (simp_all add: gl_inv_tick gl_timed_tick)
  qed simp
qed

lemma guestlist_set_timed_entry:
  assumes inv: "gl_inv g" and run: "guestlist_set_timed now ip a d g = (True, g')"
  shows "gl_inv g' \<and> gl_timed g' ip = Some (a, now + d)"
proof -
  obtain i where i: "slot_for gl_in_use gl_ip ip g = Some i"
    using run by (auto simp: guestlist_set_timed_def guestlist_set_slot split: option.splits)
  note S = slot_forD [OF i]
  have k: "keyed gl_in_use gl_ip g" and len: "length g = 32" using inv by (simp_all add: gl_inv_def)
  define e where "e = (g ! i)\<lparr>gl_ip := ip, gl_action := a, gl_in_use := True\<rparr>"
  have k1: "keyed gl_in_use gl_ip (g[i := e])" using S by (intro keyed_set [OF k]) (simp_all add: e_def)
  have f: "guestlist_find_entry ip (g[i := e]) = Some i"
    using slot_find_unique [OF k1, of i] S(1) by (simp add: guestlist_find_entry_def e_def)
  have g': "g' = g[i := e\<lparr>expires_at_tick := now + d\<rparr>]"
    using run i f S(1) by (simp add: guestlist_set_timed_def guestlist_set_slot e_def)
  have k2: "keyed gl_in_use gl_ip g'"
    unfolding g' using S by (intro keyed_set [OF k]) (simp_all add: e_def)
  have "gl_timed g' ip = Some (a, now + d)"
    unfolding gl_timed_def slot_view_Some [OF k2] using S(1) by (intro exI [of _ i]) (simp add: g' e_def)
  then show ?thesis using k2 len by (simp add: gl_inv_def g')
qed

section \<open>Properties\<close>

text \<open>C18. Whatever sequence of sets and clears the access list sees, a check answers as a map from
  addresses to verdicts that refuses a new address when 32 are listed.\<close>

theorem guestlist_refines_map:
  "guestlist_check ip (fold (table_step guestlist_set guestlist_clear) ops guestlist_boot) =
     (case fold (map_op 32) ops Map.empty ip of None \<Rightarrow> GUESTLIST_NO_RULE | Some a \<Rightarrow> a)"
proof -
  have "gl_lookup guestlist_boot = Map.empty"
    by (simp add: gl_lookup_def guestlist_boot_def)
  then show ?thesis
    using guests.run_refines [OF gl_inv_boot, of ops] by (simp add: guestlist_check_lookup)
qed

text \<open>A timed entry holds its verdict through every sweep before its expiry tick and is gone after
  the first sweep at or past it, when the expiry tick does not wrap to 0.\<close>

theorem guestlist_timed_expiry:
  assumes "gl_inv g" "guestlist_set_timed now ip a d g = (True, g')" "now + d \<noteq> 0"
  shows "guestlist_check ip (fold guestlist_tick ts g') =
    (if list_all (\<lambda>t. t < now + d) ts then a else GUESTLIST_NO_RULE)"
  using gl_timed_ticks [of g' ip a "now + d" ts] guestlist_set_timed_entry [OF assms(1,2)] assms(3)
  by (simp add: guestlist_check_lookup gl_timed_lookup)

theorem guestlist_timed_expiry_witness:
  "guestlist_check [10, 0, 0, 9] (guestlist_tick 99 (snd (guestlist_set_timed 0 [10, 0, 0, 9] GUESTLIST_DENIED 100 guestlist_boot))) = GUESTLIST_DENIED \<and>
   guestlist_check [10, 0, 0, 9] (guestlist_tick 100 (snd (guestlist_set_timed 0 [10, 0, 0, 9] GUESTLIST_DENIED 100 guestlist_boot))) = GUESTLIST_NO_RULE"
proof -
  have "fst (guestlist_set_timed 0 [10, 0, 0, 9] GUESTLIST_DENIED 100 guestlist_boot)"
    by code_simp
  then obtain g' where g': "guestlist_set_timed 0 [10, 0, 0, 9] GUESTLIST_DENIED 100 guestlist_boot = (True, g')"
    by (metis prod.collapse)
  from guestlist_timed_expiry [OF gl_inv_boot g', of "[99]"] guestlist_timed_expiry [OF gl_inv_boot g', of "[100]"] g'
  show ?thesis by simp
qed

text \<open>A permanent entry that reuses the slot of an expired timed one inherits its expiry tick: it is
  dropped by the next sweep.\<close>

theorem guestlist_permanent_lost:
  "guestlist_check [10, 0, 0, 7]
     (guestlist_tick 200 (snd (guestlist_set [10, 0, 0, 7] GUESTLIST_DENIED
       (guestlist_tick 100 (snd (guestlist_set_timed 0 [10, 0, 0, 9] GUESTLIST_DENIED 100 guestlist_boot)))))) =
   GUESTLIST_NO_RULE"
  by code_simp

end
