(* ===== verification/Sentry.thy ===== *)
theory Sentry
  imports GuestList Audit_Log
begin

text \<open>
  The port-scan detector, \<^verbatim>\<open>Networking/Sentry/sentry.c\<close>: 16 addresses with the last 8 ports each
  was seen on. Six distinct ports in 200 ticks are meant to put the address on the access list's
  deny side for 3000 ticks and to notify the event hooks.
\<close>

section \<open>Model\<close>

definition SENTRY_CAPACITY :: nat where "SENTRY_CAPACITY = 16"
definition SENTRY_PORT_HISTORY :: nat where "SENTRY_PORT_HISTORY = 8"
definition SENTRY_WINDOW_TICKS :: u32 where "SENTRY_WINDOW_TICKS = 200"
definition SENTRY_DISTINCT_PORT_THRESHOLD :: nat where "SENTRY_DISTINCT_PORT_THRESHOLD = 6"
definition SENTRY_BAN_TICKS :: u32 where "SENTRY_BAN_TICKS = 3000"

record port_hit_t =
  hit_port :: u16
  hit_tick :: u32
  hit_in_use :: bool

record sentry_entry_t =
  se_ip :: bytes
  se_hits :: "port_hit_t list"
  se_in_use :: bool

record sentry =
  se_entries :: "sentry_entry_t list"
  se_flagged_total :: u32

definition no_hits :: "port_hit_t list" where
  "no_hits = replicate SENTRY_PORT_HISTORY \<lparr>hit_port = 0, hit_tick = 0, hit_in_use = False\<rparr>"

definition sentry_boot :: sentry where
  "sentry_boot = \<lparr>se_entries = replicate SENTRY_CAPACITY \<lparr>se_ip = [0, 0, 0, 0], se_hits = no_hits, se_in_use = False\<rparr>,
     se_flagged_total = 0\<rparr>"

definition sentry_find_or_Create :: "bytes \<Rightarrow> sentry_entry_t list \<Rightarrow> nat option \<times> sentry_entry_t list" where
  "sentry_find_or_Create ip t =
     (case slot_find se_in_use se_ip ip t of
        Some i \<Rightarrow> (Some i, t)
      | None \<Rightarrow>
          (case first_idx (\<lambda>e. \<not> se_in_use e) t of
             None \<Rightarrow> (None, t)
           | Some f \<Rightarrow> (Some f, t[f := (t ! f)\<lparr>se_ip := ip, se_hits := no_hits, se_in_use := True\<rparr>])))"

definition sentry_age :: "u32 \<Rightarrow> port_hit_t list \<Rightarrow> port_hit_t list" where
  "sentry_age now hs =
     map (\<lambda>h. if hit_in_use h \<and> now - hit_tick h \<ge> SENTRY_WINDOW_TICKS then h\<lparr>hit_in_use := False\<rparr> else h) hs"

text \<open>The loop that picks the hit to overwrite, from index \<open>i\<close> on: it stops at the first hit in
  use.\<close>

fun sentry_target :: "port_hit_t list \<Rightarrow> nat \<Rightarrow> u32 \<Rightarrow> nat option \<Rightarrow> nat option" where
  "sentry_target [] i oldest_tick target = target"
| "sentry_target (h # hs) i oldest_tick target =
     (if hit_in_use h then Some i
      else if hit_tick h < oldest_tick then sentry_target hs (Suc i) (hit_tick h) (Some i)
      else sentry_target hs (Suc i) oldest_tick target)"

text \<open>The write at index \<^verbatim>\<open>target\<close>; with no target the C code would write before the array, and
  the model leaves the hits as they are (no state of the running detector gets there).\<close>

definition sentry_hit :: "u32 \<Rightarrow> u16 \<Rightarrow> port_hit_t list \<Rightarrow> port_hit_t list" where
  "sentry_hit now dst_port hs =
     (case sentry_target hs 0 0xFFFFFFFF None of
        Some i \<Rightarrow> hs[i := \<lparr>hit_port = dst_port, hit_tick = now, hit_in_use = True\<rparr>]
      | None \<Rightarrow> hs)"

definition sentry_observe ::
  "u32 \<Rightarrow> bytes \<Rightarrow> u16 \<Rightarrow> sentry \<times> guestlist \<times> 's ids \<Rightarrow> bool \<times> sentry \<times> guestlist \<times> 's ids" where
  "sentry_observe now src_ip dst_port st =
     (let (s, g, hk) = st in
      case sentry_find_or_Create src_ip (se_entries s) of
        (None, t) \<Rightarrow> (False, s\<lparr>se_entries := t\<rparr>, g, hk)
      | (Some k, t) \<Rightarrow>
          let hs = sentry_age now (se_hits (t ! k))
          in case first_idx (\<lambda>h. hit_in_use h \<and> hit_port h = dst_port) hs of
               Some i \<Rightarrow> (False, s\<lparr>se_entries := t[k := (t ! k)\<lparr>se_hits := hs[i := (hs ! i)\<lparr>hit_tick := now\<rparr>]\<rparr>]\<rparr>, g, hk)
             | None \<Rightarrow>
                 let hs' = sentry_hit now dst_port hs;
                     s' = s\<lparr>se_entries := t[k := (t ! k)\<lparr>se_hits := hs'\<rparr>]\<rparr>;
                     distinct = count_if hit_in_use hs'
                 in if distinct \<ge> SENTRY_DISTINCT_PORT_THRESHOLD
                    then (True, s'\<lparr>se_flagged_total := se_flagged_total s' + 1\<rparr>,
                          snd (guestlist_set_timed now src_ip GUESTLIST_DENIED SENTRY_BAN_TICKS g),
                          ids_notify now IDS_EVENT_PORT_SCAN_BAN (Some src_ip) None hk)
                    else (False, s', g, hk))"

definition sentry_flagged_count :: "sentry \<Rightarrow> u32" where
  "sentry_flagged_count s = se_flagged_total s"

section \<open>At most one hit is in use\<close>

definition sentry_inv :: "sentry \<Rightarrow> bool" where
  "sentry_inv s \<longleftrightarrow> (\<forall>e\<in>set (se_entries s). count_if hit_in_use (se_hits e) \<le> 1)"

lemma count_if_age: "count_if hit_in_use (sentry_age now hs) \<le> count_if hit_in_use hs"
  by (induction hs) (auto simp: sentry_age_def)

lemma sentry_target_used:
  "count_if hit_in_use hs > 0 \<Longrightarrow> \<exists>j<length hs. sentry_target hs i m tg = Some (i + j) \<and> hit_in_use (hs ! j)"
proof (induction hs arbitrary: i m tg)
  case (Cons h hs)
  show ?case
  proof (cases "hit_in_use h")
    case True
    then show ?thesis by (intro exI [of _ 0]) simp
  next
    case False
    define m' where "m' = (if hit_tick h < m then hit_tick h else m)"
    define tg' where "tg' = (if hit_tick h < m then Some i else tg)"
    obtain j where j: "j < length hs" "sentry_target hs (Suc i) m' tg' = Some (Suc i + j)" "hit_in_use (hs ! j)"
      using Cons.IH [of "Suc i" m' tg'] Cons.prems False by auto
    moreover have "sentry_target (h # hs) i m tg = sentry_target hs (Suc i) m' tg'"
      using False by (simp add: m'_def tg'_def)
    ultimately show ?thesis by (intro exI [of _ "Suc j"]) simp
  qed
qed simp

lemma count_if_hit:
  assumes "count_if hit_in_use hs \<le> 1"
  shows "count_if hit_in_use (sentry_hit now p hs) \<le> 1"
proof (cases "count_if hit_in_use hs > 0")
  case True
  then obtain j where "j < length hs" "sentry_target hs 0 0xFFFFFFFF None = Some j" "hit_in_use (hs ! j)"
    using sentry_target_used [of hs 0 "0xFFFFFFFF" None] by auto
  then show ?thesis using assms by (simp add: sentry_hit_def count_if_keep)
next
  case False
  then show ?thesis
    using count_if_update_Suc [of hit_in_use hs] by (auto simp: sentry_hit_def split: option.splits)
qed

lemma sentry_inv_update:
  assumes "sentry_inv s" "sentry_find_or_Create ip (se_entries s) = (r, t)" "count_if hit_in_use hs \<le> 1"
  shows "\<forall>e\<in>set t. count_if hit_in_use (se_hits e) \<le> 1"
    "\<forall>e\<in>set (t[k := (t ! k)\<lparr>se_hits := hs\<rparr>]). count_if hit_in_use (se_hits e) \<le> 1"
proof -
  have "set t \<subseteq> insert ((se_entries s ! f)\<lparr>se_ip := ip, se_hits := no_hits, se_in_use := True\<rparr>) (set (se_entries s)) \<or> t = se_entries s"
    if "r = Some f" for f
    using assms(2) that set_update_subset_insert [of "se_entries s" f]
    by (auto simp: sentry_find_or_Create_def split: option.splits)
  then show a: "\<forall>e\<in>set t. count_if hit_in_use (se_hits e) \<le> 1"
    using assms(1,2)
    by (cases r) (auto simp: sentry_inv_def no_hits_def sentry_find_or_Create_def split: option.splits)
  show "\<forall>e\<in>set (t[k := (t ! k)\<lparr>se_hits := hs\<rparr>]). count_if hit_in_use (se_hits e) \<le> 1"
    using a assms(3) set_update_subset_insert [of t k "(t ! k)\<lparr>se_hits := hs\<rparr>"] by auto
qed

lemma sentry_observe_quiet:
  assumes inv: "sentry_inv s" and run: "sentry_observe now ip port (s, g, hk) = (r, s', g', hk')"
  shows "\<not> r \<and> sentry_inv s' \<and> g' = g \<and> hk' = hk"
proof -
  obtain q t where q: "sentry_find_or_Create ip (se_entries s) = (q, t)" by fastforce
  have t: "\<forall>e\<in>set t. count_if hit_in_use (se_hits e) \<le> 1" using sentry_inv_update(1) [OF inv q, of "[]"] by simp
  show ?thesis
  proof (cases q)
    case None
    then show ?thesis using run q t by (auto simp: sentry_observe_def sentry_inv_def)
  next
    case (Some k)
    define hs where "hs = sentry_age now (se_hits (t ! k))"
    have k: "k < length t" using q Some by (auto simp: sentry_find_or_Create_def slot_find_def split: option.splits)
    then have hs: "count_if hit_in_use hs \<le> 1"
      using bspec [OF t nth_mem] le_trans [OF count_if_age [of now "se_hits (t ! k)"]] by (simp add: hs_def)
    show ?thesis
    proof (cases "first_idx (\<lambda>h. hit_in_use h \<and> hit_port h = port) hs")
      case None
      define hs' where "hs' = sentry_hit now port hs"
      have hs': "count_if hit_in_use hs' \<le> 1" using count_if_hit [OF hs] by (simp add: hs'_def)
      have "(r, s', g', hk') = (False, s\<lparr>se_entries := t[k := (t ! k)\<lparr>se_hits := hs'\<rparr>]\<rparr>, g, hk)"
        using run q Some None hs' by (simp add: sentry_observe_def Let_def SENTRY_DISTINCT_PORT_THRESHOLD_def flip: hs_def hs'_def)
      then show ?thesis using sentry_inv_update(2) [OF inv q hs', of k] by (simp add: sentry_inv_def)
    next
      case (Some i)
      define hs' where "hs' = hs[i := (hs ! i)\<lparr>hit_tick := now\<rparr>]"
      have hs': "count_if hit_in_use hs' \<le> 1"
        using hs first_idx_less [OF Some] by (simp add: hs'_def count_if_keep)
      have "(r, s', g', hk') = (False, s\<lparr>se_entries := t[k := (t ! k)\<lparr>se_hits := hs'\<rparr>]\<rparr>, g, hk)"
        using run q \<open>q = Some k\<close> Some by (simp add: sentry_observe_def Let_def flip: hs_def hs'_def)
      then show ?thesis using sentry_inv_update(2) [OF inv q hs', of k] by (simp add: sentry_inv_def)
    qed
  qed
qed

lemma sentry_run_quiet:
  "sentry_inv s \<Longrightarrow> \<exists>s'. sentry_inv s' \<and>
    fold (\<lambda>(now, ip, port) st. snd (sentry_observe now ip port st)) obs (s, g, hk) = (s', g, hk)"
proof (induction obs arbitrary: s)
  case (Cons ob obs)
  obtain now ip port where ob: "ob = (now, ip, port)" by (cases ob)
  obtain r s1 g1 hk1 where 1: "sentry_observe now ip port (s, g, hk) = (r, s1, g1, hk1)" by (metis prod_cases4)
  from sentry_observe_quiet [OF Cons.prems 1] 1 Cons.IH [of s1] show ?case by (simp add: ob)
qed simp

section \<open>Properties\<close>

text \<open>C21. The detector never bans: whatever ports are probed, in whatever order, the access list and the
  event hooks stay as they were.\<close>

theorem sentry_never_bans:
  "snd (fold (\<lambda>(now, ip, port) st. snd (sentry_observe now ip port st)) obs (sentry_boot, g, hk)) = (g, hk)"
proof -
  have "sentry_inv sentry_boot" by (simp add: sentry_inv_def sentry_boot_def no_hits_def)
  from sentry_run_quiet [OF this, of obs g hk] show ?thesis by auto
qed

end
