(* ===== verification/Atlas.thy ===== *)
theory Atlas
  imports Slots
begin

text \<open>
  The routing table, \<^verbatim>\<open>Networking/Atlas/atlas.c\<close>: 16 routes keyed by network and mask, and a
  default gateway. The pair of add and remove provides the \<open>bounded_table\<close> contract; lookup is
  compared with longest-prefix matching.
\<close>

section \<open>Model\<close>

definition ATLAS_MAX_ROUTES :: nat where "ATLAS_MAX_ROUTES = 16"

record atlas_route_t =
  rt_gateway :: bytes
  rt_netmask :: bytes
  rt_network :: bytes
  rt_in_use :: bool

record atlas =
  routes :: "atlas_route_t list"
  default_gateway :: bytes
  have_default_gateway :: bool

definition atlas_boot :: atlas where
  "atlas_boot = \<lparr>routes = replicate ATLAS_MAX_ROUTES
     \<lparr>rt_gateway = [0, 0, 0, 0], rt_netmask = [0, 0, 0, 0], rt_network = [0, 0, 0, 0], rt_in_use = False\<rparr>,
     default_gateway = [0, 0, 0, 0], have_default_gateway = False\<rparr>"

definition same_net :: "bytes \<Rightarrow> bytes \<Rightarrow> bytes \<Rightarrow> bool" where
  "same_net ip network netmask \<longleftrightarrow>
     list_all (\<lambda>i. (ip ! i) AND (netmask ! i) = (network ! i) AND (netmask ! i)) [0..<4]"

text \<open>The bits of a mask in the order the loop tests them; the loop counts until the first clear one.\<close>

definition mask_bits :: "bytes \<Rightarrow> bool list" where
  "mask_bits netmask = concat (map (\<lambda>i. map (\<lambda>b. bit (netmask ! i) b) [7, 6, 5, 4, 3, 2, 1, 0]) [0..<4])"

definition prefix_len :: "bytes \<Rightarrow> nat" where
  "prefix_len netmask = length (takeWhile (\<lambda>b. b) (mask_bits netmask))"

definition atlas_add_route :: "bytes \<Rightarrow> bytes \<Rightarrow> bytes \<Rightarrow> atlas \<Rightarrow> bool \<times> atlas" where
  "atlas_add_route network netmask gateway a =
     (let t = routes a in
      case first_idx (\<lambda>r. rt_in_use r \<and> rt_network r = network \<and> rt_netmask r = netmask) t of
        Some i \<Rightarrow> (True, a\<lparr>routes := t[i := (t ! i)\<lparr>rt_gateway := gateway\<rparr>]\<rparr>)
      | None \<Rightarrow>
          (case first_idx (\<lambda>r. \<not> rt_in_use r) t of
             None \<Rightarrow> (False, a)
           | Some f \<Rightarrow> (True, a\<lparr>routes := t[f := (t ! f)\<lparr>rt_network := network, rt_netmask := netmask,
                 rt_gateway := gateway, rt_in_use := True\<rparr>]\<rparr>)))"

definition atlas_remove_route :: "bytes \<Rightarrow> bytes \<Rightarrow> atlas \<Rightarrow> bool \<times> atlas" where
  "atlas_remove_route network netmask a =
     (let t = routes a in
      case first_idx (\<lambda>r. rt_in_use r \<and> rt_network r = network \<and> rt_netmask r = netmask) t of
        Some i \<Rightarrow> (True, a\<lparr>routes := t[i := (t ! i)\<lparr>rt_in_use := False\<rparr>]\<rparr>)
      | None \<Rightarrow> (False, a))"

definition atlas_set_default_gateway :: "bytes \<Rightarrow> atlas \<Rightarrow> bool \<times> atlas" where
  "atlas_set_default_gateway gateway a =
     (True, a\<lparr>default_gateway := gateway,
       have_default_gateway := (gateway ! 0 \<noteq> 0 \<or> gateway ! 1 \<noteq> 0 \<or> gateway ! 2 \<noteq> 0 \<or> gateway ! 3 \<noteq> 0)\<rparr>)"

text \<open>The body of the lookup loop, with \<^verbatim>\<open>out_next_hop\<close> threaded through. A matching route has a
  prefix longer than the initial -1, so the loop sets \<^verbatim>\<open>best_slot\<close> to the constant 1 and returns at
  the first match.\<close>

fun atlas_lookup_loop :: "atlas \<Rightarrow> bytes \<Rightarrow> atlas_route_t list \<Rightarrow> int \<Rightarrow> int \<Rightarrow> bytes \<Rightarrow> bool \<times> bytes" where
  "atlas_lookup_loop a dest_ip [] best_slot best_prefix hop = (False, hop)"
| "atlas_lookup_loop a dest_ip (r # rs) best_slot best_prefix hop =
     (if \<not> rt_in_use r then atlas_lookup_loop a dest_ip rs best_slot best_prefix hop
      else if \<not> same_net dest_ip (rt_network r) (rt_netmask r) then atlas_lookup_loop a dest_ip rs best_slot best_prefix hop
      else
        let len = int (prefix_len (rt_netmask r));
            (best_prefix', best_slot') = (if len > best_prefix then (len, 1) else (best_prefix, best_slot))
        in if best_slot' \<ge> 0
           then let gw = rt_gateway (routes a ! nat best_slot');
                    on_link = \<not> (gw ! 0 \<noteq> 0 \<or> gw ! 1 \<noteq> 0 \<or> gw ! 2 \<noteq> 0 \<or> gw ! 3 \<noteq> 0)
                in (True, if on_link then dest_ip else gw)
           else atlas_lookup_loop a dest_ip rs best_slot' best_prefix' (if have_default_gateway a then default_gateway a else hop))"

definition atlas_lookup :: "bytes \<Rightarrow> bytes \<Rightarrow> atlas \<Rightarrow> bool \<times> bytes" where
  "atlas_lookup dest_ip out_next_hop a = atlas_lookup_loop a dest_ip (routes a) (-1) (-1) out_next_hop"

definition atlas_route_count :: "atlas \<Rightarrow> nat" where
  "atlas_route_count a = count_if rt_in_use (routes a)"

section \<open>The table contract\<close>

definition rt_key :: "atlas_route_t \<Rightarrow> bytes \<times> bytes" where
  "rt_key r = (rt_network r, rt_netmask r)"

definition atlas_inv :: "atlas \<Rightarrow> bool" where
  "atlas_inv a \<longleftrightarrow> length (routes a) = 16 \<and> keyed rt_in_use rt_key (routes a)"

definition atlas_view :: "atlas \<Rightarrow> bytes \<times> bytes \<Rightarrow> bytes option" where
  "atlas_view a = slot_view rt_in_use rt_key rt_gateway (routes a)"

definition atlas_add :: "bytes \<times> bytes \<Rightarrow> bytes \<Rightarrow> atlas \<Rightarrow> bool \<times> atlas" where
  "atlas_add k gateway a = atlas_add_route (fst k) (snd k) gateway a"

definition atlas_remove :: "bytes \<times> bytes \<Rightarrow> atlas \<Rightarrow> atlas" where
  "atlas_remove k a = snd (atlas_remove_route (fst k) (snd k) a)"

lemma route_find: "first_idx (\<lambda>r. rt_in_use r \<and> rt_network r = n \<and> rt_netmask r = m) t = slot_find rt_in_use rt_key (n, m) t"
  unfolding slot_find_def by (rule first_idx_cong) (auto simp: rt_key_def)

lemma atlas_add_slot:
  "atlas_add k g a =
    (let r = (case slot_for rt_in_use rt_key k (routes a) of None \<Rightarrow> (False, routes a)
       | Some i \<Rightarrow> (True, (routes a)[i := (routes a ! i)\<lparr>rt_network := fst k, rt_netmask := snd k, rt_gateway := g, rt_in_use := True\<rparr>]))
     in (fst r, a\<lparr>routes := snd r\<rparr>))"
proof (cases "slot_find rt_in_use rt_key k (routes a)")
  case None
  then show ?thesis by (simp add: atlas_add_def atlas_add_route_def route_find slot_for_def Let_def split: option.splits)
next
  case (Some i)
  then have "(routes a ! i)\<lparr>rt_gateway := g\<rparr> =
      (routes a ! i)\<lparr>rt_network := fst k, rt_netmask := snd k, rt_gateway := g, rt_in_use := True\<rparr>"
    using slot_findD(2,3) [OF Some] by (cases "routes a ! i") (auto simp: rt_key_def)
  then show ?thesis using Some by (simp add: atlas_add_def atlas_add_route_def route_find slot_for_def Let_def)
qed

interpretation route_table: bounded_table atlas_add atlas_remove atlas_view 16 atlas_inv
proof unfold_locales
  fix a :: atlas and k g
  assume inv: "atlas_inv a"
  then have k: "keyed rt_in_use rt_key (routes a)" and len: "length (routes a) = 16" by (simp_all add: atlas_inv_def)
  show "finite (dom (atlas_view a)) \<and> card (dom (atlas_view a)) \<le> 16"
    using slot_view_dom [OF k, of rt_gateway] count_if_le [of rt_in_use "routes a"] len by (simp add: atlas_view_def)
  show "atlas_inv (snd (atlas_add k g a)) \<and>
      fst (atlas_add k g a) = (k \<in> dom (atlas_view a) \<or> card (dom (atlas_view a)) < 16) \<and>
      atlas_view (snd (atlas_add k g a)) = map_op 16 (Update k g) (atlas_view a)"
    using slot_put_effect [OF k, of "\<lambda>i. (routes a ! i)\<lparr>rt_network := fst k, rt_netmask := snd k, rt_gateway := g, rt_in_use := True\<rparr>"
        k rt_gateway g] len
    by (simp add: atlas_add_slot Let_def atlas_inv_def atlas_view_def rt_key_def)
  have r: "routes (atlas_remove k a) = (case slot_find rt_in_use rt_key k (routes a) of None \<Rightarrow> routes a
      | Some i \<Rightarrow> (routes a)[i := (routes a ! i)\<lparr>rt_in_use := False\<rparr>])"
    by (simp add: atlas_remove_def atlas_remove_route_def Let_def route_find split: option.splits)
  show "atlas_inv (atlas_remove k a) \<and> atlas_view (atlas_remove k a) = map_op 16 (Delete k) (atlas_view a)"
    using slot_drop_effect [OF k, of "\<lambda>i. (routes a ! i)\<lparr>rt_in_use := False\<rparr>", OF _ r, of rt_gateway 16] len
    by (simp add: atlas_inv_def atlas_view_def)
qed

section \<open>Lookup\<close>

definition route_matches :: "bytes \<Rightarrow> atlas_route_t \<Rightarrow> bool" where
  "route_matches dest_ip r \<longleftrightarrow> rt_in_use r \<and> same_net dest_ip (rt_network r) (rt_netmask r)"

lemma atlas_lookup_first:
  "atlas_lookup_loop a d rs (-1) (-1) hop =
     (if \<exists>r\<in>set rs. route_matches d r
      then (True, let gw = rt_gateway (routes a ! 1)
                  in if gw ! 0 = 0 \<and> gw ! 1 = 0 \<and> gw ! 2 = 0 \<and> gw ! 3 = 0 then d else gw)
      else (False, hop))"
  by (induction rs) (auto simp: route_matches_def Let_def)

section \<open>Properties\<close>

text \<open>The routing table with add and remove is a map from network and mask to gateway that refuses a
  new route when it has 16.\<close>

theorem atlas_refines_map:
  "atlas_view (fold (table_step atlas_add atlas_remove) ops atlas_boot) = fold (map_op 16) ops Map.empty"
proof -
  have "atlas_inv atlas_boot" "atlas_view atlas_boot = Map.empty"
    by (simp_all add: atlas_inv_def atlas_view_def atlas_boot_def ATLAS_MAX_ROUTES_def)
  then show ?thesis using route_table.run_refines [of atlas_boot ops] by simp
qed

text \<open>C22. A lookup does not choose a route by prefix: when any route matches, the next hop is taken from
  slot 1, whatever it holds, and when none does the lookup fails whether or not there is a default
  gateway.\<close>

theorem atlas_lookup_slot_one:
  "atlas_lookup d hop a =
     (if \<exists>r\<in>set (routes a). route_matches d r
      then (True, let gw = rt_gateway (routes a ! 1)
                  in if gw ! 0 = 0 \<and> gw ! 1 = 0 \<and> gw ! 2 = 0 \<and> gw ! 3 = 0 then d else gw)
      else (False, hop))"
  unfolding atlas_lookup_def by (rule atlas_lookup_first)

end
