(* ===== verification/Provenance.thy ===== *)
theory Provenance
  imports Prelude Interfaces
begin

text \<open>
  The causality log, \<^verbatim>\<open>Provenance/provenance.c\<close>: a ring of 256 records, each an edge from a source
  entity to a target entity, queries over it, and the breadth-first trace of everything an entity
  led to (or came from). The ring provides the \<open>recent_log\<close> contract; the trace is compared with
  reachability in the graph of the records. Interrupt guards have no counterpart: an operation is
  one step. \<^verbatim>\<open>results\<close> buffers are result lists.
\<close>

section \<open>Model\<close>

definition PROVENANCE_MAX_RECORDS :: nat where "PROVENANCE_MAX_RECORDS = 256"

datatype provenance_relation_t = PROVENANCE_RELATION_NONE | PROVENANCE_RELATION_CAUSED
  | PROVENANCE_RELATION_AFFECTED | PROVENANCE_RELATION_CREATED | PROVENANCE_RELATION_DESTROYED
  | PROVENANCE_RELATION_OWNED | PROVENANCE_RELATION_TRIGGERED | PROVENANCE_RELATION_DEPENDED_ON
  | PROVENANCE_RELATION_RESPONDED_TO

datatype provenance_reason_t = PROVENANCE_REASON_NONE | PROVENANCE_REASON_INTERRUPT | PROVENANCE_REASON_SCHEDULE
  | PROVENANCE_REASON_ALLOCATION | PROVENANCE_REASON_DEALLOCATION | PROVENANCE_REASON_CREATION
  | PROVENANCE_REASON_DESTRUCTION | PROVENANCE_REASON_REQUEST | PROVENANCE_REASON_RESPONSE
  | PROVENANCE_REASON_DELIVERY | PROVENANCE_REASON_FAILURE | PROVENANCE_REASON_DEPENDENCY
  | PROVENANCE_REASON_USER_ACTION | PROVENANCE_REASON_SYSTEM_ACTION

datatype provenance_entity_t = PROVENANCE_ENTITY_NONE | PROVENANCE_ENTITY_INTERRUPT | PROVENANCE_ENTITY_DRIVER
  | PROVENANCE_ENTITY_PROCESS | PROVENANCE_ENTITY_MEMORY | PROVENANCE_ENTITY_NETWORK | PROVENANCE_ENTITY_FILE
  | PROVENANCE_ENTITY_DEVICE | PROVENANCE_ENTITY_OPERATION

record provenance_entity_ref_t =
  pe_type :: provenance_entity_t
  pe_id :: u32

record provenance_record_t =
  pr_id :: u32
  pr_tick :: u32
  pr_source :: provenance_entity_ref_t
  pr_target :: provenance_entity_ref_t
  pr_relation :: provenance_relation_t
  pr_reason :: provenance_reason_t
  pr_valid :: bool

record provenance =
  pv_records :: "provenance_record_t list"
  pv_record_count :: nat
  pv_next_id :: u32
  pv_dropped :: u32

definition pv_boot :: provenance where
  "pv_boot = \<lparr>pv_records = replicate PROVENANCE_MAX_RECORDS \<lparr>pr_id = 0, pr_tick = 0,
       pr_source = \<lparr>pe_type = PROVENANCE_ENTITY_NONE, pe_id = 0\<rparr>, pr_target = \<lparr>pe_type = PROVENANCE_ENTITY_NONE, pe_id = 0\<rparr>,
       pr_relation = PROVENANCE_RELATION_NONE, pr_reason = PROVENANCE_REASON_NONE, pr_valid = False\<rparr>,
     pv_record_count = 0, pv_next_id = 0, pv_dropped = 0\<rparr>"

definition reset_locked :: "'a provenance_scheme \<Rightarrow> 'a provenance_scheme" where
  "reset_locked s = s\<lparr>pv_record_count := 0, pv_next_id := 1, pv_dropped := 0,
     pv_records := map (\<lambda>r. r\<lparr>pr_valid := False\<rparr>) (pv_records s)\<rparr>"

definition oldest_slot :: "'a provenance_scheme \<Rightarrow> nat" where
  "oldest_slot s =
     (if pv_record_count s < PROVENANCE_MAX_RECORDS then 0
      else unat (pv_next_id s - 1) mod PROVENANCE_MAX_RECORDS)"

definition entity_equal :: "provenance_entity_ref_t \<Rightarrow> provenance_entity_ref_t \<Rightarrow> bool" where
  "entity_equal a b \<longleftrightarrow> pe_type a = pe_type b \<and> pe_id a = pe_id b"

definition provenance_init :: "'a provenance_scheme \<Rightarrow> 'a provenance_scheme" where
  "provenance_init s = reset_locked s"

definition provenance_clear :: "'a provenance_scheme \<Rightarrow> 'a provenance_scheme" where
  "provenance_clear s = provenance_init s"

definition store_locked ::
  "provenance_entity_ref_t \<Rightarrow> provenance_entity_ref_t \<Rightarrow> provenance_relation_t \<Rightarrow> provenance_reason_t \<Rightarrow> u32 \<Rightarrow>
   'a provenance_scheme \<Rightarrow> u32 \<times> 'a provenance_scheme" where
  "store_locked source target relation reason tick s =
     (let (index, s) =
            (if pv_record_count s < PROVENANCE_MAX_RECORDS
             then (pv_record_count s, s\<lparr>pv_record_count := pv_record_count s + 1\<rparr>)
             else (unat (pv_next_id s - 1) mod PROVENANCE_MAX_RECORDS, s\<lparr>pv_dropped := pv_dropped s + 1\<rparr>));
          i = pv_next_id s
      in (i, s\<lparr>pv_next_id := pv_next_id s + 1,
               pv_records := (pv_records s)[index := \<lparr>pr_id = i, pr_tick = tick, pr_source = source, pr_target = target,
                 pr_relation = relation, pr_reason = reason, pr_valid = True\<rparr>]\<rparr>))"

definition input_valid :: "provenance_entity_ref_t \<Rightarrow> provenance_entity_ref_t \<Rightarrow> provenance_relation_t \<Rightarrow> bool" where
  "input_valid source target relation \<longleftrightarrow>
     pe_type source \<noteq> PROVENANCE_ENTITY_NONE \<and> pe_type target \<noteq> PROVENANCE_ENTITY_NONE \<and> relation \<noteq> PROVENANCE_RELATION_NONE"

definition provenance_record ::
  "u32 \<Rightarrow> provenance_entity_ref_t \<Rightarrow> provenance_entity_ref_t \<Rightarrow> provenance_relation_t \<Rightarrow> provenance_reason_t \<Rightarrow>
   'a provenance_scheme \<Rightarrow> u32 \<times> 'a provenance_scheme" where
  "provenance_record now source target relation reason s =
     (if \<not> input_valid source target relation then (0, s) else store_locked source target relation reason now s)"

definition provenance_record_once ::
  "u32 \<Rightarrow> provenance_entity_ref_t \<Rightarrow> provenance_entity_ref_t \<Rightarrow> provenance_relation_t \<Rightarrow> provenance_reason_t \<Rightarrow>
   'a provenance_scheme \<Rightarrow> u32 \<times> 'a provenance_scheme" where
  "provenance_record_once now source target relation reason s =
     (if \<not> input_valid source target relation then (0, s)
      else let i = (case first_idx (\<lambda>r. pr_valid r \<and> pr_relation r = relation \<and> entity_equal (pr_source r) source \<and>
                       entity_equal (pr_target r) target) (take (pv_record_count s) (pv_records s)) of
                      Some k \<Rightarrow> pr_id (pv_records s ! k) | None \<Rightarrow> 0)
           in if i = 0 then store_locked source target relation reason now s else (i, s))"

definition provenance_get :: "u32 \<Rightarrow> 'a provenance_scheme \<Rightarrow> provenance_record_t option" where
  "provenance_get i s =
     (if i = 0 then None
      else map_option (\<lambda>k. pv_records s ! k) (first_idx (\<lambda>r. pr_valid r \<and> pr_id r = i) (pv_records s)))"

text \<open>The records from the oldest, as every query walks them.\<close>

definition pv_ordered :: "'a provenance_scheme \<Rightarrow> provenance_record_t list" where
  "pv_ordered s =
     map (\<lambda>k. pv_records s ! ((oldest_slot s + k) mod PROVENANCE_MAX_RECORDS)) [0..<pv_record_count s]"

definition provenance_get_snapshot :: "'a provenance_scheme \<Rightarrow> provenance_record_t list \<times> nat \<times> u32" where
  "provenance_get_snapshot s = (pv_ordered s, pv_record_count s, pv_dropped s)"

text \<open>The query loop: it stops when \<open>max_results\<close> records are found.\<close>

fun pv_collect :: "(provenance_record_t \<Rightarrow> bool) \<Rightarrow> nat \<Rightarrow> provenance_record_t list \<Rightarrow> provenance_record_t list" where
  "pv_collect P m [] = []"
| "pv_collect P m (r # rs) =
     (if m = 0 then [] else if P r then r # pv_collect P (m - 1) rs else pv_collect P m rs)"

definition provenance_find_from :: "provenance_entity_ref_t \<Rightarrow> nat \<Rightarrow> 'a provenance_scheme \<Rightarrow> provenance_record_t list" where
  "provenance_find_from source max_results s =
     pv_collect (\<lambda>r. pr_valid r \<and> entity_equal (pr_source r) source) max_results (pv_ordered s)"

definition provenance_find_to :: "provenance_entity_ref_t \<Rightarrow> nat \<Rightarrow> 'a provenance_scheme \<Rightarrow> provenance_record_t list" where
  "provenance_find_to target max_results s =
     pv_collect (\<lambda>r. pr_valid r \<and> entity_equal (pr_target r) target) max_results (pv_ordered s)"

definition provenance_find_relation ::
  "provenance_entity_ref_t \<Rightarrow> provenance_relation_t \<Rightarrow> nat \<Rightarrow> 'a provenance_scheme \<Rightarrow> provenance_record_t list" where
  "provenance_find_relation entity relation max_results s =
     pv_collect (\<lambda>r. pr_valid r \<and> pr_relation r = relation \<and>
       (entity_equal (pr_source r) entity \<or> entity_equal (pr_target r) entity)) max_results (pv_ordered s)"

text \<open>The trace keeps the queue from its head on, the visited entities and the results.\<close>

type_synonym trace_state = "provenance_entity_ref_t list \<times> provenance_entity_ref_t list \<times> provenance_record_t list"

definition trace_from_end :: "bool \<Rightarrow> provenance_record_t \<Rightarrow> provenance_entity_ref_t" where
  "trace_from_end forward r = (if forward then pr_source r else pr_target r)"

definition trace_next_end :: "bool \<Rightarrow> provenance_record_t \<Rightarrow> provenance_entity_ref_t" where
  "trace_next_end forward r = (if forward then pr_target r else pr_source r)"

fun trace_scan ::
  "bool \<Rightarrow> nat \<Rightarrow> provenance_entity_ref_t \<Rightarrow> provenance_record_t list \<Rightarrow> trace_state \<Rightarrow> trace_state" where
  "trace_scan forward max_results current [] st = st"
| "trace_scan forward max_results current (r # rs) (queue, visited, results) =
     (if \<not> length results < max_results then (queue, visited, results)
      else if \<not> pr_valid r \<or> \<not> entity_equal (trace_from_end forward r) current
      then trace_scan forward max_results current rs (queue, visited, results)
      else
        let results = results @ [r];
            next_e = trace_next_end forward r;
            seen = list_ex (\<lambda>v. entity_equal v next_e) visited
        in if \<not> seen \<and> length visited < PROVENANCE_MAX_RECORDS + 1
           then trace_scan forward max_results current rs (queue @ [next_e], visited @ [next_e], results)
           else trace_scan forward max_results current rs (queue, visited, results))"

lemma trace_scan_measure:
  "trace_scan f m c rs (q, v, res) = (q', v', res') \<Longrightarrow> length q' + (257 - length v') \<le> length q + (257 - length v)"
proof (induction rs arbitrary: q v res)
  case (Cons r rs)
  show ?case
  proof (cases "length res < m \<and> pr_valid r \<and> entity_equal (trace_from_end f r) c")
    case False
    then show ?thesis using Cons.prems Cons.IH by (auto split: if_splits)
  next
    case True
    then show ?thesis
      using Cons.prems Cons.IH [of "q @ [trace_next_end f r]" "v @ [trace_next_end f r]" "res @ [r]"] Cons.IH [of q v "res @ [r]"]
      by (simp add: Let_def PROVENANCE_MAX_RECORDS_def split: if_splits)
  qed
qed simp

function trace_loop :: "bool \<Rightarrow> nat \<Rightarrow> provenance_record_t list \<Rightarrow> trace_state \<Rightarrow> provenance_record_t list" where
  "trace_loop forward max_results copy ([], visited, results) = results"
| "trace_loop forward max_results copy (current # queue, visited, results) =
     (if length results < max_results
      then trace_loop forward max_results copy (trace_scan forward max_results current copy (queue, visited, results))
      else results)"
  by pat_completeness auto
termination
  apply (relation "measure (\<lambda>(f, m, c, (q, v, res)). length q + (257 - length v))")
   apply simp
  subgoal for f m copy c q v res
    using trace_scan_measure [of f m c copy q v res]
    by (cases "trace_scan f m c copy (q, v, res)") fastforce
  done

definition trace :: "provenance_entity_ref_t \<Rightarrow> bool \<Rightarrow> nat \<Rightarrow> 'a provenance_scheme \<Rightarrow> provenance_record_t list" where
  "trace start forward max_results s =
     (if max_results = 0 then [] else trace_loop forward max_results (pv_ordered s) ([start], [start], []))"

definition provenance_trace_from :: "provenance_entity_ref_t \<Rightarrow> nat \<Rightarrow> 'a provenance_scheme \<Rightarrow> provenance_record_t list" where
  "provenance_trace_from start max_results s = trace start True max_results s"

definition provenance_trace_to :: "provenance_entity_ref_t \<Rightarrow> nat \<Rightarrow> 'a provenance_scheme \<Rightarrow> provenance_record_t list" where
  "provenance_trace_to target max_results s = trace target False max_results s"

section \<open>Slots and identifiers\<close>

lemma entity_equal_eq [simp]: "entity_equal a b \<longleftrightarrow> a = b"
  by (cases a; cases b) (auto simp: entity_equal_def)

text \<open>The slot of a record is given by its identifier, and the next record goes to the slot its
  identifier gives.\<close>

definition pv_slot :: "u32 \<Rightarrow> nat" where
  "pv_slot i = unat (i - 1) mod 256"

definition pv_inv :: "'a provenance_scheme \<Rightarrow> bool" where
  "pv_inv s \<longleftrightarrow> length (pv_records s) = 256 \<and> pv_record_count s \<le> 256 \<and>
     (pv_record_count s < 256 \<longrightarrow> pv_slot (pv_next_id s) = pv_record_count s) \<and>
     (\<forall>j<256. pr_valid (pv_records s ! j) \<longrightarrow> pv_slot (pr_id (pv_records s ! j)) = j)"

lemma pv_slot_less [simp]: "pv_slot i < 256"
  by (simp add: pv_slot_def)

lemma pv_slot_add: "pv_slot (i + of_nat n) = (pv_slot i + n) mod 256"
proof -
  have "unat (i - 1 + of_nat n) mod 256 = (unat (i - 1) + n) mod 256"
  proof -
    have "unat (i - 1 + of_nat n) = (unat (i - 1) + n mod 2 ^ 32) mod 2 ^ 32"
      by (simp add: unat_word_ariths unat_of_nat)
    also have "\<dots> mod 256 = (unat (i - 1) + n) mod 256"
      by (simp add: mod_mod_cancel mod_add_right_eq)
    finally show ?thesis .
  qed
  then show ?thesis by (simp add: pv_slot_def algebra_simps mod_add_left_eq mod_add_right_eq)
qed

definition pv_made ::
  "u32 \<Rightarrow> u32 \<Rightarrow> provenance_entity_ref_t \<Rightarrow> provenance_entity_ref_t \<Rightarrow> provenance_relation_t \<Rightarrow> provenance_reason_t \<Rightarrow> provenance_record_t" where
  "pv_made i now a b rel why =
     \<lparr>pr_id = i, pr_tick = now, pr_source = a, pr_target = b, pr_relation = rel, pr_reason = why, pr_valid = True\<rparr>"

lemma store_locked_effect:
  assumes "pv_inv s" "store_locked a b rel why t s = (i, s')"
  shows "i = pv_next_id s" "pv_next_id s' = pv_next_id s + 1"
    "pv_records s' = (pv_records s)[pv_slot (pv_next_id s) := pv_made i t a b rel why]"
    "pv_record_count s' = min (Suc (pv_record_count s)) 256"
  using assms
  by (auto simp: store_locked_def Let_def pv_inv_def PROVENANCE_MAX_RECORDS_def pv_made_def pv_slot_def split: if_splits)

lemma pv_inv_store:
  assumes inv: "pv_inv s" and run: "store_locked a b rel why t s = (i, s')"
  shows "pv_inv s'"
proof -
  note E = store_locked_effect [OF inv run]
  have "pv_slot (pv_next_id s + 1) = (pv_slot (pv_next_id s) + 1) mod 256"
    using pv_slot_add [of "pv_next_id s" 1] by simp
  then show ?thesis
    using inv unfolding pv_inv_def E(2,3,4) by (auto simp: nth_list_update E(1) pv_made_def min_def)
qed

lemma pv_inv_init: "length (pv_records s) = 256 \<Longrightarrow> pv_inv (provenance_init s)"
  by (simp add: pv_inv_def provenance_init_def reset_locked_def pv_slot_def)

lemma provenance_get_slot:
  assumes "pv_inv s" "i \<noteq> 0" "pr_valid (pv_records s ! pv_slot i)" "pr_id (pv_records s ! pv_slot i) = i"
  shows "provenance_get i s = Some (pv_records s ! pv_slot i)"
proof -
  have "first_idx (\<lambda>r. pr_valid r \<and> pr_id r = i) (pv_records s) = Some (pv_slot i)"
    using assms by (intro first_idx_unique) (auto simp: pv_inv_def)
  then show ?thesis using assms(2) by (simp add: provenance_get_def)
qed

text \<open>What is recorded later, as one step.\<close>

type_synonym pv_event = "u32 \<times> provenance_entity_ref_t \<times> provenance_entity_ref_t \<times> provenance_relation_t \<times> provenance_reason_t"

fun pv_step :: "pv_event \<Rightarrow> 'a provenance_scheme \<Rightarrow> 'a provenance_scheme" where
  "pv_step (now, a, b, rel, why) s = snd (provenance_record now a b rel why s)"

definition pv_holds :: "u32 \<Rightarrow> provenance_record_t \<Rightarrow> nat \<Rightarrow> 'a provenance_scheme \<Rightarrow> bool" where
  "pv_holds i r k s \<longleftrightarrow> pv_inv s \<and> pv_records s ! pv_slot i = r \<and> pv_next_id s = i + of_nat (Suc k)"

lemma pv_holds_step:
  assumes h: "pv_holds i r k s" and k: "Suc k < 256"
  shows "pv_holds i r (Suc k) (pv_step e s) \<or> pv_holds i r k (pv_step e s)"
proof -
  obtain now a b rel why where e: "e = (now, a, b, rel, why)" by (cases e)
  show ?thesis
  proof (cases "input_valid a b rel")
    case True
    obtain j s' where st: "store_locked a b rel why now s = (j, s')" by fastforce
    have inv: "pv_inv s" using h by (simp add: pv_holds_def)
    note E = store_locked_effect [OF inv st]
    have "pv_slot (pv_next_id s) = (pv_slot i + Suc k) mod 256"
      using h pv_slot_add [of i "Suc k"] by (simp add: pv_holds_def)
    moreover have "\<dots> \<noteq> pv_slot i" using k mod_wrap [of "pv_slot i + Suc k" 256] pv_slot_less [of i] by auto
    ultimately have "pv_holds i r (Suc k) s'"
      using h E pv_inv_store [OF inv st] by (simp add: pv_holds_def add.assoc)
    then show ?thesis using True st by (simp add: e provenance_record_def)
  next
    case False
    then show ?thesis using h by (simp add: e provenance_record_def)
  qed
qed

lemma pv_holds_steps:
  "pv_holds i r k s \<Longrightarrow> k + length es < 256 \<Longrightarrow> \<exists>k'. pv_holds i r k' (fold pv_step es s)"
proof (induction es arbitrary: k s)
  case (Cons e es)
  then show ?case using pv_holds_step [OF Cons.prems(1), of e] Cons.IH [of "Suc k"] Cons.IH [of k] by fastforce
qed auto

lemma pv_inv_step: "pv_inv s \<Longrightarrow> pv_inv (pv_step e s)"
proof (cases e)
  case (fields now a b rel why)
  assume "pv_inv s"
  then show ?thesis
    using pv_inv_store [of s a b rel why now] by (cases "store_locked a b rel why now s") (simp add: fields provenance_record_def)
qed

lemma pv_inv_steps: "pv_inv s \<Longrightarrow> pv_inv (fold pv_step es s)"
  by (induction es arbitrary: s) (simp_all add: pv_inv_step)

section \<open>The trace and reachability\<close>

text \<open>The edges of the records in the direction of the trace.\<close>

definition trace_edges :: "bool \<Rightarrow> provenance_record_t list \<Rightarrow> (provenance_entity_ref_t \<times> provenance_entity_ref_t) set" where
  "trace_edges f rs = {(trace_from_end f r, trace_next_end f r) | r. r \<in> set rs \<and> pr_valid r}"

definition trace_out :: "bool \<Rightarrow> provenance_record_t list \<Rightarrow> provenance_entity_ref_t \<Rightarrow> provenance_record_t list" where
  "trace_out f rs c = filter (\<lambda>r. pr_valid r \<and> trace_from_end f r = c) rs"

lemma trace_out_total: "distinct cs \<Longrightarrow> length (concat (map (trace_out f rs) cs)) \<le> length rs"
proof (induction rs)
  case (Cons r rs)
  have "length (concat (map (trace_out f (r # rs)) cs)) =
      length (concat (map (trace_out f rs) cs)) + count_if (\<lambda>c. pr_valid r \<and> trace_from_end f r = c) cs" for cs
    by (induction cs) (simp_all add: trace_out_def)
  moreover have "count_if (\<lambda>c. pr_valid r \<and> trace_from_end f r = c) cs \<le> 1"
    using Cons.prems by (induction cs) (auto simp: count_if_def filter_empty_conv)
  ultimately show ?case using Cons by simp
qed (induction cs, simp_all add: trace_out_def)

text \<open>One pass over the records, when neither limit is in the way.\<close>

lemma trace_scan_effect:
  assumes "length res + length (trace_out f rs c) \<le> m" "distinct v"
    and "card (set v \<union> trace_next_end f ` set rs) \<le> 257"
  shows "\<exists>new. trace_scan f m c rs (q, v, res) = (q @ new, v @ new, res @ trace_out f rs c) \<and>
    distinct (v @ new) \<and> set new = trace_next_end f ` set (trace_out f rs c) - set v"
  using assms
proof (induction rs arbitrary: q v res)
  case (Cons r rs)
  show ?case
  proof (cases "pr_valid r \<and> trace_from_end f r = c")
    case False
    then have out: "trace_out f (r # rs) c = trace_out f rs c" by (auto simp: trace_out_def)
    have "card (set v \<union> trace_next_end f ` set rs) \<le> card (set v \<union> trace_next_end f ` set (r # rs))"
      by (intro card_mono) auto
    then have IH: "\<exists>new. trace_scan f m c rs (q, v, res) = (q @ new, v @ new, res @ trace_out f rs c) \<and>
        distinct (v @ new) \<and> set new = trace_next_end f ` set (trace_out f rs c) - set v"
      using Cons.IH [of res v q] Cons.prems out by simp
    show ?thesis
    proof (cases "length res < m")
      case True
      then show ?thesis using IH False out by auto
    next
      case stop: False
      then have "trace_out f rs c = []" using Cons.prems(1) out by (cases "trace_out f rs c") simp_all
      then show ?thesis using stop out Cons.prems(2) by (intro exI [of _ "[]"]) simp
    qed
  next
    case True
    let ?n = "trace_next_end f r"
    have out: "trace_out f (r # rs) c = r # trace_out f rs c" using True by (simp add: trace_out_def)
    then have room: "length res < m" using Cons.prems(1) by simp
    show ?thesis
    proof (cases "?n \<in> set v")
      case seen: True
      have "trace_scan f m c (r # rs) (q, v, res) = trace_scan f m c rs (q, v, res @ [r])"
        using True room seen by (auto simp: Let_def list_ex_iff)
      moreover have "card (set v \<union> trace_next_end f ` set rs) \<le> 257"
        using Cons.prems(3) seen by (simp add: insert_absorb)
      ultimately show ?thesis using Cons.IH [of "res @ [r]" v q] Cons.prems(1,2) out seen by auto
    next
      case new: False
      have "insert ?n (set v) \<subseteq> set v \<union> trace_next_end f ` set (r # rs)" by auto
      from card_mono [OF _ this] have "length v < 257"
        using Cons.prems(2,3) new by (simp add: distinct_card)
      then have "trace_scan f m c (r # rs) (q, v, res) = trace_scan f m c rs (q @ [?n], v @ [?n], res @ [r])"
        using True room new by (auto simp: Let_def list_ex_iff PROVENANCE_MAX_RECORDS_def)
      moreover obtain new' where "trace_scan f m c rs (q @ [?n], v @ [?n], res @ [r]) =
          ((q @ [?n]) @ new', (v @ [?n]) @ new', (res @ [r]) @ trace_out f rs c)"
        "distinct ((v @ [?n]) @ new')" "set new' = trace_next_end f ` set (trace_out f rs c) - set (v @ [?n])"
        using Cons.IH [of "res @ [r]" "v @ [?n]" "q @ [?n]"] Cons.prems out new by auto
      ultimately show ?thesis using out new by (intro exI [of _ "?n # new'"]) auto
    qed
  qed
qed (simp add: trace_out_def)

text \<open>What the loop keeps: the visited entities are those already expanded and those in the queue, the
  results are the records out of the expanded ones.\<close>

definition trace_ok :: "bool \<Rightarrow> provenance_record_t list \<Rightarrow> provenance_entity_ref_t \<Rightarrow> provenance_entity_ref_t list \<Rightarrow> trace_state \<Rightarrow> bool" where
  "trace_ok f rs start done_e st \<longleftrightarrow> (case st of (q, v, res) \<Rightarrow>
     v = done_e @ q \<and> distinct v \<and> start \<in> set v \<and> set v \<subseteq> insert start (trace_next_end f ` set rs) \<and>
     set v \<subseteq> (trace_edges f rs)\<^sup>* `` {start} \<and> res = concat (map (trace_out f rs) done_e) \<and>
     trace_next_end f ` set res \<subseteq> set v)"

lemma trace_ok_step:
  assumes ok: "trace_ok f rs start done_e (c # q, v, res)" and len: "length rs \<le> 256" "length rs \<le> m"
  shows "trace_ok f rs start (done_e @ [c]) (trace_scan f m c rs (q, v, res))"
proof -
  have v: "v = done_e @ c # q" "distinct v" "start \<in> set v" "set v \<subseteq> insert start (trace_next_end f ` set rs)"
    "set v \<subseteq> (trace_edges f rs)\<^sup>* `` {start}" "res = concat (map (trace_out f rs) done_e)"
    "trace_next_end f ` set res \<subseteq> set v"
    using ok unfolding trace_ok_def prod.case by blast+
  have "length (concat (map (trace_out f rs) (done_e @ [c]))) \<le> length rs"
    using v(1,2) by (intro trace_out_total) simp
  then have room: "length res + length (trace_out f rs c) \<le> m" using v(6) len by simp
  have "set v \<union> trace_next_end f ` set rs \<subseteq> insert start (trace_next_end f ` set rs)" using v(4) by auto
  from card_mono [OF _ this] have "card (set v \<union> trace_next_end f ` set rs) \<le> Suc (card (trace_next_end f ` set rs))"
    using card_insert_le_m1 [of "Suc (card (trace_next_end f ` set rs))" "trace_next_end f ` set rs" start] by auto
  also have "\<dots> \<le> 257" using card_image_le [of "set rs" "trace_next_end f"] card_length [of rs] len(1) by simp
  finally have card: "card (set v \<union> trace_next_end f ` set rs) \<le> 257" .
  obtain new where new: "trace_scan f m c rs (q, v, res) = (q @ new, v @ new, res @ trace_out f rs c)"
    "distinct (v @ new)" "set new = trace_next_end f ` set (trace_out f rs c) - set v"
    using trace_scan_effect [OF room v(2) card, of q] by blast
  have "(c, trace_next_end f r) \<in> trace_edges f rs" if "r \<in> set (trace_out f rs c)" for r
    using that by (auto simp: trace_out_def trace_edges_def)
  moreover have "(start, c) \<in> (trace_edges f rs)\<^sup>*" using v(1,5) by auto
  ultimately have "set new \<subseteq> (trace_edges f rs)\<^sup>* `` {start}" using new(3) by (auto intro: rtrancl_into_rtrancl)
  then have 1: "set (v @ new) \<subseteq> (trace_edges f rs)\<^sup>* `` {start}" using v(5) by simp
  have "set new \<subseteq> trace_next_end f ` set rs" using new(3) by (auto simp: trace_out_def)
  then have 2: "set (v @ new) \<subseteq> insert start (trace_next_end f ` set rs)" using v(4) by auto
  have "trace_next_end f ` set (trace_out f rs c) \<subseteq> set v \<union> set new" using new(3) by auto
  then have 3: "trace_next_end f ` set (res @ trace_out f rs c) \<subseteq> set (v @ new)"
    using v(7) unfolding set_append image_Un by blast
  have 4: "v @ new = (done_e @ [c]) @ q @ new" "res @ trace_out f rs c = concat (map (trace_out f rs) (done_e @ [c]))"
    using v(1,6) by simp_all
  have 5: "start \<in> set (v @ new)" using v(3) by simp
  show ?thesis unfolding trace_ok_def new(1) prod.case by (intro conjI 1 2 3 4 5 new(2))
qed

lemma trace_ok_closed:
  assumes ok: "trace_ok f rs start done_e (q, v, res)" and rest: "\<And>c. c \<in> set q \<Longrightarrow> trace_out f rs c = []"
  shows "set res = {r \<in> set rs. pr_valid r \<and> (start, trace_from_end f r) \<in> (trace_edges f rs)\<^sup>*}"
proof -
  have v: "v = done_e @ q" "start \<in> set v" "set v \<subseteq> (trace_edges f rs)\<^sup>* `` {start}"
    "res = concat (map (trace_out f rs) done_e)" "trace_next_end f ` set res \<subseteq> set v"
    using ok unfolding trace_ok_def prod.case by blast+
  have res: "r \<in> set res" if "r \<in> set rs" "pr_valid r" "trace_from_end f r \<in> set v" for r
  proof -
    have r: "r \<in> set (trace_out f rs (trace_from_end f r))" using that by (simp add: trace_out_def)
    then have "trace_from_end f r \<notin> set q" using rest by fastforce
    then have "trace_from_end f r \<in> set done_e" using that(3) v(1) by simp
    then show ?thesis using r v(4) by auto
  qed
  then have "trace_edges f rs `` set v \<subseteq> set v" using v(5) by (auto simp: trace_edges_def)
  then have "(trace_edges f rs)\<^sup>* `` {start} \<subseteq> set v"
    using v(2) Image_closed_trancl [of "trace_edges f rs" "set v"] by auto
  then have V: "set v = (trace_edges f rs)\<^sup>* `` {start}" using v(3) by (rule subset_antisym [rotated])
  have sound: "r \<in> set rs \<and> pr_valid r \<and> trace_from_end f r \<in> set v" if r: "r \<in> set res" for r
  proof -
    obtain c where "c \<in> set done_e" "r \<in> set (trace_out f rs c)" using r v(4) by auto
    then show ?thesis using v(1) by (simp add: trace_out_def)
  qed
  have mem: "x \<in> set v \<longleftrightarrow> (start, x) \<in> (trace_edges f rs)\<^sup>*" for x unfolding V by simp
  show ?thesis
  proof (intro set_eqI iffI)
    fix r
    assume "r \<in> set res"
    from sound [OF this] show "r \<in> {r \<in> set rs. pr_valid r \<and> (start, trace_from_end f r) \<in> (trace_edges f rs)\<^sup>*}"
      by (simp add: mem)
  next
    fix r
    assume "r \<in> {r \<in> set rs. pr_valid r \<and> (start, trace_from_end f r) \<in> (trace_edges f rs)\<^sup>*}"
    then show "r \<in> set res" by (intro res) (simp_all add: mem)
  qed
qed

lemma trace_ok_results:
  assumes "trace_ok f rs start done_e (q, v, res)"
  shows "distinct (done_e @ q)" "res = concat (map (trace_out f rs) done_e)"
  using assms unfolding trace_ok_def prod.case by blast+

definition trace_found :: "bool \<Rightarrow> provenance_record_t list \<Rightarrow> provenance_entity_ref_t \<Rightarrow> provenance_record_t list \<Rightarrow> bool" where
  "trace_found f rs start res \<longleftrightarrow>
     set res = {r \<in> set rs. pr_valid r \<and> (start, trace_from_end f r) \<in> (trace_edges f rs)\<^sup>*}"

lemma trace_loop_reach:
  "trace_ok f rs start done_e st \<Longrightarrow> length rs \<le> 256 \<Longrightarrow> length rs \<le> m \<Longrightarrow>
    trace_found f rs start (trace_loop f m rs st)"
proof (induction f m rs st arbitrary: done_e rule: trace_loop.induct)
  case (1 f m rs v res)
  show ?case using trace_ok_closed [OF "1.prems"(1)] by (simp add: trace_found_def)
next
  case (2 f m rs c q v res)
  show ?case
  proof (cases "length res < m")
    case True
    then show ?thesis using "2.IH" [OF True trace_ok_step [OF "2.prems"] "2.prems"(2,3)] by simp
  next
    case False
    note R = trace_ok_results [OF "2.prems"(1)]
    have "length res + length (concat (map (trace_out f rs) (c # q))) \<le> length rs"
      using trace_out_total [OF R(1), of f rs] R(2) by simp
    then have "length (concat (map (trace_out f rs) (c # q))) = 0" using False "2.prems"(3) by linarith
    then have "\<forall>xs\<in>set (map (trace_out f rs) (c # q)). xs = []" by (simp only: length_0_conv concat_eq_Nil_conv)
    then have "trace_out f rs d = []" if d: "d \<in> set (c # q)" for d using d by auto
    then show ?thesis using False trace_ok_closed [OF "2.prems"(1)] by (simp add: trace_found_def)
  qed
qed

lemma pv_ordered_length [simp]: "length (pv_ordered s) = pv_record_count s"
  by (simp add: pv_ordered_def)

section \<open>Properties\<close>

text \<open>C23. Tracing forward from an entity into a buffer of at least 256 records returns exactly the valid
  records whose source the entity leads to, through any chain of records: the limits on the queue
  and on the visited entities never lose one.\<close>

theorem provenance_trace_reach:
  assumes "pv_inv s" "256 \<le> max_results"
  shows "set (provenance_trace_from start max_results s) =
    {r \<in> set (pv_ordered s). pr_valid r \<and>
       (start, pr_source r) \<in> {(pr_source e, pr_target e) | e. e \<in> set (pv_ordered s) \<and> pr_valid e}\<^sup>*}"
proof -
  have len: "length (pv_ordered s) \<le> 256" "length (pv_ordered s) \<le> max_results"
    using assms by (simp_all add: pv_inv_def)
  have "trace_ok True (pv_ordered s) start [] ([start], [start], [])" by (simp add: trace_ok_def)
  from trace_loop_reach [OF this len] show ?thesis
    using assms(2)
    by (simp add: trace_found_def provenance_trace_from_def trace_def trace_edges_def trace_from_end_def trace_next_end_def)
qed

theorem provenance_trace_reach_witness:
  "let e = (\<lambda>i. \<lparr>pe_type = PROVENANCE_ENTITY_PROCESS, pe_id = i\<rparr>);
       rec = (\<lambda>a b. (7, e a, e b, PROVENANCE_RELATION_CAUSED, PROVENANCE_REASON_REQUEST));
       s = fold pv_step [rec 1 2, rec 3 4, rec 2 5] (provenance_init pv_boot)
   in set (provenance_trace_from (e 1) 256 s) =
        {r \<in> set (pv_ordered s). pr_valid r \<and>
           (e 1, pr_source r) \<in> {(pr_source d, pr_target d) | d. d \<in> set (pv_ordered s) \<and> pr_valid d}\<^sup>*} \<and>
      map pr_id (provenance_trace_from (e 1) 256 s) = [1, 3]"
proof -
  have "length (pv_records pv_boot) = 256" by (simp add: pv_boot_def PROVENANCE_MAX_RECORDS_def)
  then have inv: "pv_inv (fold pv_step es (provenance_init pv_boot))" for es by (intro pv_inv_steps pv_inv_init)
  show ?thesis
    unfolding Let_def by (intro conjI provenance_trace_reach [OF inv]) (simp, code_simp)
qed

text \<open>A record can be read back by the identifier its storing returned, through the next 255 stores,
  unless that identifier is the 0 of a counter that wrapped.\<close>

theorem provenance_get_recent:
  assumes "pv_inv s" "input_valid a b rel" "provenance_record now a b rel why s = (i, s')" "i \<noteq> 0" "length es < 256"
  shows "provenance_get i (fold pv_step es s') =
    Some \<lparr>pr_id = i, pr_tick = now, pr_source = a, pr_target = b, pr_relation = rel, pr_reason = why, pr_valid = True\<rparr>"
proof -
  have st: "store_locked a b rel why now s = (i, s')" using assms(2,3) by (simp add: provenance_record_def)
  note E = store_locked_effect [OF assms(1) st]
  have "pv_holds i (pv_made i now a b rel why) 0 s'"
    using E pv_inv_store [OF assms(1) st] assms(1) by (simp add: pv_holds_def pv_inv_def)
  then obtain k where "pv_holds i (pv_made i now a b rel why) k (fold pv_step es s')"
    using pv_holds_steps [of i _ 0 s' es] assms(5) by auto
  then show ?thesis
    using provenance_get_slot [of "fold pv_step es s'" i] assms(4) by (simp add: pv_holds_def pv_made_def)
qed

theorem provenance_get_recent_witness:
  "let a = \<lparr>pe_type = PROVENANCE_ENTITY_PROCESS, pe_id = 1\<rparr>; b = \<lparr>pe_type = PROVENANCE_ENTITY_FILE, pe_id = 2\<rparr>;
       s' = snd (provenance_record 9 a b PROVENANCE_RELATION_CREATED PROVENANCE_REASON_CREATION (provenance_init pv_boot))
   in provenance_get 1 (fold pv_step (replicate 255 (10, b, a, PROVENANCE_RELATION_OWNED, PROVENANCE_REASON_NONE)) s') =
      Some \<lparr>pr_id = 1, pr_tick = 9, pr_source = a, pr_target = b, pr_relation = PROVENANCE_RELATION_CREATED,
        pr_reason = PROVENANCE_REASON_CREATION, pr_valid = True\<rparr>"
proof -
  define a where "a = \<lparr>pe_type = PROVENANCE_ENTITY_PROCESS, pe_id = 1\<rparr>"
  define b where "b = \<lparr>pe_type = PROVENANCE_ENTITY_FILE, pe_id = 2\<rparr>"
  define r where "r = provenance_record 9 a b PROVENANCE_RELATION_CREATED PROVENANCE_REASON_CREATION (provenance_init pv_boot)"
  have inv: "pv_inv (provenance_init pv_boot)" by (rule pv_inv_init) (simp add: pv_boot_def PROVENANCE_MAX_RECORDS_def)
  have v: "input_valid a b PROVENANCE_RELATION_CREATED" by (simp add: input_valid_def a_def b_def)
  have "fst r = 1"
    by (simp add: r_def provenance_record_def v store_locked_def Let_def provenance_init_def reset_locked_def PROVENANCE_MAX_RECORDS_def)
  then have run: "provenance_record 9 a b PROVENANCE_RELATION_CREATED PROVENANCE_REASON_CREATION (provenance_init pv_boot) = (1, snd r)"
    unfolding r_def by (metis prod.collapse)
  have "provenance_get 1 (fold pv_step (replicate 255 (10, b, a, PROVENANCE_RELATION_OWNED, PROVENANCE_REASON_NONE)) (snd r)) =
      Some \<lparr>pr_id = 1, pr_tick = 9, pr_source = a, pr_target = b, pr_relation = PROVENANCE_RELATION_CREATED,
        pr_reason = PROVENANCE_REASON_CREATION, pr_valid = True\<rparr>"
    by (rule provenance_get_recent [OF inv v run]) simp_all
  then show ?thesis unfolding Let_def r_def a_def b_def .
qed

end
