(* ===== verification/NetWatch.thy ===== *)
theory NetWatch
  imports Provenance
begin

text \<open>
  Packet observation: the event log of \<^verbatim>\<open>Networking/NetWatch/net_watch.c\<close> and the capture queue
  and parser of \<^verbatim>\<open>Networking/NetWatch/net_observe.c\<close>. The state extends that of the causality log,
  which every event is recorded in. The current tick is an argument; interrupt guards have no
  counterpart, an operation is one step.
\<close>

section \<open>Model of the event log\<close>

definition NETWATCH_MAX_EVENTS :: nat where "NETWATCH_MAX_EVENTS = 128"
definition NETWATCH_NIC_DRIVER_ID :: u32 where "NETWATCH_NIC_DRIVER_ID = 1"
definition NETWATCH_GROUP_DST :: u32 where "NETWATCH_GROUP_DST = 0xFFFFFFFE"

datatype netwatch_protocol_t = NETWATCH_PROTO_UNKNOWN | NETWATCH_PROTO_ETHERNET | NETWATCH_PROTO_ARP
  | NETWATCH_PROTO_IPV4 | NETWATCH_PROTO_IPV6 | NETWATCH_PROTO_ICMP | NETWATCH_PROTO_UDP | NETWATCH_PROTO_TCP

datatype netwatch_direction_t = NETWATCH_RX | NETWATCH_TX

record netwatch_event_t =
  nwe_id :: u32
  nwe_protocol :: netwatch_protocol_t
  nwe_direction :: netwatch_direction_t
  nwe_length :: u32
  nwe_src_ip :: u32
  nwe_dst_ip :: u32
  nwe_src_port :: u16
  nwe_dst_port :: u16
  nwe_valid :: bool
  nwe_tick :: u64

record netwatch_stats_t =
  rx_packets :: u32
  tx_packets :: u32
  rx_bytes :: u32
  tx_bytes :: u32
  arp_packets :: u32
  ipv4_packets :: u32
  ipv6_packets :: u32
  icmp_packets :: u32
  udp_packets :: u32
  tcp_packets :: u32
  link_up :: bool

record netwatch = provenance +
  nw_stats :: netwatch_stats_t
  nw_events :: "netwatch_event_t list"
  nw_event_count :: nat
  nw_next_event_id :: u32

definition count_direction :: "netwatch_direction_t \<Rightarrow> u32 \<Rightarrow> netwatch_stats_t \<Rightarrow> netwatch_stats_t" where
  "count_direction direction len st =
     (if direction = NETWATCH_RX then st\<lparr>rx_packets := rx_packets st + 1, rx_bytes := rx_bytes st + len\<rparr>
      else st\<lparr>tx_packets := tx_packets st + 1, tx_bytes := tx_bytes st + len\<rparr>)"

text \<open>The loop that moves every event down by one when the log is full.\<close>

definition shift_events :: "netwatch_event_t list \<Rightarrow> netwatch_event_t list" where
  "shift_events ev = fold (\<lambda>i ev. ev[i - 1 := ev ! i]) [1..<NETWATCH_MAX_EVENTS] ev"

definition record_event ::
  "u32 \<Rightarrow> netwatch_direction_t \<Rightarrow> netwatch_protocol_t \<Rightarrow> u32 \<Rightarrow> u32 \<Rightarrow> u32 \<Rightarrow> u16 \<Rightarrow> u16 \<Rightarrow>
   'a netwatch_scheme \<Rightarrow> 'a netwatch_scheme" where
  "record_event now direction protocol len src_ip dst_ip src_port dst_port s =
     (let s = (if nw_event_count s \<ge> NETWATCH_MAX_EVENTS
               then s\<lparr>nw_events := shift_events (nw_events s), nw_event_count := NETWATCH_MAX_EVENTS - 1\<rparr> else s);
          event_id = nw_next_event_id s;
          e = \<lparr>nwe_id = event_id, nwe_protocol = protocol, nwe_direction = direction, nwe_length = len,
               nwe_src_ip = src_ip, nwe_dst_ip = dst_ip, nwe_src_port = src_port, nwe_dst_port = dst_port,
               nwe_valid = True, nwe_tick = ucast now\<rparr>;
          s = s\<lparr>nw_events := (nw_events s)[nw_event_count s := e], nw_next_event_id := event_id + 1,
                nw_event_count := nw_event_count s + 1\<rparr>;
          nic = \<lparr>pe_type = PROVENANCE_ENTITY_DRIVER, pe_id = NETWATCH_NIC_DRIVER_ID\<rparr>;
          pkt = \<lparr>pe_type = PROVENANCE_ENTITY_NETWORK, pe_id = event_id\<rparr>
      in snd (provenance_record now nic pkt PROVENANCE_RELATION_CREATED
           (if direction = NETWATCH_RX then PROVENANCE_REASON_DELIVERY else PROVENANCE_REASON_SYSTEM_ACTION) s))"

definition netwatch_init :: "'a netwatch_scheme \<Rightarrow> 'a netwatch_scheme" where
  "netwatch_init s = s\<lparr>nw_stats := \<lparr>rx_packets = 0, tx_packets = 0, rx_bytes = 0, tx_bytes = 0, arp_packets = 0,
     ipv4_packets = 0, ipv6_packets = 0, icmp_packets = 0, udp_packets = 0, tcp_packets = 0, link_up = False\<rparr>,
     nw_event_count := 0, nw_next_event_id := 1\<rparr>"

definition netwatch_packet_rx ::
  "u32 \<Rightarrow> netwatch_protocol_t \<Rightarrow> u32 \<Rightarrow> u32 \<Rightarrow> u32 \<Rightarrow> u16 \<Rightarrow> u16 \<Rightarrow> 'a netwatch_scheme \<Rightarrow> 'a netwatch_scheme" where
  "netwatch_packet_rx now protocol len src_ip dst_ip src_port dst_port s =
     (let st = nw_stats s;
          s = s\<lparr>nw_stats := st\<lparr>rx_packets := rx_packets st + 1, rx_bytes := rx_bytes st + len\<rparr>\<rparr>
      in record_event now NETWATCH_RX protocol len src_ip dst_ip src_port dst_port s)"

definition netwatch_packet_tx ::
  "u32 \<Rightarrow> netwatch_protocol_t \<Rightarrow> u32 \<Rightarrow> u32 \<Rightarrow> u32 \<Rightarrow> u16 \<Rightarrow> u16 \<Rightarrow> 'a netwatch_scheme \<Rightarrow> 'a netwatch_scheme" where
  "netwatch_packet_tx now protocol len src_ip dst_ip src_port dst_port s =
     (let st = nw_stats s;
          s = s\<lparr>nw_stats := st\<lparr>tx_packets := tx_packets st + 1, tx_bytes := tx_bytes st + len\<rparr>\<rparr>
      in record_event now NETWATCH_TX protocol len src_ip dst_ip src_port dst_port s)"

definition netwatch_set_link :: "bool \<Rightarrow> 'a netwatch_scheme \<Rightarrow> 'a netwatch_scheme" where
  "netwatch_set_link up s = s\<lparr>nw_stats := (nw_stats s)\<lparr>link_up := up\<rparr>\<rparr>"

definition netwatch_arp_event ::
  "u32 \<Rightarrow> netwatch_direction_t \<Rightarrow> u32 \<Rightarrow> u32 \<Rightarrow> 'a netwatch_scheme \<Rightarrow> 'a netwatch_scheme" where
  "netwatch_arp_event now direction src_ip dst_ip s =
     (let st = nw_stats s;
          s = s\<lparr>nw_stats := count_direction direction 0 (st\<lparr>arp_packets := arp_packets st + 1\<rparr>)\<rparr>
      in record_event now direction NETWATCH_PROTO_ARP 0 src_ip dst_ip 0 0 s)"

definition netwatch_ipv4_event ::
  "u32 \<Rightarrow> netwatch_direction_t \<Rightarrow> u32 \<Rightarrow> u32 \<Rightarrow> u32 \<Rightarrow> 'a netwatch_scheme \<Rightarrow> 'a netwatch_scheme" where
  "netwatch_ipv4_event now direction len src_ip dst_ip s =
     (let st = nw_stats s;
          s = s\<lparr>nw_stats := count_direction direction len (st\<lparr>ipv4_packets := ipv4_packets st + 1\<rparr>)\<rparr>
      in record_event now direction NETWATCH_PROTO_IPV4 len src_ip dst_ip 0 0 s)"

definition netwatch_ipv6_event ::
  "u32 \<Rightarrow> netwatch_direction_t \<Rightarrow> u32 \<Rightarrow> u32 \<Rightarrow> u32 \<Rightarrow> u16 \<Rightarrow> u16 \<Rightarrow> 'a netwatch_scheme \<Rightarrow> 'a netwatch_scheme" where
  "netwatch_ipv6_event now direction len src_ip dst_ip src_port dst_port s =
     (let st = nw_stats s;
          s = s\<lparr>nw_stats := count_direction direction len (st\<lparr>ipv6_packets := ipv6_packets st + 1\<rparr>)\<rparr>
      in record_event now direction NETWATCH_PROTO_IPV6 len src_ip dst_ip src_port dst_port s)"

definition netwatch_icmp_event ::
  "u32 \<Rightarrow> netwatch_direction_t \<Rightarrow> u32 \<Rightarrow> u32 \<Rightarrow> u32 \<Rightarrow> 'a netwatch_scheme \<Rightarrow> 'a netwatch_scheme" where
  "netwatch_icmp_event now direction len src_ip dst_ip s =
     (let st = nw_stats s;
          s = s\<lparr>nw_stats := count_direction direction len (st\<lparr>icmp_packets := icmp_packets st + 1\<rparr>)\<rparr>
      in record_event now direction NETWATCH_PROTO_ICMP len src_ip dst_ip 0 0 s)"

definition netwatch_udp_event ::
  "u32 \<Rightarrow> netwatch_direction_t \<Rightarrow> u32 \<Rightarrow> u32 \<Rightarrow> u32 \<Rightarrow> u16 \<Rightarrow> u16 \<Rightarrow> 'a netwatch_scheme \<Rightarrow> 'a netwatch_scheme" where
  "netwatch_udp_event now direction len src_ip dst_ip src_port dst_port s =
     (let st = nw_stats s;
          s = s\<lparr>nw_stats := count_direction direction len (st\<lparr>udp_packets := udp_packets st + 1\<rparr>)\<rparr>
      in record_event now direction NETWATCH_PROTO_UDP len src_ip dst_ip src_port dst_port s)"

definition netwatch_tcp_event ::
  "u32 \<Rightarrow> netwatch_direction_t \<Rightarrow> u32 \<Rightarrow> u32 \<Rightarrow> u32 \<Rightarrow> u16 \<Rightarrow> u16 \<Rightarrow> 'a netwatch_scheme \<Rightarrow> 'a netwatch_scheme" where
  "netwatch_tcp_event now direction len src_ip dst_ip src_port dst_port s =
     (let st = nw_stats s;
          s = s\<lparr>nw_stats := count_direction direction len (st\<lparr>tcp_packets := tcp_packets st + 1\<rparr>)\<rparr>
      in record_event now direction NETWATCH_PROTO_TCP len src_ip dst_ip src_port dst_port s)"

text \<open>A snapshot: the counters, the events with those past the count marked invalid, and the count.\<close>

definition netwatch_get_snapshot ::
  "'a netwatch_scheme \<Rightarrow> netwatch_event_t list \<Rightarrow> netwatch_stats_t \<times> netwatch_event_t list \<times> nat" where
  "netwatch_get_snapshot s buf =
     (nw_stats s,
      map (\<lambda>i. if i < nw_event_count s then nw_events s ! i else (buf ! i)\<lparr>nwe_valid := False\<rparr>) [0..<NETWATCH_MAX_EVENTS],
      nw_event_count s)"

definition netwatch_get_event :: "nat \<Rightarrow> 'a netwatch_scheme \<Rightarrow> netwatch_event_t option" where
  "netwatch_get_event index s = (if index \<ge> nw_event_count s then None else Some (nw_events s ! index))"

definition netwatch_clear_events :: "'a netwatch_scheme \<Rightarrow> 'a netwatch_scheme" where
  "netwatch_clear_events s =
     s\<lparr>nw_events := map (\<lambda>i. if i < nw_event_count s then (nw_events s ! i)\<lparr>nwe_valid := False\<rparr> else nw_events s ! i)
         [0..<length (nw_events s)],
       nw_event_count := 0\<rparr>"

section \<open>The log keeps the newest 128 events\<close>

definition nw_inv :: "'a netwatch_scheme \<Rightarrow> bool" where
  "nw_inv s \<longleftrightarrow> length (nw_events s) = 128 \<and> nw_event_count s \<le> 128"

definition nw_log :: "'a netwatch_scheme \<Rightarrow> netwatch_event_t list" where
  "nw_log s = take (nw_event_count s) (nw_events s)"

lemma shift_fold:
  "n \<le> length ev \<Longrightarrow> 0 < n \<Longrightarrow> fold (\<lambda>i ev. ev[i - 1 := ev ! i]) [1..<n] ev = take (n - 1) (tl ev) @ drop (n - 1) ev"
proof (induction n)
  case (Suc n)
  show ?case
  proof (cases n)
    case 0
    then show ?thesis by simp
  next
    case (Suc m)
    have IH: "fold (\<lambda>i ev. ev[i - 1 := ev ! i]) [1..<n] ev = take m (tl ev) @ drop m ev"
      using Suc.IH Suc.prems Suc by simp
    have len: "length (take m (tl ev)) = m" using Suc.prems Suc by simp
    have "drop m ev = ev ! m # ev ! n # drop (Suc n) ev"
      using Suc.prems Suc by (metis Cons_nth_drop_Suc Suc_lessD Suc_le_eq)
    then have "(take m (tl ev) @ drop m ev)[m := (take m (tl ev) @ drop m ev) ! n] = take m (tl ev) @ ev ! n # ev ! n # drop (Suc n) ev"
      using len Suc by (simp add: nth_append list_update_append)
    also have "\<dots> = take n (tl ev) @ drop n ev"
      using Suc.prems Suc by (simp add: take_Suc_conv_app_nth nth_tl Cons_nth_drop_Suc)
    finally show ?thesis using IH Suc by simp
  qed
qed simp

lemma shift_events_tl: "length ev = 128 \<Longrightarrow> take 127 (shift_events ev) = tl ev \<and> length (shift_events ev) = 128"
  using shift_fold [of 128 ev] unfolding shift_events_def NETWATCH_MAX_EVENTS_def by simp

lemma take_update_last: "n < length xs \<Longrightarrow> take (Suc n) (xs[n := e]) = take n xs @ [e]"
  by (simp add: take_Suc_conv_app_nth)

lemma provenance_record_more [simp]:
  "provenance.more (snd (provenance_record now a b rel why s)) = provenance.more s"
  by (simp add: provenance_record_def store_locked_def Let_def)

lemma provenance_record_netwatch [simp]:
  "nw_stats (snd (provenance_record now a b rel why s)) = nw_stats s"
  "nw_events (snd (provenance_record now a b rel why s)) = nw_events s"
  "nw_event_count (snd (provenance_record now a b rel why s)) = nw_event_count s"
  "nw_next_event_id (snd (provenance_record now a b rel why s)) = nw_next_event_id s"
  "netwatch.more (snd (provenance_record now a b rel why s)) = netwatch.more s"
  by (simp_all add: provenance_record_def store_locked_def Let_def)

lemma record_event_log:
  assumes "nw_inv s"
  shows "nw_inv (record_event now d p l sip dip sp dp s) \<and>
    nw_log (record_event now d p l sip dip sp dp s) =
      (if nw_event_count s = 128 then tl (nw_log s) else nw_log s) @
      [\<lparr>nwe_id = nw_next_event_id s, nwe_protocol = p, nwe_direction = d, nwe_length = l, nwe_src_ip = sip,
        nwe_dst_ip = dip, nwe_src_port = sp, nwe_dst_port = dp, nwe_valid = True, nwe_tick = ucast now\<rparr>]"
proof (cases "nw_event_count s = 128")
  case True
  then show ?thesis
    using assms shift_events_tl [of "nw_events s"] take_update_last [of 127 "shift_events (nw_events s)"]
    by (simp add: nw_inv_def nw_log_def record_event_def Let_def NETWATCH_MAX_EVENTS_def)
next
  case False
  then show ?thesis
    using assms by (simp add: nw_inv_def nw_log_def record_event_def Let_def NETWATCH_MAX_EVENTS_def take_update_last)
qed

end
