(* ===== verification/Wire.thy ===== *)
theory Wire
  imports Prelude
begin

text \<open>
  Fields of packets: big-endian reads and writes, and the ones'-complement checksum the IPv4, ICMP
  and UDP code computes with the same two loops. \<open>csum_words\<close> is the loop that adds the 16-bit
  words of a buffer, with an odd last byte padded; \<open>csum_fold\<close> is the loop that adds the carries
  back in, which terminates and reduces modulo 65535.
\<close>

section \<open>Big-endian fields\<close>

definition be16 :: "bytes \<Rightarrow> nat \<Rightarrow> u16" where
  "be16 p i = push_bit 8 (ucast (p ! i)) OR ucast (p ! (i + 1))"

definition be_ipv4 :: "bytes \<Rightarrow> nat \<Rightarrow> u32" where
  "be_ipv4 p i = push_bit 24 (ucast (p ! i)) OR push_bit 16 (ucast (p ! (i + 1))) OR
     push_bit 8 (ucast (p ! (i + 2))) OR ucast (p ! (i + 3))"

text \<open>The two bytes \<^verbatim>\<open>x >> 8\<close> and \<^verbatim>\<open>x & 0xFF\<close> of a 16-bit value.\<close>

definition put16 :: "u16 \<Rightarrow> bytes" where
  "put16 x = [ucast (drop_bit 8 x), ucast (x AND 0xFF)]"

lemma length_put16 [simp]: "length (put16 x) = 2"
  by (simp add: put16_def)

lemma put16_nth [simp]: "put16 x ! 0 = ucast (drop_bit 8 x)" "put16 x ! Suc 0 = ucast (x AND 0xFF)"
  by (simp_all add: put16_def)

lemma be16_put16: "be16 (pre @ put16 x @ post) (length pre) = x"
proof -
  have "x AND 0xFF = take_bit 8 x" by (simp add: take_bit_eq_mask mask_eq_exp_minus_1)
  then have "push_bit 8 (ucast (ucast (drop_bit 8 x) :: u8)) OR ucast (ucast (x AND 0xFF) :: u8) = x"
    by (intro bit_word_eqI) (auto simp: bit_simps)
  then show ?thesis by (simp add: be16_def nth_append put16_def)
qed

section \<open>Copies into buffers\<close>

text \<open>\<^verbatim>\<open>memcpy(dst, src, n)\<close>: the first \<open>n\<close> bytes of the buffer are replaced.\<close>

definition mem_copy :: "bytes \<Rightarrow> bytes \<Rightarrow> nat \<Rightarrow> bytes" where
  "mem_copy dst src n = take n src @ drop n dst"

lemma take_mem_copy [simp]: "n \<le> length src \<Longrightarrow> take n (mem_copy dst src n) = take n src"
  by (simp add: mem_copy_def)

lemma length_mem_copy [simp]: "n \<le> length src \<Longrightarrow> n \<le> length dst \<Longrightarrow> length (mem_copy dst src n) = length dst"
  by (simp add: mem_copy_def)

section \<open>Checksums\<close>

fun csum_words :: "bytes \<Rightarrow> u32" where
  "csum_words [] = 0"
| "csum_words [a] = ucast (push_bit 8 (ucast a) :: u16)"
| "csum_words (a # b # rest) = ucast (push_bit 8 (ucast a) OR ucast b :: u16) + csum_words rest"

lemma unat_word_parts: "unat (drop_bit 16 (s :: u32)) = unat s div 65536" "unat (s AND 0xFFFF) = unat s mod 65536"
proof -
  show "unat (drop_bit 16 s) = unat s div 65536" by (simp add: drop_bit_eq_div unat_div)
  have "s AND 0xFFFF = take_bit 16 s" by (simp add: take_bit_eq_mask mask_eq_exp_minus_1)
  then show "unat (s AND 0xFFFF) = unat s mod 65536" by (simp add: take_bit_eq_mod unat_mod)
qed

lemma csum_step_nat: "unat ((s AND 0xFFFF) + drop_bit 16 (s :: u32)) = unat s mod 65536 + unat s div 65536"
proof -
  have "unat s < 2 ^ 32" using unsigned_less [of s] by simp
  then have "unat s div 65536 < 65536" by (simp add: less_mult_imp_div_less)
  then show ?thesis by (subst unat_add_no_wrap) (simp_all add: unat_word_parts)
qed

function csum_fold :: "u32 \<Rightarrow> u32" where
  "csum_fold s = (if drop_bit 16 s \<noteq> 0 then csum_fold ((s AND 0xFFFF) + drop_bit 16 s) else s)"
  by pat_completeness auto
termination
proof (relation "measure unat", simp)
  fix s :: u32
  assume "drop_bit 16 s \<noteq> 0"
  then have "unat s div 65536 \<noteq> 0" by (metis unat_word_parts(1) unat_eq_zero)
  moreover have "unat s = unat s mod 65536 + 65536 * (unat s div 65536)" by simp
  ultimately have "unat s mod 65536 + unat s div 65536 < unat s" by linarith
  then show "((s AND 0xFFFF) + drop_bit 16 s, s) \<in> measure unat" by (simp add: csum_step_nat)
qed

declare csum_fold.simps [simp del]

text \<open>The value modulo 65535, with 65535 rather than 0 for a sum that is not 0.\<close>

definition ones_mod :: "nat \<Rightarrow> nat" where
  "ones_mod n = (if n = 0 then 0 else if n mod 65535 = 0 then 65535 else n mod 65535)"

lemma ones_mod_small: "n < 65536 \<Longrightarrow> ones_mod n = n"
  by (cases "n = 65535") (auto simp: ones_mod_def)

lemma ones_mod_step: "ones_mod (n mod 65536 + n div 65536) = ones_mod n"
proof -
  have "n = n mod 65536 + n div 65536 + 65535 * (n div 65536)" by simp
  then have "n mod 65535 = (n mod 65536 + n div 65536) mod 65535" by (metis mod_mult_self2)
  moreover have "n mod 65536 + n div 65536 = 0 \<longleftrightarrow> n = 0" by (metis add_eq_0_iff_both_eq_0 div_0 mod_0 mod_eq_self_iff_div_eq_0)
  ultimately show ?thesis by (simp add: ones_mod_def)
qed

lemma csum_fold_ones: "unat (csum_fold s) = ones_mod (unat s)"
proof (induction s rule: csum_fold.induct)
  case (1 s)
  show ?case
  proof (cases "drop_bit 16 s = 0")
    case True
    then have "unat s div 65536 = 0" by (metis unat_word_parts(1) unat_0)
    then show ?thesis using True by (simp add: csum_fold.simps [of s] ones_mod_small)
  next
    case False
    then show ?thesis using 1 by (simp add: csum_fold.simps [of s] csum_step_nat ones_mod_step)
  qed
qed

lemma ones_mod_complement: "ones_mod (n + (65535 - ones_mod n)) = 65535"
proof (cases "n mod 65535 = 0")
  case True
  then show ?thesis by (cases "n = 0") (simp_all add: ones_mod_def)
next
  case False
  have "(n + (65535 - n mod 65535)) mod 65535 = (n mod 65535 + (65535 - n mod 65535)) mod 65535"
    by (rule mod_add_left_eq [symmetric])
  also have "n mod 65535 + (65535 - n mod 65535) = 65535" by (simp add: le_add_diff_inverse)
  finally have "(n + (65535 - n mod 65535)) mod 65535 = 0" by simp
  moreover have "n \<noteq> 0" using False by (cases n) simp_all
  ultimately show ?thesis using False by (simp add: ones_mod_def del: mod_add_self2)
qed

section \<open>Sums of words\<close>

definition word_nat :: "u8 \<Rightarrow> u8 \<Rightarrow> nat" where
  "word_nat a b = 256 * unat a + unat b"

lemma unat_be_word: "unat (push_bit 8 (ucast a) OR ucast b :: u16) = word_nat a (b :: u8)"
proof -
  have lt: "unat a < 2 ^ 8" "unat b < 2 ^ 8" using unsigned_less [of a] unsigned_less [of b] by simp_all
  have "(push_bit 8 (ucast a) OR ucast b :: u16) = push_bit 8 (ucast a) + ucast b"
    by (subst disjunctive_add) (auto simp: bit_simps dest: bit_imp_le_length)
  also have "unat \<dots> = 256 * unat a + unat b"
    using lt by (simp add: push_bit_eq_mult unat_word_ariths)
  finally show ?thesis by (simp add: word_nat_def)
qed

fun words_nat :: "bytes \<Rightarrow> nat" where
  "words_nat [] = 0"
| "words_nat [a] = word_nat a 0"
| "words_nat (a # b # rest) = word_nat a b + words_nat rest"

lemma word_nat_le: "word_nat a b \<le> 65535"
proof -
  have "unat a < 2 ^ 8" "unat b < 2 ^ 8" using unsigned_less [of a] unsigned_less [of b] by simp_all
  then show ?thesis by (simp add: word_nat_def)
qed

lemma words_nat_bound: "words_nat xs \<le> 65535 * length xs"
proof (induction xs rule: words_nat.induct)
  case (2 a)
  then show ?case using word_nat_le [of a 0] by simp
next
  case (3 a b rest)
  then show ?case using word_nat_le [of a b] by simp
qed simp

lemma csum_words_nat: "length xs \<le> 65535 \<Longrightarrow> unat (csum_words xs) = words_nat xs"
proof (induction xs rule: csum_words.induct)
  case (2 a)
  then show ?case using unat_be_word [of a 0] by simp
next
  case (3 a b rest)
  have "word_nat a b + words_nat rest < 2 ^ 32"
    using word_nat_le [of a b] words_nat_bound [of rest] "3.prems" by simp
  then show ?case using 3 by (simp add: unat_add_no_wrap unat_be_word)
qed simp

lemma words_nat_append: "even (length xs) \<Longrightarrow> words_nat (xs @ ys) = words_nat xs + words_nat ys"
  by (induction xs rule: words_nat.induct) auto

lemma words_nat_put16: "words_nat (put16 x) = unat x"
proof -
  have "be16 (put16 x) 0 = x" using be16_put16 [of "[]" x "[]"] by simp
  then have "unat x = word_nat (put16 x ! 0) (put16 x ! Suc 0)"
    using unat_be_word [of "put16 x ! 0" "put16 x ! Suc 0"] by (simp add: be16_def flip: One_nat_def)
  then show ?thesis by (simp add: put16_def)
qed

lemma words_nat_zeros [simp]: "words_nat (put16 0) = 0"
  by (simp add: words_nat_put16)

end
