(* ===== verification/NetObserve.thy ===== *)
theory NetObserve
  imports NetWatch Wire
begin

text \<open>
  The capture queue and packet parser of \<^verbatim>\<open>Networking/NetWatch/net_observe.c\<close>. Interrupt handlers
  queue the first 80 bytes of each frame; a later drain parses up to 16 of them and turns each into
  an event of the log, a count of malformed frames or a count of unknown ones.
\<close>

section \<open>Model\<close>

definition NETOBSERVE_QUEUE_SLOTS :: nat where "NETOBSERVE_QUEUE_SLOTS = 64"
definition NETOBSERVE_CAPTURE_BYTES :: u32 where "NETOBSERVE_CAPTURE_BYTES = 80"
definition NETOBSERVE_DRAIN_MAX :: nat where "NETOBSERVE_DRAIN_MAX = 16"
definition ETH_HEADER :: u32 where "ETH_HEADER = 14"
definition ETHERTYPE_IPV4 :: u16 where "ETHERTYPE_IPV4 = 0x0800"
definition ETHERTYPE_ARP :: u16 where "ETHERTYPE_ARP = 0x0806"
definition ETHERTYPE_IPV6 :: u16 where "ETHERTYPE_IPV6 = 0x86DD"

record capture_t =
  cap_direction :: netwatch_direction_t
  cap_length :: u32
  cap_caplen :: u32
  cap_data :: bytes

record netobserve_stats_t =
  nos_captured :: u32
  nos_dropped :: u32
  nos_recorded :: u32
  nos_malformed :: u32
  nos_unknown :: u32
  nos_last_malformed_reason :: "string option"

record netobserve = netwatch +
  no_queue :: "capture_t list"
  no_head :: nat
  no_tail :: nat
  no_count :: nat
  no_stats :: netobserve_stats_t

definition netobserve_init :: "'a netobserve_scheme \<Rightarrow> 'a netobserve_scheme" where
  "netobserve_init s = s\<lparr>no_head := 0, no_tail := 0, no_count := 0,
     no_stats := \<lparr>nos_captured = 0, nos_dropped = 0, nos_recorded = 0, nos_malformed = 0, nos_unknown = 0,
       nos_last_malformed_reason = None\<rparr>\<rparr>"

text \<open>A capture copies the bytes over the slot's old ones, which stay past the copied length.\<close>

definition netobserve_capture ::
  "netwatch_direction_t \<Rightarrow> bytes \<Rightarrow> u32 \<Rightarrow> 'a netobserve_scheme \<Rightarrow> 'a netobserve_scheme" where
  "netobserve_capture direction frame len s =
     (if len = 0 then s
      else let st = no_stats s; s = s\<lparr>no_stats := st\<lparr>nos_captured := nos_captured st + 1\<rparr>\<rparr>
           in if no_count s \<ge> NETOBSERVE_QUEUE_SLOTS
              then s\<lparr>no_stats := (no_stats s)\<lparr>nos_dropped := nos_dropped (no_stats s) + 1\<rparr>\<rparr>
              else let n = (if len < NETOBSERVE_CAPTURE_BYTES then len else NETOBSERVE_CAPTURE_BYTES);
                       slot = no_queue s ! no_head s;
                       slot = \<lparr>cap_direction = direction, cap_length = len, cap_caplen = n,
                               cap_data = mem_copy (cap_data slot) frame (unat n)\<rparr>
                   in s\<lparr>no_queue := (no_queue s)[no_head s := slot],
                        no_head := (no_head s + 1) mod NETOBSERVE_QUEUE_SLOTS, no_count := no_count s + 1\<rparr>)"

definition hash_ipv6 :: "bytes \<Rightarrow> nat \<Rightarrow> u32" where
  "hash_ipv6 p i = fold (\<lambda>k h. (h XOR ucast (p ! (i + k))) * 16777619) [0..<16] 2166136261"

definition reject :: "string \<Rightarrow> 'a netobserve_scheme \<Rightarrow> 'a netobserve_scheme" where
  "reject reason s = s\<lparr>no_stats := (no_stats s)\<lparr>nos_malformed := nos_malformed (no_stats s) + 1,
     nos_last_malformed_reason := Some reason\<rparr>\<rparr>"

definition recorded :: "'a netobserve_scheme \<Rightarrow> 'a netobserve_scheme" where
  "recorded s = s\<lparr>no_stats := (no_stats s)\<lparr>nos_recorded := nos_recorded (no_stats s) + 1\<rparr>\<rparr>"

definition observe_arp :: "u32 \<Rightarrow> netwatch_direction_t \<Rightarrow> capture_t \<Rightarrow> 'a netobserve_scheme \<Rightarrow> 'a netobserve_scheme" where
  "observe_arp now dir c s =
     (let d = cap_data c in
      if cap_length c < ETH_HEADER + 28 \<or> cap_caplen c < ETH_HEADER + 28
      then reject ''arp: frame shorter than an ARP packet'' s
      else if be16 d 14 \<noteq> 1 \<or> be16 d 16 \<noteq> ETHERTYPE_IPV4 \<or> d ! 18 \<noteq> 6 \<or> d ! 19 \<noteq> 4
      then reject ''arp: not Ethernet/IPv4 ARP'' s
      else recorded (netwatch_arp_event now dir (be_ipv4 d 28) (be_ipv4 d 38) s))"

definition observe_ipv4 :: "u32 \<Rightarrow> netwatch_direction_t \<Rightarrow> capture_t \<Rightarrow> 'a netobserve_scheme \<Rightarrow> 'a netobserve_scheme" where
  "observe_ipv4 now dir c s =
     (let d = cap_data c in
      if cap_length c < ETH_HEADER + 20 \<or> cap_caplen c < ETH_HEADER + 20
      then reject ''ipv4: frame shorter than a minimal IPv4 header'' s
      else if drop_bit 4 (d ! 14) \<noteq> 4 then reject ''ipv4: version field is not 4'' s
      else
        let ihl = ucast (d ! 14 AND 0x0F) * 4 in
        if ihl < 20 then reject ''ipv4: header length field below 20 bytes'' s
        else if ETH_HEADER + ihl > cap_length c \<or> ETH_HEADER + ihl > cap_caplen c
        then reject ''ipv4: header length runs past the frame'' s
        else
          let total = ucast (be16 d 16) in
          if total < ihl \<or> ETH_HEADER + total > cap_length c
          then reject ''ipv4: total length inconsistent with frame'' s
          else
            let proto = d ! 23; src = be_ipv4 d 26; dst = be_ipv4 d 30;
                fragment_offset = be16 d 20 AND 0x1FFF; l4 = ETH_HEADER + ihl; l4_len = total - ihl
            in if proto = 6 \<or> proto = 17
               then
                 (if fragment_offset \<noteq> 0 then recorded (netwatch_ipv4_event now dir (cap_length c) src dst s)
                  else if l4_len < 4 \<or> l4 + 4 > cap_caplen c then reject ''ipv4: TCP/UDP header truncated'' s
                  else
                    let sport = be16 d (unat l4); dport = be16 d (unat l4 + 2)
                    in if proto = 6 then recorded (netwatch_tcp_event now dir (cap_length c) src dst sport dport s)
                       else recorded (netwatch_udp_event now dir (cap_length c) src dst sport dport s))
               else if proto = 1 then recorded (netwatch_icmp_event now dir (cap_length c) src dst s)
               else recorded (netwatch_ipv4_event now dir (cap_length c) src dst s))"

definition observe_ipv6 :: "u32 \<Rightarrow> netwatch_direction_t \<Rightarrow> capture_t \<Rightarrow> 'a netobserve_scheme \<Rightarrow> 'a netobserve_scheme" where
  "observe_ipv6 now dir c s =
     (let d = cap_data c in
      if cap_length c < ETH_HEADER + 40 \<or> cap_caplen c < ETH_HEADER + 40
      then reject ''ipv6: frame shorter than an IPv6 header'' s
      else if drop_bit 4 (d ! 14) \<noteq> 6 then reject ''ipv6: version field is not 6'' s
      else
        let payload = ucast (be16 d 18) in
        if ETH_HEADER + 40 + payload > cap_length c then reject ''ipv6: payload length runs past the frame'' s
        else
          let next_h = d ! 20; src = hash_ipv6 d 22;
              dst = (if d ! 38 = 0xFF then NETWATCH_GROUP_DST else hash_ipv6 d 38);
              ports = (next_h = 6 \<or> next_h = 17) \<and> payload \<ge> 4 \<and> ETH_HEADER + 40 + 4 \<le> cap_caplen c;
              sport = (if ports then be16 d 54 else 0);
              dport = (if ports then be16 d 56 else 0)
          in recorded (netwatch_ipv6_event now dir (cap_length c) src dst sport dport s))"

definition observe :: "u32 \<Rightarrow> capture_t \<Rightarrow> 'a netobserve_scheme \<Rightarrow> 'a netobserve_scheme" where
  "observe now c s =
     (if cap_length c < ETH_HEADER \<or> cap_caplen c < ETH_HEADER
      then reject ''ethernet: frame shorter than an Ethernet header'' s
      else
        let ethertype = be16 (cap_data c) 12; dir = cap_direction c
        in if ethertype = ETHERTYPE_ARP then observe_arp now dir c s
           else if ethertype = ETHERTYPE_IPV4 then observe_ipv4 now dir c s
           else if ethertype = ETHERTYPE_IPV6 then observe_ipv6 now dir c s
           else s\<lparr>no_stats := (no_stats s)\<lparr>nos_unknown := nos_unknown (no_stats s) + 1\<rparr>\<rparr>)"

text \<open>The drain loop with the number of passes left; the second component counts the frames handled.\<close>

fun drain_loop :: "u32 \<Rightarrow> nat \<Rightarrow> 'a netobserve_scheme \<Rightarrow> nat \<times> 'a netobserve_scheme" where
  "drain_loop now 0 s = (0, s)"
| "drain_loop now (Suc n) s =
     (if no_count s = 0 then (0, s)
      else
        let s = observe now (no_queue s ! no_tail s) s;
            s = s\<lparr>no_tail := (no_tail s + 1) mod NETOBSERVE_QUEUE_SLOTS, no_count := no_count s - 1\<rparr>;
            (handled, s) = drain_loop now n s
        in (handled + 1, s))"

definition netobserve_drain :: "u32 \<Rightarrow> 'a netobserve_scheme \<Rightarrow> nat \<times> 'a netobserve_scheme" where
  "netobserve_drain now s = drain_loop now NETOBSERVE_DRAIN_MAX s"

definition netobserve_get_stats :: "'a netobserve_scheme \<Rightarrow> netobserve_stats_t" where
  "netobserve_get_stats s = no_stats s"

section \<open>Frame conservation\<close>

text \<open>The frames accounted for: dropped, recorded, malformed and unknown ones.\<close>

definition nos_settled :: "netobserve_stats_t \<Rightarrow> u32" where
  "nos_settled st = nos_dropped st + nos_recorded st + nos_malformed st + nos_unknown st"

definition no_inv :: "'a netobserve_scheme \<Rightarrow> bool" where
  "no_inv s \<longleftrightarrow> no_count s \<le> 64 \<and> nos_captured (no_stats s) = nos_settled (no_stats s) + of_nat (no_count s)"

lemma record_event_netobserve [simp]:
  "no_queue (record_event now d p l a b sp dp s) = no_queue s"
  "no_head (record_event now d p l a b sp dp s) = no_head s"
  "no_tail (record_event now d p l a b sp dp s) = no_tail s"
  "no_count (record_event now d p l a b sp dp s) = no_count s"
  "no_stats (record_event now d p l a b sp dp s) = no_stats s"
  by (simp_all add: record_event_def Let_def provenance_record_def store_locked_def)

lemmas netwatch_event_defs = netwatch_arp_event_def netwatch_ipv4_event_def netwatch_ipv6_event_def
  netwatch_icmp_event_def netwatch_udp_event_def netwatch_tcp_event_def

text \<open>Every frame that is observed is settled in exactly one way, and the queue does not change.\<close>

definition settles :: "'a netobserve_scheme \<Rightarrow> 'a netobserve_scheme \<Rightarrow> bool" where
  "settles s s' \<longleftrightarrow> no_count s' = no_count s \<and> no_head s' = no_head s \<and> no_tail s' = no_tail s \<and> no_queue s' = no_queue s \<and>
     nos_captured (no_stats s') = nos_captured (no_stats s) \<and> nos_settled (no_stats s') = nos_settled (no_stats s) + 1"

lemma settles_reject [simp]: "settles s (reject r s)"
  by (simp add: settles_def reject_def nos_settled_def)

lemma settles_recorded [simp]:
  "settles s (recorded (netwatch_arp_event now d a b s))" "settles s (recorded (netwatch_ipv4_event now d l a b s))"
  "settles s (recorded (netwatch_ipv6_event now d l a b sp dp s))" "settles s (recorded (netwatch_icmp_event now d l a b s))"
  "settles s (recorded (netwatch_udp_event now d l a b sp dp s))" "settles s (recorded (netwatch_tcp_event now d l a b sp dp s))"
  by (simp_all add: settles_def recorded_def nos_settled_def netwatch_event_defs Let_def)

lemma observe_settles: "settles s (observe now c s)"
proof -
  have "settles s (observe_arp now d c s)" "settles s (observe_ipv4 now d c s)" "settles s (observe_ipv6 now d c s)" for d
    by (simp_all add: observe_arp_def observe_ipv4_def observe_ipv6_def Let_def)
  moreover have "settles s (s\<lparr>no_stats := (no_stats s)\<lparr>nos_unknown := nos_unknown (no_stats s) + 1\<rparr>\<rparr>)"
    by (simp add: settles_def nos_settled_def)
  ultimately show ?thesis by (simp add: observe_def Let_def)
qed

lemma no_inv_capture: "no_inv s \<Longrightarrow> no_inv (netobserve_capture d f l s)"
  by (auto simp: no_inv_def netobserve_capture_def Let_def nos_settled_def NETOBSERVE_QUEUE_SLOTS_def)

lemma no_inv_drain: "no_inv s \<Longrightarrow> no_inv (snd (drain_loop now n s))"
proof (induction n arbitrary: s)
  case (Suc n)
  show ?case
  proof (cases "no_count s")
    case 0
    then show ?thesis using Suc.prems by simp
  next
    case (Suc k)
    define s1 where "s1 = observe now (no_queue s ! no_tail s) s"
    have "settles s s1" unfolding s1_def by (rule observe_settles)
    then have "no_inv (s1\<lparr>no_tail := (no_tail s1 + 1) mod NETOBSERVE_QUEUE_SLOTS, no_count := no_count s1 - 1\<rparr>)"
      using Suc.prems Suc by (simp add: no_inv_def settles_def)
    from Suc.IH [OF this] show ?thesis using Suc by (simp add: Let_def case_prod_beta flip: s1_def)
  qed
qed simp

text \<open>One step of the observation: an interrupt captures a frame, or the main loop drains the queue.\<close>

datatype observe_op = Capture netwatch_direction_t bytes u32 | Drain u32

fun observe_step :: "observe_op \<Rightarrow> 'a netobserve_scheme \<Rightarrow> 'a netobserve_scheme" where
  "observe_step (Capture d f l) s = netobserve_capture d f l s"
| "observe_step (Drain now) s = snd (netobserve_drain now s)"

lemma no_inv_steps: "no_inv s \<Longrightarrow> no_inv (fold observe_step ops s)"
proof (induction ops arbitrary: s)
  case (Cons op ops)
  then have "no_inv (observe_step op s)" by (cases op) (simp_all add: no_inv_capture no_inv_drain netobserve_drain_def)
  then show ?case using Cons.IH by simp
qed simp

section \<open>The parser reads captured bytes only\<close>

text \<open>Two captures agree when they have the same header and the same captured bytes.\<close>

definition same_capture :: "capture_t \<Rightarrow> capture_t \<Rightarrow> bool" where
  "same_capture c c' \<longleftrightarrow> cap_direction c' = cap_direction c \<and> cap_length c' = cap_length c \<and> cap_caplen c' = cap_caplen c \<and>
     (\<forall>i<unat (cap_caplen c). cap_data c' ! i = cap_data c ! i)"

lemma same_byte: "same_capture c c' \<Longrightarrow> i < unat (cap_caplen c) \<Longrightarrow> cap_data c' ! i = cap_data c ! i"
  by (simp add: same_capture_def)

lemma same_be16: "same_capture c c' \<Longrightarrow> Suc i < unat (cap_caplen c) \<Longrightarrow> be16 (cap_data c') i = be16 (cap_data c) i"
  by (simp add: be16_def same_byte)

lemma same_be_ipv4: "same_capture c c' \<Longrightarrow> i + 3 < unat (cap_caplen c) \<Longrightarrow> be_ipv4 (cap_data c') i = be_ipv4 (cap_data c) i"
  by (simp add: be_ipv4_def same_byte)

lemma same_hash:
  assumes "same_capture c c'" "i + 15 < unat (cap_caplen c)"
  shows "hash_ipv6 (cap_data c') i = hash_ipv6 (cap_data c) i"
  unfolding hash_ipv6_def using assms by (intro fold_cong) (simp_all add: same_byte)

lemma same_header:
  "same_capture c c' \<Longrightarrow> cap_direction c' = cap_direction c" "same_capture c c' \<Longrightarrow> cap_length c' = cap_length c"
  "same_capture c c' \<Longrightarrow> cap_caplen c' = cap_caplen c"
  by (simp_all add: same_capture_def)

lemma observe_arp_same:
  assumes "same_capture c c'"
  shows "observe_arp now d c' s = observe_arp now d c s"
proof (cases "cap_caplen c < ETH_HEADER + 28")
  case True
  then show ?thesis using assms by (simp add: observe_arp_def same_header Let_def)
next
  case False
  then have "42 \<le> unat (cap_caplen c)" by (simp add: ETH_HEADER_def word_less_nat_alt)
  then show ?thesis using assms by (simp add: observe_arp_def same_header same_byte same_be16 same_be_ipv4 Let_def)
qed

lemma observe_ipv6_same:
  assumes "same_capture c c'"
  shows "observe_ipv6 now d c' s = observe_ipv6 now d c s"
proof (cases "cap_caplen c < ETH_HEADER + 40")
  case True
  then show ?thesis using assms by (simp add: observe_ipv6_def same_header Let_def)
next
  case False
  then have len: "54 \<le> unat (cap_caplen c)" by (simp add: ETH_HEADER_def word_less_nat_alt)
  have E: "cap_data c' ! 14 = cap_data c ! 14" "cap_data c' ! 20 = cap_data c ! 20" "cap_data c' ! 38 = cap_data c ! 38"
    "be16 (cap_data c') 18 = be16 (cap_data c) 18" "hash_ipv6 (cap_data c') 22 = hash_ipv6 (cap_data c) 22"
    "hash_ipv6 (cap_data c') 38 = hash_ipv6 (cap_data c) 38"
    using assms len by (simp_all add: same_byte same_be16 same_hash)
  have ports: "be16 (cap_data c') 54 = be16 (cap_data c) 54 \<and> be16 (cap_data c') 56 = be16 (cap_data c) 56"
    if "ETH_HEADER + 40 + 4 \<le> cap_caplen c"
    using that assms by (simp add: same_be16 ETH_HEADER_def word_le_nat_alt)
  show ?thesis
  proof (cases "ETH_HEADER + 40 + 4 \<le> cap_caplen c")
    case True
    from ports [OF this] have P: "be16 (cap_data c') 54 = be16 (cap_data c) 54" "be16 (cap_data c') 56 = be16 (cap_data c) 56"
      by simp_all
    show ?thesis unfolding observe_ipv6_def Let_def same_header [OF assms] E P ..
  next
    case False
    then have F: "(ETH_HEADER + 40 + 4 \<le> cap_caplen c) = False" by simp
    show ?thesis unfolding observe_ipv6_def Let_def same_header [OF assms] E F simp_thms if_False ..
  qed
qed

lemma ihl_small: "unat (ucast (b AND 0x0F :: u8) * 4 :: u32) \<le> 60"
proof -
  have "b AND 0x0F = take_bit 4 b" by (simp add: take_bit_eq_mask mask_eq_exp_minus_1)
  then have "unat (b AND 0x0F) < 16" by (simp add: take_bit_eq_mod unat_mod)
  then show ?thesis by (simp add: unat_word_ariths)
qed

lemma observe_ipv4_same:
  assumes "same_capture c c'"
  shows "observe_ipv4 now d c' s = observe_ipv4 now d c s"
proof (cases "cap_caplen c < ETH_HEADER + 20")
  case True
  then show ?thesis using assms by (simp add: observe_ipv4_def same_header Let_def)
next
  case False
  then have len: "34 \<le> unat (cap_caplen c)" by (simp add: ETH_HEADER_def word_less_nat_alt)
  define ihl :: u32 where "ihl = ucast (cap_data c ! 14 AND 0x0F) * 4"
  have ihl: "unat ihl \<le> 60" unfolding ihl_def by (rule ihl_small)
  have E: "cap_data c' ! 14 = cap_data c ! 14" "cap_data c' ! 23 = cap_data c ! 23" "be16 (cap_data c') 16 = be16 (cap_data c) 16"
    "be16 (cap_data c') 20 = be16 (cap_data c) 20" "be_ipv4 (cap_data c') 26 = be_ipv4 (cap_data c) 26"
    "be_ipv4 (cap_data c') 30 = be_ipv4 (cap_data c) 30"
    using assms len by (simp_all add: same_byte same_be16 same_be_ipv4)
  show ?thesis
  proof (cases "ETH_HEADER + ihl + 4 > cap_caplen c")
    case True
    then have F: "(ETH_HEADER + ucast (cap_data c ! 14 AND 0x0F) * 4 + 4 > cap_caplen c) = True" by (simp add: ihl_def)
    show ?thesis unfolding observe_ipv4_def Let_def same_header [OF assms] E F simp_thms if_True ..
  next
    case False
    have l4: "unat (ETH_HEADER + ihl) = 14 + unat ihl" "unat (ETH_HEADER + ihl + 4) = 18 + unat ihl"
      using ihl by (simp_all add: ETH_HEADER_def unat_word_ariths)
    have "18 + unat ihl \<le> unat (cap_caplen c)" using False l4(2) by (simp add: word_less_nat_alt)
    then have P: "be16 (cap_data c') (unat (ETH_HEADER + ihl)) = be16 (cap_data c) (unat (ETH_HEADER + ihl))"
      "be16 (cap_data c') (unat (ETH_HEADER + ihl) + 2) = be16 (cap_data c) (unat (ETH_HEADER + ihl) + 2)"
      using assms by (simp_all add: same_be16 l4(1))
    show ?thesis unfolding observe_ipv4_def Let_def same_header [OF assms] E P [unfolded ihl_def] ..
  qed
qed

section \<open>Properties\<close>

text \<open>C24. Whatever is captured and drained, every frame handed to the capture is accounted for: it is in
  the queue or was dropped, recorded, malformed or unknown (counters modulo their width).\<close>

theorem netobserve_conservation:
  "let s = fold observe_step ops (netobserve_init s0); st = no_stats s
   in nos_captured st = nos_dropped st + nos_recorded st + nos_malformed st + nos_unknown st + of_nat (no_count s) \<and>
      no_count s \<le> 64"
proof -
  have "no_inv (netobserve_init s0)" by (simp add: no_inv_def netobserve_init_def nos_settled_def)
  from no_inv_steps [OF this, of ops] show ?thesis by (simp add: no_inv_def nos_settled_def Let_def)
qed

text \<open>C25. What the parser does with a frame depends on its captured bytes only: no field is read past the
  capture length, whatever the length fields of the frame claim.\<close>

theorem observe_reads_captured:
  assumes "cap_direction c' = cap_direction c" "cap_length c' = cap_length c" "cap_caplen c' = cap_caplen c"
    "\<forall>i<unat (cap_caplen c). cap_data c' ! i = cap_data c ! i"
  shows "observe now c' s = observe now c s"
proof -
  have same: "same_capture c c'" using assms by (simp add: same_capture_def)
  show ?thesis
  proof (cases "cap_caplen c < ETH_HEADER")
    case True
    then show ?thesis using assms by (simp add: observe_def)
  next
    case False
    then have "14 \<le> unat (cap_caplen c)" by (simp add: ETH_HEADER_def word_less_nat_alt)
    then show ?thesis
      using same by (simp add: observe_def same_header same_be16 observe_arp_same observe_ipv4_same observe_ipv6_same Let_def)
  qed
qed

theorem observe_reads_captured_witness:
  "let c = \<lparr>cap_direction = NETWATCH_RX, cap_length = 64, cap_caplen = 20, cap_data = replicate 80 0\<rparr>;
       c' = c\<lparr>cap_data := replicate 20 0 @ replicate 60 1\<rparr>
   in \<forall>now (s :: netobserve). observe now c' s = observe now c s"
  unfolding Let_def by (intro allI observe_reads_captured) (simp_all add: nth_append)

end
