(* ===== verification/FrontDesk.thy ===== *)
theory FrontDesk
  imports NetObserve
begin

text \<open>
  The transmit side of the network card driver, \<^verbatim>\<open>Networking/FrontDesk/frontdest.c\<close>, with its
  e1000 back end \<^verbatim>\<open>Drivers/Wifi/e1000/e1000.c\<close>: a queue of 16 frames in front of four transmit
  descriptors (RTL8139), or a ring of 16 descriptors (e1000).

  The registers the driver reads are fields of the state (\<open>fd_tsd\<close>, the status byte of an e1000
  descriptor): the driver's writes are part of the model and the card changes them between
  operations. \<open>fd_out\<close> is the output of the model: the frames handed to the card, in order. The
  interrupt locks have no counterpart, an operation is one step.
\<close>

section \<open>Model\<close>

definition TX_FRAME_MAX :: u16 where "TX_FRAME_MAX = 1792"
definition TX_QUEUE_LEN :: nat where "TX_QUEUE_LEN = 16"
definition TSD_FINISHED_BITS :: u32 where "TSD_FINISHED_BITS = 0x2000 OR 0x4000 OR 0x8000 OR 0x40000000"
definition TSD_TOK :: u32 where "TSD_TOK = 0x8000"
definition RING_LEN :: nat where "RING_LEN = 16"
definition BUF_LEN :: u16 where "BUF_LEN = 2048"
definition DESC_DD :: u8 where "DESC_DD = 0x01"

record frontdesk = netobserve +
  fd_present :: bool
  fd_mac :: bytes
  fd_packets_received :: u32
  fd_packets_send :: u32
  fd_rx_errors :: u32
  fd_tx_drops :: u32
  fd_backend_e1000 :: bool
  fd_tx_next_desc :: nat
  fd_tx_pending :: nat
  fd_tx_busy :: "bool list"
  fd_tx_buf :: "bytes list"
  fd_tx_len :: "u16 list"
  fd_txq :: "bytes list"
  fd_txq_len :: "u16 list"
  fd_txq_head :: nat
  fd_txq_count :: nat
  fd_tsd :: "u32 list"
  e1_tx_status :: "u8 list"
  e1_tx_buf :: "bytes list"
  e1_tx_length :: "u16 list"
  e1_tx_tail :: nat
  e1_tx_clean :: nat
  e1_tx_inflight :: nat
  fd_out :: "bytes list"

text \<open>The state after a successful bring-up of the RTL8139 card: nothing queued, nothing sent.\<close>

definition frontdesk_up :: frontdesk where
  "frontdesk_up = \<lparr>pv_records = pv_records (provenance_init pv_boot), pv_record_count = 0, pv_next_id = 1, pv_dropped = 0,
     nw_stats = \<lparr>rx_packets = 0, tx_packets = 0, rx_bytes = 0, tx_bytes = 0, arp_packets = 0, ipv4_packets = 0, ipv6_packets = 0,
       icmp_packets = 0, udp_packets = 0, tcp_packets = 0, link_up = True\<rparr>,
     nw_events = replicate NETWATCH_MAX_EVENTS \<lparr>nwe_id = 0, nwe_protocol = NETWATCH_PROTO_UNKNOWN, nwe_direction = NETWATCH_RX,
       nwe_length = 0, nwe_src_ip = 0, nwe_dst_ip = 0, nwe_src_port = 0, nwe_dst_port = 0, nwe_valid = False, nwe_tick = 0\<rparr>,
     nw_event_count = 0, nw_next_event_id = 1,
     no_queue = replicate NETOBSERVE_QUEUE_SLOTS \<lparr>cap_direction = NETWATCH_RX, cap_length = 0, cap_caplen = 0, cap_data = replicate 80 0\<rparr>,
     no_head = 0, no_tail = 0, no_count = 0,
     no_stats = \<lparr>nos_captured = 0, nos_dropped = 0, nos_recorded = 0, nos_malformed = 0, nos_unknown = 0, nos_last_malformed_reason = None\<rparr>,
     fd_present = True, fd_mac = [0x52, 0x54, 0, 0x12, 0x34, 0x56], fd_packets_received = 0, fd_packets_send = 0, fd_rx_errors = 0,
     fd_tx_drops = 0, fd_backend_e1000 = False, fd_tx_next_desc = 0, fd_tx_pending = 0, fd_tx_busy = replicate 4 False,
     fd_tx_buf = replicate 4 (replicate 1792 0), fd_tx_len = replicate 4 0, fd_txq = replicate 16 (replicate 1792 0),
     fd_txq_len = replicate 16 0, fd_txq_head = 0, fd_txq_count = 0, fd_tsd = replicate 4 0,
     e1_tx_status = replicate 16 0, e1_tx_buf = replicate 16 (replicate 2048 0), e1_tx_length = replicate 16 0,
     e1_tx_tail = 0, e1_tx_clean = 0, e1_tx_inflight = 0, fd_out = []\<rparr>"

text \<open>One pass of the first loop of \<^verbatim>\<open>tx_pump\<close>: a finished descriptor is released, and its frame goes
  back to the head of the queue unless the card reports it sent.\<close>

definition tx_reap :: "nat \<Rightarrow> 'a frontdesk_scheme \<Rightarrow> 'a frontdesk_scheme" where
  "tx_reap d s =
     (if \<not> fd_tx_busy s ! d then s
      else let tsd = fd_tsd s ! d in
        if tsd AND TSD_FINISHED_BITS = 0 then s
        else let s = s\<lparr>fd_tx_busy := (fd_tx_busy s)[d := False]\<rparr> in
          if tsd AND TSD_TOK \<noteq> 0 then s
          else if fd_txq_count s < TX_QUEUE_LEN
          then let h = (fd_txq_head s + TX_QUEUE_LEN - 1) mod TX_QUEUE_LEN; len = fd_tx_len s ! d
               in s\<lparr>fd_txq_head := h,
                    fd_txq := (fd_txq s)[h := mem_copy (fd_txq s ! h) (fd_tx_buf s ! d) (unat len)],
                    fd_txq_len := (fd_txq_len s)[h := len], fd_txq_count := fd_txq_count s + 1\<rparr>
          else s\<lparr>fd_tx_drops := fd_tx_drops s + 1\<rparr>)"

text \<open>The second loop: while the queue is not empty and a descriptor is free, its frame is handed to
  the card.\<close>

definition tx_start :: "nat \<Rightarrow> 'a frontdesk_scheme \<Rightarrow> 'a frontdesk_scheme" where
  "tx_start d s =
     (let h = fd_txq_head s; len = fd_txq_len s ! h;
          buf = mem_copy (fd_tx_buf s ! d) (fd_txq s ! h) (unat len)
      in s\<lparr>fd_tx_buf := (fd_tx_buf s)[d := buf], fd_tx_len := (fd_tx_len s)[d := len],
           fd_out := fd_out s @ [take (unat len) buf], fd_tsd := (fd_tsd s)[d := ucast len],
           fd_tx_busy := (fd_tx_busy s)[d := True], fd_tx_next_desc := (d + 1) mod 4,
           fd_tx_pending := fd_tx_pending s + 1, fd_packets_send := fd_packets_send s + 1,
           fd_txq_head := (h + 1) mod TX_QUEUE_LEN, fd_txq_count := fd_txq_count s - 1\<rparr>)"

definition tx_free_desc :: "'a frontdesk_scheme \<Rightarrow> nat option" where
  "tx_free_desc s =
     map_option (\<lambda>k. (fd_tx_next_desc s + k) mod 4)
       (first_idx (\<lambda>k. \<not> fd_tx_busy s ! ((fd_tx_next_desc s + k) mod 4)) [0..<4])"

lemma tx_start_count [simp]: "fd_txq_count (tx_start d s) = fd_txq_count s - 1"
  by (simp add: tx_start_def Let_def)

function tx_fill :: "'a frontdesk_scheme \<Rightarrow> 'a frontdesk_scheme" where
  "tx_fill s =
     (if fd_txq_count s = 0 then s
      else case tx_free_desc s of None \<Rightarrow> s | Some d \<Rightarrow> tx_fill (tx_start d s))"
  by pat_completeness auto
termination by (relation "measure fd_txq_count") simp_all

declare tx_fill.simps [simp del]

definition tx_pump :: "'a frontdesk_scheme \<Rightarrow> 'a frontdesk_scheme" where
  "tx_pump s = tx_fill (fold tx_reap [0..<4] s)"

text \<open>The e1000 ring: descriptors the card has finished are counted as free again, oldest first.\<close>

function reclaim_tx :: "'a frontdesk_scheme \<Rightarrow> 'a frontdesk_scheme" where
  "reclaim_tx s =
     (if e1_tx_inflight s > 0 \<and> e1_tx_status s ! e1_tx_clean s AND DESC_DD \<noteq> 0
      then reclaim_tx (s\<lparr>e1_tx_status := (e1_tx_status s)[e1_tx_clean s := 0], e1_tx_clean := (e1_tx_clean s + 1) mod RING_LEN, e1_tx_inflight := e1_tx_inflight s - 1\<rparr>)
      else s)"
  by pat_completeness auto
termination by (relation "measure e1_tx_inflight") simp_all

declare reclaim_tx.simps [simp del]

definition e1000_send :: "bytes \<Rightarrow> u16 \<Rightarrow> 'a frontdesk_scheme \<Rightarrow> bool \<times> 'a frontdesk_scheme" where
  "e1000_send data len s =
     (if len = 0 \<or> len > BUF_LEN then (False, s)
      else let s = reclaim_tx s in
        if e1_tx_inflight s = RING_LEN then (False, s\<lparr>fd_tx_drops := fd_tx_drops s + 1\<rparr>)
        else
          let t = e1_tx_tail s; buf = mem_copy (e1_tx_buf s ! t) data (unat len);
              s = s\<lparr>e1_tx_buf := (e1_tx_buf s)[t := buf], e1_tx_length := (e1_tx_length s)[t := len],
                    e1_tx_status := (e1_tx_status s)[t := 0], e1_tx_tail := (t + 1) mod RING_LEN,
                    e1_tx_inflight := e1_tx_inflight s + 1, fd_packets_send := fd_packets_send s + 1,
                    fd_out := fd_out s @ [take (unat len) buf]\<rparr>
          in (True, netobserve_capture NETWATCH_TX data (ucast len) s))"

definition frontdesk_send :: "bytes \<Rightarrow> u16 \<Rightarrow> 'a frontdesk_scheme \<Rightarrow> bool \<times> 'a frontdesk_scheme" where
  "frontdesk_send data len s =
     (if fd_backend_e1000 s then e1000_send data len s
      else if \<not> fd_present s \<or> len = 0 \<or> len > TX_FRAME_MAX then (False, s)
      else if fd_txq_count s = TX_QUEUE_LEN then (False, s\<lparr>fd_tx_drops := fd_tx_drops s + 1\<rparr>)
      else
        let slot = (fd_txq_head s + fd_txq_count s) mod TX_QUEUE_LEN;
            s = s\<lparr>fd_txq := (fd_txq s)[slot := mem_copy (fd_txq s ! slot) data (unat len)],
                  fd_txq_len := (fd_txq_len s)[slot := len], fd_txq_count := fd_txq_count s + 1\<rparr>
        in (True, netobserve_capture NETWATCH_TX data (ucast len) (tx_pump s)))"

section \<open>The transmit queue\<close>

definition txq_cells :: "'a frontdesk_scheme \<Rightarrow> bytes list" where
  "txq_cells s = map (\<lambda>i. take (unat (fd_txq_len s ! i)) (fd_txq s ! i)) [0..<16]"

definition tx_queue :: "'a frontdesk_scheme \<Rightarrow> bytes list" where
  "tx_queue s = ring_read (txq_cells s) (fd_txq_head s) (fd_txq_count s)"

definition fd_inv :: "'a frontdesk_scheme \<Rightarrow> bool" where
  "fd_inv s \<longleftrightarrow> length (fd_txq s) = 16 \<and> length (fd_txq_len s) = 16 \<and> length (fd_tx_buf s) = 4 \<and> length (fd_tx_len s) = 4 \<and>
     length (fd_tx_busy s) = 4 \<and> length (fd_tsd s) = 4 \<and> fd_txq_head s < 16 \<and> fd_txq_count s \<le> 16 \<and> fd_tx_next_desc s < 4 \<and>
     (\<forall>i<16. length (fd_txq s ! i) = 1792 \<and> fd_txq_len s ! i \<le> 1792) \<and>
     (\<forall>d<4. length (fd_tx_buf s ! d) = 1792 \<and> fd_tx_len s ! d \<le> 1792)"

lemma length_txq_cells [simp]: "length (txq_cells s) = 16"
  by (simp add: txq_cells_def)

lemma txq_cells_nth: "i < 16 \<Longrightarrow> txq_cells s ! i = take (unat (fd_txq_len s ! i)) (fd_txq s ! i)"
  by (simp add: txq_cells_def)

lemma len_1792: "(l :: u16) \<le> 1792 \<Longrightarrow> unat l \<le> 1792"
  by (simp add: word_le_nat_alt)

text \<open>A cell of the queue is written with a frame of legal length.\<close>

lemma txq_write:
  assumes inv: "fd_inv s" and p: "p < 16" and len: "len \<le> 1792" "unat len \<le> length data"
    and w: "fd_txq s' = (fd_txq s)[p := mem_copy (fd_txq s ! p) data (unat len)]" "fd_txq_len s' = (fd_txq_len s)[p := len]"
  shows "txq_cells s' = (txq_cells s)[p := take (unat len) data]"
    "\<forall>i<16. length (fd_txq s' ! i) = 1792 \<and> fd_txq_len s' ! i \<le> 1792"
proof -
  have L: "length (fd_txq s) = 16" "length (fd_txq_len s) = 16" "length (fd_txq s ! p) = 1792" using inv p by (simp_all add: fd_inv_def)
  show "txq_cells s' = (txq_cells s)[p := take (unat len) data]"
  proof (rule nth_equalityI)
    fix i
    assume "i < length (txq_cells s')"
    then show "txq_cells s' ! i = (txq_cells s)[p := take (unat len) data] ! i"
      using p L len by (cases "i = p") (simp_all add: txq_cells_nth w)
  qed simp
  show "\<forall>i<16. length (fd_txq s' ! i) = 1792 \<and> fd_txq_len s' ! i \<le> 1792"
    using inv p L len len_1792 [OF len(1)] by (auto simp: w nth_list_update fd_inv_def)
qed

lemma ring_read_other:
  assumes "\<And>k. k < n \<Longrightarrow> (start + k) mod length buf \<noteq> p"
  shows "ring_read (buf[p := x]) start n = ring_read buf start n"
proof (rule nth_equalityI)
  fix i
  assume "i < length (ring_read (buf[p := x]) start n)"
  then show "ring_read (buf[p := x]) start n ! i = ring_read buf start n ! i"
    using assms [of i] nth_list_update_neq [of p "(start + i) mod length buf" buf x] by auto
qed simp

lemma ring_read_push_front:
  assumes "start < length buf" "n < length buf"
  defines "h \<equiv> (start + length buf - 1) mod length buf"
  shows "ring_read (buf[h := x]) h (Suc n) = x # ring_read buf start n"
proof -
  have "0 < length buf" using assms(1) by linarith
  then have h: "h < length buf" unfolding h_def by (rule mod_less_divisor)
  have "(h + 1) mod length buf = (start + length buf - 1 + 1) mod length buf" unfolding h_def by (rule mod_add_left_eq)
  also have "start + length buf - 1 + 1 = start + length buf" using \<open>0 < length buf\<close> by simp
  finally have nxt: "(h + 1) mod length buf = start" using assms(1) by simp
  have "(start + k) mod length buf \<noteq> h" if "k < n" for k
    using ring_offset_inj [of start k "length buf" "length buf - 1"] that assms by (auto simp: h_def)
  then have "ring_read (buf[h := x]) start n = ring_read buf start n" by (rule ring_read_other)
  then show ?thesis using h nxt ring_read_pop [of h "buf[h := x]" n] by simp
qed

lemma tx_free_desc_Some:
  assumes "tx_free_desc s = Some d" "fd_inv s"
  shows "d < 4" "\<not> fd_tx_busy s ! d"
proof -
  obtain k where k: "first_idx (\<lambda>k. \<not> fd_tx_busy s ! ((fd_tx_next_desc s + k) mod 4)) [0..<4] = Some k"
    "d = (fd_tx_next_desc s + k) mod 4"
    using assms(1) by (auto simp: tx_free_desc_def)
  show "d < 4" using k(2) by simp
  show "\<not> fd_tx_busy s ! d" using first_idx_holds [OF k(1)] first_idx_less [OF k(1)] k(2) by simp
qed

lemma tx_free_desc_None:
  assumes "tx_free_desc s = None" "fd_inv s"
  shows "fd_tx_busy s = [True, True, True, True]"
proof -
  have busy: "fd_tx_busy s ! ((fd_tx_next_desc s + k) mod 4)" if "k < 4" for k
    using assms(1) that by (auto simp: tx_free_desc_def first_idx_None)
  have "fd_tx_busy s ! d" if "d < 4" for d
  proof -
    have "(fd_tx_next_desc s + (d + 4 - fd_tx_next_desc s) mod 4) mod 4 = (fd_tx_next_desc s + (d + 4 - fd_tx_next_desc s)) mod 4"
      by (rule mod_add_right_eq)
    also have "\<dots> = d" using assms(2) that by (simp add: fd_inv_def)
    finally show ?thesis using busy [of "(d + 4 - fd_tx_next_desc s) mod 4"] by simp
  qed
  then show ?thesis using assms(2) by (auto simp: fd_inv_def list_eq_iff_nth_eq less_Suc_eq numeral_eq_Suc)
qed

lemma tx_start_effect:
  assumes inv: "fd_inv s" and c: "fd_txq_count s > 0" and d: "d < 4"
  shows "fd_inv (tx_start d s)" "fd_out (tx_start d s) @ tx_queue (tx_start d s) = fd_out s @ tx_queue s"
proof -
  let ?h = "fd_txq_head s"
  let ?len = "fd_txq_len s ! ?h"
  have h: "?h < 16" "length (fd_txq s ! ?h) = 1792" "?len \<le> 1792" using inv by (simp_all add: fd_inv_def)
  have same: "txq_cells (tx_start d s) = txq_cells s" by (simp add: txq_cells_def tx_start_def Let_def)
  have buf: "length (fd_tx_buf s ! d) = 1792" using inv d by (simp add: fd_inv_def)
  show "fd_inv (tx_start d s)"
    using inv d h buf len_1792 [OF h(3)] by (auto simp: fd_inv_def tx_start_def Let_def TX_QUEUE_LEN_def nth_list_update)
  have "tx_queue s = take (unat ?len) (fd_txq s ! ?h) # ring_read (txq_cells s) ((?h + 1) mod 16) (fd_txq_count s - 1)"
    using ring_read_pop [of ?h "txq_cells s" "fd_txq_count s - 1"] c h by (simp add: tx_queue_def txq_cells_nth)
  moreover have "tx_queue (tx_start d s) = ring_read (txq_cells s) ((?h + 1) mod 16) (fd_txq_count s - 1)"
    unfolding tx_queue_def same by (simp add: tx_start_def Let_def TX_QUEUE_LEN_def)
  moreover have "fd_out (tx_start d s) = fd_out s @ [take (unat ?len) (fd_txq s ! ?h)]"
    using h len_1792 [OF h(3)] by (simp add: tx_start_def Let_def)
  ultimately show "fd_out (tx_start d s) @ tx_queue (tx_start d s) = fd_out s @ tx_queue s" by simp
qed

lemma tx_fill_effect:
  "fd_inv s \<Longrightarrow> fd_inv (tx_fill s) \<and> fd_out (tx_fill s) @ tx_queue (tx_fill s) = fd_out s @ tx_queue s \<and>
    (fd_txq_count (tx_fill s) = 0 \<or> fd_tx_busy (tx_fill s) = [True, True, True, True])"
proof (induction s rule: tx_fill.induct)
  case (1 s)
  show ?case
  proof (cases "fd_txq_count s = 0")
    case True
    then show ?thesis using 1 by (simp add: tx_fill.simps [of s])
  next
    case False
    show ?thesis
    proof (cases "tx_free_desc s")
      case None
      then show ?thesis using False "1.prems" tx_free_desc_None [OF None "1.prems"] by (simp add: tx_fill.simps [of s])
    next
      case (Some d)
      note st = tx_start_effect [OF "1.prems" _ tx_free_desc_Some(1) [OF Some "1.prems"]]
      then show ?thesis using False Some "1.IH" [OF False Some] by (simp add: tx_fill.simps [of s])
    qed
  qed
qed

section \<open>Frames the card did not send\<close>

definition tx_failed :: "'a frontdesk_scheme \<Rightarrow> nat \<Rightarrow> bool" where
  "tx_failed s d \<longleftrightarrow> fd_tx_busy s ! d \<and> fd_tsd s ! d AND TSD_FINISHED_BITS \<noteq> 0 \<and> fd_tsd s ! d AND TSD_TOK = 0"

definition tx_frame :: "'a frontdesk_scheme \<Rightarrow> nat \<Rightarrow> bytes" where
  "tx_frame s d = take (unat (fd_tx_len s ! d)) (fd_tx_buf s ! d)"

lemma tx_reap_same:
  "fd_out (tx_reap d s) = fd_out s" "tx_frame (tx_reap d s) = tx_frame s" "e \<noteq> d \<Longrightarrow> tx_failed (tx_reap d s) e = tx_failed s e"
  by (simp_all add: tx_reap_def Let_def tx_frame_def tx_failed_def fun_eq_iff)

lemma tx_reap_effect:
  assumes inv: "fd_inv s" and d: "d < 4"
  shows "fd_inv (tx_reap d s) \<and>
    fd_txq_count (tx_reap d s) = fd_txq_count s + of_bool (tx_failed s d \<and> fd_txq_count s < 16) \<and>
    tx_queue (tx_reap d s) = (if tx_failed s d \<and> fd_txq_count s < 16 then [tx_frame s d] else []) @ tx_queue s"
proof (cases "tx_failed s d \<and> fd_txq_count s < 16")
  case True
  define h where "h = (fd_txq_head s + 16 - 1) mod 16"
  define s' where "s' = tx_reap d s"
  have h: "h < 16" by (simp add: h_def)
  have L: "fd_tx_len s ! d \<le> 1792" "length (fd_tx_buf s ! d) = 1792" using inv d by (simp_all add: fd_inv_def)
  have s': "fd_txq s' = (fd_txq s)[h := mem_copy (fd_txq s ! h) (fd_tx_buf s ! d) (unat (fd_tx_len s ! d))]"
    "fd_txq_len s' = (fd_txq_len s)[h := fd_tx_len s ! d]" "fd_txq_head s' = h" "fd_txq_count s' = Suc (fd_txq_count s)"
    "fd_tx_busy s' = (fd_tx_busy s)[d := False]" "fd_tx_buf s' = fd_tx_buf s" "fd_tx_len s' = fd_tx_len s" "fd_tsd s' = fd_tsd s"
    "fd_tx_next_desc s' = fd_tx_next_desc s"
    using True by (simp_all add: s'_def tx_reap_def Let_def tx_failed_def TX_QUEUE_LEN_def h_def)
  have W: "txq_cells s' = (txq_cells s)[h := tx_frame s d]" "\<forall>i<16. length (fd_txq s' ! i) = 1792 \<and> fd_txq_len s' ! i \<le> 1792"
    using txq_write [OF inv h L(1) _ s'(1,2)] L len_1792 [OF L(1)] by (simp_all add: tx_frame_def)
  have "tx_queue s' = tx_frame s d # tx_queue s"
    using ring_read_push_front [of "fd_txq_head s" "txq_cells s" "fd_txq_count s" "tx_frame s d"] True inv
    by (simp add: tx_queue_def W(1) s' fd_inv_def h_def)
  moreover have "fd_inv s'" using inv W(2) h True by (simp add: fd_inv_def s')
  ultimately show ?thesis using True s'(4) by (simp flip: s'_def)
next
  case False
  then have "fd_txq (tx_reap d s) = fd_txq s" "fd_txq_len (tx_reap d s) = fd_txq_len s" "fd_txq_head (tx_reap d s) = fd_txq_head s"
    "fd_txq_count (tx_reap d s) = fd_txq_count s"
    by (auto simp: tx_reap_def Let_def tx_failed_def TX_QUEUE_LEN_def)
  moreover have "length (fd_tx_busy (tx_reap d s)) = length (fd_tx_busy s)" "fd_tx_buf (tx_reap d s) = fd_tx_buf s"
    "fd_tx_len (tx_reap d s) = fd_tx_len s" "fd_tsd (tx_reap d s) = fd_tsd s" "fd_tx_next_desc (tx_reap d s) = fd_tx_next_desc s"
    by (simp_all add: tx_reap_def Let_def)
  ultimately show ?thesis using False inv by (auto simp: fd_inv_def tx_queue_def txq_cells_def)
qed

lemma tx_reaps_effect:
  "fd_inv s \<Longrightarrow> distinct ds \<Longrightarrow> set ds \<subseteq> {0..<4} \<Longrightarrow>
    fd_inv (fold tx_reap ds s) \<and> fd_out (fold tx_reap ds s) = fd_out s \<and>
    tx_queue (fold tx_reap ds s) = rev (take (16 - fd_txq_count s) (map (tx_frame s) (filter (tx_failed s) ds))) @ tx_queue s"
proof (induction ds arbitrary: s)
  case (Cons d ds)
  note R = tx_reap_effect [OF Cons.prems(1), of d]
  have same: "filter (tx_failed (tx_reap d s)) ds = filter (tx_failed s) ds"
    using Cons.prems(2) tx_reap_same(3) [of _ d s] by (intro filter_cong refl) fastforce
  have IH: "fd_inv (fold tx_reap ds (tx_reap d s)) \<and> fd_out (fold tx_reap ds (tx_reap d s)) = fd_out s \<and>
      tx_queue (fold tx_reap ds (tx_reap d s)) =
        rev (take (16 - fd_txq_count (tx_reap d s)) (map (tx_frame s) (filter (tx_failed s) ds))) @ tx_queue (tx_reap d s)"
    using Cons.IH [of "tx_reap d s"] Cons.prems R by (simp add: tx_reap_same same)
  show ?case
  proof (cases "tx_failed s d \<and> fd_txq_count s < 16")
    case True
    then have "16 - fd_txq_count s = Suc (16 - fd_txq_count (tx_reap d s))" using R Cons.prems(3) by simp arith
    then show ?thesis using IH R Cons.prems(3) True by simp
  next
    case False
    then have "tx_failed s d \<Longrightarrow> 16 - fd_txq_count s = 0" by simp
    then show ?thesis using IH R Cons.prems(3) False by (cases "tx_failed s d") auto
  qed
qed simp

lemma netobserve_capture_frontdesk [simp]:
  "fd_out (netobserve_capture d f l s) = fd_out s" "fd_txq (netobserve_capture d f l s) = fd_txq s"
  "fd_txq_len (netobserve_capture d f l s) = fd_txq_len s" "fd_txq_head (netobserve_capture d f l s) = fd_txq_head s"
  "fd_txq_count (netobserve_capture d f l s) = fd_txq_count s" "fd_tx_buf (netobserve_capture d f l s) = fd_tx_buf s"
  "fd_tx_len (netobserve_capture d f l s) = fd_tx_len s" "fd_tx_busy (netobserve_capture d f l s) = fd_tx_busy s"
  "fd_tsd (netobserve_capture d f l s) = fd_tsd s" "fd_tx_next_desc (netobserve_capture d f l s) = fd_tx_next_desc s"
  "fd_present (netobserve_capture d f l s) = fd_present s" "fd_backend_e1000 (netobserve_capture d f l s) = fd_backend_e1000 s"
  by (simp_all add: netobserve_capture_def Let_def)

lemma netobserve_capture_queue [simp]:
  "fd_inv (netobserve_capture d f l s) = fd_inv s" "tx_queue (netobserve_capture d f l s) = tx_queue s"
  by (simp_all add: fd_inv_def tx_queue_def txq_cells_def)

lemma frontdesk_send_line:
  assumes "fd_inv s" "\<not> fd_backend_e1000 s" "frontdesk_send data len s = (True, s')" "unat len \<le> length data"
  shows "fd_inv s' \<and> (fd_txq_count s' = 0 \<or> fd_tx_busy s' = [True, True, True, True]) \<and>
    fd_out s' @ tx_queue s' =
      fd_out s @ rev (take (15 - fd_txq_count s) (map (tx_frame s) (filter (tx_failed s) [0..<4]))) @ tx_queue s @ [take (unat len) data]"
proof -
  have c: "fd_txq_count s < 16" and len: "len \<le> 1792" "len \<noteq> 0"
    using assms(1-3) by (auto simp: frontdesk_send_def fd_inv_def TX_QUEUE_LEN_def TX_FRAME_MAX_def not_less split: if_splits)
  define p where "p = (fd_txq_head s + fd_txq_count s) mod 16"
  define s1 where "s1 = s\<lparr>fd_txq := (fd_txq s)[p := mem_copy (fd_txq s ! p) data (unat len)],
      fd_txq_len := (fd_txq_len s)[p := len], fd_txq_count := fd_txq_count s + 1\<rparr>"
  have p: "p < 16" by (simp add: p_def)
  have W: "txq_cells s1 = (txq_cells s)[p := take (unat len) data]" "\<forall>i<16. length (fd_txq s1 ! i) = 1792 \<and> fd_txq_len s1 ! i \<le> 1792"
    using txq_write [OF assms(1) p len(1) assms(4), of s1] by (simp_all add: s1_def)
  have inv1: "fd_inv s1" using assms(1) W(2) c by (simp add: fd_inv_def s1_def)
  have q1: "tx_queue s1 = tx_queue s @ [take (unat len) data]"
    using ring_read_push [of "fd_txq_count s" "txq_cells s" "fd_txq_head s" "take (unat len) data"] c
    by (simp add: tx_queue_def W(1)) (simp add: s1_def p_def)
  have same: "tx_frame s1 = tx_frame s" "tx_failed s1 = tx_failed s" "fd_out s1 = fd_out s" "16 - fd_txq_count s1 = 15 - fd_txq_count s"
    by (simp_all add: s1_def tx_frame_def tx_failed_def fun_eq_iff)
  have s': "s' = netobserve_capture NETWATCH_TX data (ucast len) (tx_pump s1)"
    using assms(2,3) by (auto simp: frontdesk_send_def Let_def TX_QUEUE_LEN_def s1_def p_def split: if_splits)
  have R: "fd_inv (fold tx_reap [0..<4] s1)" "fd_out (fold tx_reap [0..<4] s1) = fd_out s"
    "tx_queue (fold tx_reap [0..<4] s1) = rev (take (15 - fd_txq_count s) (map (tx_frame s) (filter (tx_failed s) [0..<4]))) @
      tx_queue s @ [take (unat len) data]"
    using tx_reaps_effect [OF inv1, of "[0..<4]"] q1 by (auto simp: same)
  show ?thesis using tx_fill_effect [OF R(1)] R(2,3) by (simp add: s' tx_pump_def)
qed

section \<open>A driver that takes the next frames\<close>

text \<open>What went to the card and what is queued for it, in order.\<close>

definition on_line :: "'a frontdesk_scheme \<Rightarrow> bytes list" where
  "on_line s = fd_out s @ tx_queue s"

text \<open>The RTL8139 is up, its queue has room for \<open>n\<close> frames and no transmission failed.\<close>

definition tx_ready :: "nat \<Rightarrow> 'a frontdesk_scheme \<Rightarrow> bool" where
  "tx_ready n s \<longleftrightarrow> fd_inv s \<and> \<not> fd_backend_e1000 s \<and> fd_present s \<and> fd_txq_count s + n \<le> 16 \<and> (\<forall>d<4. \<not> tx_failed s d)"

lemma tsd_running:
  assumes "(len :: u16) \<le> 1792"
  shows "(ucast len :: u32) AND TSD_FINISHED_BITS = 0"
proof -
  have "unat (ucast len :: u32) < 2 ^ 13" using assms by (simp add: word_le_nat_alt unsigned_ucast_eq take_bit_nat_eq_self)
  then have "take_bit 13 (ucast len :: u32) = ucast len"
    by (simp add: word_unat_eq_iff unsigned_take_bit_eq take_bit_nat_eq_self)
  then have "(ucast len :: u32) = ucast len AND mask 13" by (simp add: take_bit_eq_mask)
  then have "(ucast len :: u32) AND TSD_FINISHED_BITS = ucast len AND (mask 13 AND TSD_FINISHED_BITS)"
    by (metis and.assoc)
  also have "(mask 13 AND TSD_FINISHED_BITS :: u32) = 0" unfolding TSD_FINISHED_BITS_def by code_simp
  finally show ?thesis by simp
qed

lemma tx_start_ready:
  assumes "tx_ready n s" "d < 4" "fd_txq_count s > 0"
  shows "tx_ready n (tx_start d s)"
proof -
  have inv: "fd_inv s" using assms(1) by (simp add: tx_ready_def)
  have "fd_txq_len s ! fd_txq_head s \<le> 1792" using inv by (simp add: fd_inv_def)
  note T = tsd_running [OF this]
  have "length (fd_tsd s) = 4" "length (fd_tx_busy s) = 4" using inv by (simp_all add: fd_inv_def)
  then have "\<not> tx_failed (tx_start d s) e" if "e < 4" for e
    using assms(1,2) that T by (cases "e = d") (auto simp: tx_ready_def tx_failed_def tx_start_def Let_def)
  then show ?thesis
    using assms tx_start_effect(1) [OF inv assms(3,2)] by (auto simp: tx_ready_def) (simp_all add: tx_start_def Let_def)
qed

lemma tx_fill_ready: "tx_ready n s \<Longrightarrow> tx_ready n (tx_fill s)"
proof (induction s rule: tx_fill.induct)
  case (1 s)
  have inv: "fd_inv s" using 1(2) by (simp add: tx_ready_def)
  show ?case
    using 1 tx_start_ready [OF 1(2)] tx_free_desc_Some(1) [OF _ inv]
    by (subst tx_fill.simps) (auto split: option.split)
qed

lemma tx_reap_quiet: "\<not> tx_failed s d \<Longrightarrow> tx_reap d s = s \<or> tx_reap d s = s\<lparr>fd_tx_busy := (fd_tx_busy s)[d := False]\<rparr>"
  by (auto simp: tx_reap_def tx_failed_def Let_def)

lemma tx_reap_ready: "tx_ready n s \<Longrightarrow> d < 4 \<Longrightarrow> tx_ready n (tx_reap d s)"
  using tx_reap_quiet [of s d]
  by (auto simp: tx_ready_def fd_inv_def) (auto simp: tx_failed_def nth_list_update split: if_splits)

lemma tx_reaps_ready: "tx_ready n s \<Longrightarrow> set ds \<subseteq> {0..<4} \<Longrightarrow> tx_ready n (fold tx_reap ds s)"
  by (induction ds arbitrary: s) (simp_all add: tx_reap_ready)

lemma frontdesk_send_ready:
  assumes "tx_ready (Suc n) s" "len \<noteq> 0" "len \<le> 1792" "unat len \<le> length data"
  shows "fst (frontdesk_send data len s)" "tx_ready n (snd (frontdesk_send data len s))"
    "on_line (snd (frontdesk_send data len s)) = on_line s @ [take (unat len) data]"
proof -
  have R: "fd_inv s" "\<not> fd_backend_e1000 s" "fd_present s" "fd_txq_count s + Suc n \<le> 16" "filter (tx_failed s) [0..<4] = []"
    using assms(1) by (auto simp: tx_ready_def filter_empty_conv)
  define p where "p = (fd_txq_head s + fd_txq_count s) mod 16"
  define s1 where "s1 = s\<lparr>fd_txq := (fd_txq s)[p := mem_copy (fd_txq s ! p) data (unat len)],
      fd_txq_len := (fd_txq_len s)[p := len], fd_txq_count := fd_txq_count s + 1\<rparr>"
  have run: "frontdesk_send data len s = (True, netobserve_capture NETWATCH_TX data (ucast len) (tx_pump s1))"
    using R assms(2,3) by (simp add: frontdesk_send_def Let_def TX_QUEUE_LEN_def TX_FRAME_MAX_def s1_def p_def not_less)
  then show "fst (frontdesk_send data len s)" by simp
  have p: "p < 16" by (simp add: p_def)
  have "\<forall>i<16. length (fd_txq s1 ! i) = 1792 \<and> fd_txq_len s1 ! i \<le> 1792"
    using txq_write(2) [OF R(1) p assms(3,4), of s1] by (simp add: s1_def)
  then have "fd_inv s1" using R(1,4) by (simp add: fd_inv_def s1_def)
  then have "tx_ready n s1" using assms(1) by (simp add: tx_ready_def) (simp add: s1_def tx_failed_def)
  then have "tx_ready n (tx_pump s1)" unfolding tx_pump_def by (intro tx_fill_ready tx_reaps_ready) simp_all
  then show "tx_ready n (snd (frontdesk_send data len s))" by (simp add: run tx_ready_def tx_failed_def)
  show "on_line (snd (frontdesk_send data len s)) = on_line s @ [take (unat len) data]"
    using frontdesk_send_line [OF R(1,2) run assms(4)] R(5) by (simp add: run on_line_def)
qed

section \<open>Properties\<close>

text \<open>C26. A frame accepted by the RTL8139 driver goes to the end of the line: the frames handed to the
  card so far, followed by the queue, are as before the call, with the frames the card failed to send
  put back in front of the queue (as many as fit) and the new frame at its end. Afterwards the queue
  is empty or all four descriptors are busy.\<close>

theorem frontdesk_send_order:
  assumes "fd_inv s" "\<not> fd_backend_e1000 s" "frontdesk_send data len s = (True, s')" "unat len \<le> length data"
  shows "fd_inv s' \<and> (fd_txq_count s' = 0 \<or> fd_tx_busy s' = [True, True, True, True]) \<and>
    fd_out s' @ tx_queue s' =
      fd_out s @ rev (take (15 - fd_txq_count s) (map (tx_frame s) (filter (tx_failed s) [0..<4]))) @ tx_queue s @ [take (unat len) data]"
  by (rule frontdesk_send_line [OF assms])

theorem frontdesk_send_order_witness:
  "let s = frontdesk_up\<lparr>fd_tx_busy := replicate 4 True, fd_txq_head := 15, fd_txq_count := 1\<rparr>;
       s' = snd (frontdesk_send (replicate 60 7) 60 s)
   in fd_out s' @ tx_queue s' = tx_queue s @ [replicate 60 7]"
proof -
  define s where "s = frontdesk_up\<lparr>fd_tx_busy := replicate 4 True, fd_txq_head := 15, fd_txq_count := 1\<rparr>"
  define s' where "s' = snd (frontdesk_send (replicate 60 7) 60 s)"
  have inv: "fd_inv s" and be: "\<not> fd_backend_e1000 s" by (simp_all add: fd_inv_def s_def frontdesk_up_def)
  have "fst (frontdesk_send (replicate 60 7) 60 s)"
    by (simp add: frontdesk_send_def s_def frontdesk_up_def Let_def TX_FRAME_MAX_def TX_QUEUE_LEN_def)
  then have run: "frontdesk_send (replicate 60 7) 60 s = (True, s')" by (simp add: s'_def prod_eq_iff)
  have nf: "filter (tx_failed s) [0..<4] = []" by (simp add: filter_empty_conv tx_failed_def s_def frontdesk_up_def)
  have "fd_out s = []" by (simp add: s_def frontdesk_up_def)
  then have "fd_out s' @ tx_queue s' = tx_queue s @ [replicate 60 7]"
    using frontdesk_send_order [OF inv be run] nf by simp
  then show ?thesis by (simp only: Let_def s'_def s_def)
qed

end
