(* ===== verification/Bailiff.thy ===== *)
theory Bailiff
  imports FrontDesk Slots
begin

text \<open>
  The transmit gate, \<^verbatim>\<open>Networking/Bailiff/bailiff.c\<close>: a sender first requests a pass for a frame,
  then presents the pass with the frame, which is handed to the driver when length and checksum are
  those the pass was issued for. 32 passes, expiring after 500 ticks. The state extends that of the
  driver; the current tick is an argument.
\<close>

section \<open>Model\<close>

definition BAILIFF_MAX_PASSES :: nat where "BAILIFF_MAX_PASSES = 32"
definition BAILIFF_PASS_TIMEOUT_TICKS :: u32 where "BAILIFF_PASS_TIMEOUT_TICKS = 500"
definition BAILIFF_MAX_FRAME :: u16 where "BAILIFF_MAX_FRAME = 1600"

record hall_pass_t =
  pass_id :: u32
  declared_len :: u16
  content_checksum :: u32
  issued_at :: u32
  pass_in_use :: bool

record bailiff = frontdesk +
  passes :: "hall_pass_t list"
  next_pass_id :: u32
  bf_denied_total :: u32
  bf_transmitted_total :: u32

definition bailiff_up :: bailiff where
  "bailiff_up = frontdesk.extend frontdesk_up
     (bailiff.fields (replicate BAILIFF_MAX_PASSES \<lparr>pass_id = 0, declared_len = 0, content_checksum = 0, issued_at = 0,
        pass_in_use = False\<rparr>) 1 0 0)"

definition bf_checksum :: "bytes \<Rightarrow> u16 \<Rightarrow> u32" where
  "bf_checksum data len = fold (\<lambda>i h. (h XOR ucast (data ! i)) * 16777619) [0..<unat len] 2166136261"

definition reclaim_expired :: "u32 \<Rightarrow> 'a bailiff_scheme \<Rightarrow> 'a bailiff_scheme" where
  "reclaim_expired now s =
     s\<lparr>passes := map (\<lambda>p. if pass_in_use p \<and> now - issued_at p > BAILIFF_PASS_TIMEOUT_TICKS
                         then p\<lparr>pass_in_use := False\<rparr> else p) (passes s)\<rparr>"

definition bailiff_request_pass :: "u32 \<Rightarrow> bytes \<Rightarrow> u16 \<Rightarrow> 'a bailiff_scheme \<Rightarrow> u32 option \<times> 'a bailiff_scheme" where
  "bailiff_request_pass now frame len s =
     (if len = 0 \<or> len > BAILIFF_MAX_FRAME then (None, s\<lparr>bf_denied_total := bf_denied_total s + 1\<rparr>)
      else let s = reclaim_expired now s in
        case first_idx (\<lambda>p. \<not> pass_in_use p) (passes s) of
          None \<Rightarrow> (None, s\<lparr>bf_denied_total := bf_denied_total s + 1\<rparr>)
        | Some slot \<Rightarrow>
            (Some (next_pass_id s),
             s\<lparr>passes := (passes s)[slot := \<lparr>pass_id = next_pass_id s, declared_len = len,
                   content_checksum = bf_checksum frame len, issued_at = now, pass_in_use = True\<rparr>],
               next_pass_id := next_pass_id s + 1\<rparr>))"

definition bailiff_present_pass :: "u32 \<Rightarrow> u32 \<Rightarrow> bytes \<Rightarrow> u16 \<Rightarrow> 'a bailiff_scheme \<Rightarrow> bool \<times> 'a bailiff_scheme" where
  "bailiff_present_pass now pid frame len s =
     (let s = reclaim_expired now s in
      case first_idx (\<lambda>p. pass_in_use p \<and> pass_id p = pid) (passes s) of
        None \<Rightarrow> (False, s\<lparr>bf_denied_total := bf_denied_total s + 1\<rparr>)
      | Some i \<Rightarrow>
          if declared_len (passes s ! i) \<noteq> len then (False, s\<lparr>bf_denied_total := bf_denied_total s + 1\<rparr>)
          else if content_checksum (passes s ! i) \<noteq> bf_checksum frame len
          then (False, s\<lparr>bf_denied_total := bf_denied_total s + 1\<rparr>)
          else case frontdesk_send frame len s of
            (False, s) \<Rightarrow> (False, s\<lparr>bf_denied_total := bf_denied_total s + 1,
                passes := (passes s)[i := (passes s ! i)\<lparr>pass_in_use := False\<rparr>]\<rparr>)
          | (True, s) \<Rightarrow> (True, s\<lparr>bf_transmitted_total := bf_transmitted_total s + 1,
                passes := (passes s)[i := (passes s ! i)\<lparr>pass_in_use := False\<rparr>]\<rparr>))"

definition bailiff_denied_count :: "'a bailiff_scheme \<Rightarrow> u32" where
  "bailiff_denied_count s = bf_denied_total s"

definition bailiff_transmitted_count :: "'a bailiff_scheme \<Rightarrow> u32" where
  "bailiff_transmitted_count s = bf_transmitted_total s"

text \<open>The two calls in a row, as the senders make them.\<close>

definition bailiff_transmit :: "u32 \<Rightarrow> bytes \<Rightarrow> u16 \<Rightarrow> 'a bailiff_scheme \<Rightarrow> bool \<times> 'a bailiff_scheme" where
  "bailiff_transmit now frame len s =
     (case bailiff_request_pass now frame len s of
        (None, s) \<Rightarrow> (False, s) | (Some pid, s) \<Rightarrow> bailiff_present_pass now pid frame len s)"

section \<open>Passes\<close>

lemma frontdesk_send_more: "frontdesk.more (snd (frontdesk_send f l s)) = frontdesk.more s"
proof -
  have c: "frontdesk.more (netobserve_capture d f l s) = frontdesk.more s" for d f l and s :: "'b frontdesk_scheme"
    by (simp add: netobserve_capture_def Let_def)
  have fill: "frontdesk.more (tx_fill s) = frontdesk.more s" for s :: "'b frontdesk_scheme"
    by (induction s rule: tx_fill.induct) (subst tx_fill.simps, simp add: tx_start_def Let_def split: option.splits)
  have reap: "frontdesk.more (fold tx_reap ds s) = frontdesk.more s" for ds and s :: "'b frontdesk_scheme"
    by (induction ds arbitrary: s) (simp_all add: tx_reap_def Let_def)
  have rec: "frontdesk.more (reclaim_tx s) = frontdesk.more s" for s :: "'b frontdesk_scheme"
    by (induction s rule: reclaim_tx.induct) (subst reclaim_tx.simps, simp)
  show ?thesis by (simp add: frontdesk_send_def e1000_send_def tx_pump_def Let_def c fill reap rec)
qed

lemma frontdesk_more_fields:
  fixes s t :: "'a bailiff_scheme"
  assumes "frontdesk.more s = frontdesk.more t"
  shows "passes s = passes t" "next_pass_id s = next_pass_id t" "bf_denied_total s = bf_denied_total t"
    "bf_transmitted_total s = bf_transmitted_total t" "bailiff.more s = bailiff.more t"
  using assms by (cases s; cases t; simp)+

lemmas frontdesk_send_bailiff [simp] = frontdesk_more_fields [OF frontdesk_send_more]

lemma reclaim_fields [simp]:
  "next_pass_id (reclaim_expired now s) = next_pass_id s" "length (passes (reclaim_expired now s)) = length (passes s)"
  "fd_out (reclaim_expired now s) = fd_out s"
  by (simp_all add: reclaim_expired_def)

text \<open>The pass table has one pass per identifier, and every identifier in use was handed out after
  boot: it is below the counter, which starts at 1 and is taken not to wrap.\<close>

definition bf_inv :: "'a bailiff_scheme \<Rightarrow> bool" where
  "bf_inv s \<longleftrightarrow> length (passes s) = 32 \<and> keyed pass_in_use pass_id (passes s) \<and>
     (\<forall>p\<in>set (passes s). pass_in_use p \<longrightarrow> unat (pass_id p) < unat (next_pass_id s))"

definition active :: "'a bailiff_scheme \<Rightarrow> hall_pass_t set" where
  "active s = {p \<in> set (passes s). pass_in_use p}"

lemma active_reclaim: "active (reclaim_expired now s) \<subseteq> active s"
  "p \<in> active (reclaim_expired now s) \<Longrightarrow> now - issued_at p \<le> BAILIFF_PASS_TIMEOUT_TICKS"
  by (auto simp: active_def reclaim_expired_def not_less split: if_splits)

lemma active_update:
  "active (s\<lparr>passes := (passes s)[i := p]\<rparr>) \<subseteq> active s \<union> (if pass_in_use p then {p} else {})"
  using set_update_subset_insert [of "passes s" i p] by (auto simp: active_def)

lemma bf_inv_reclaim: "bf_inv s \<Longrightarrow> bf_inv (reclaim_expired now s)"
  by (auto simp: bf_inv_def reclaim_expired_def intro!: keyed_sweep split: if_splits)

lemma request_Some:
  assumes inv: "bf_inv s" and run: "bailiff_request_pass now f l s = (Some i, s')" and room: "Suc (unat (next_pass_id s)) < 2 ^ 32"
  shows "i = next_pass_id s" "unat (next_pass_id s') = Suc (unat (next_pass_id s))" "bf_inv s'"
    "active s' \<subseteq> insert \<lparr>pass_id = i, declared_len = l, content_checksum = bf_checksum f l, issued_at = now, pass_in_use = True\<rparr> (active s)"
proof -
  define r where "r = reclaim_expired now s"
  obtain k where k: "first_idx (\<lambda>p. \<not> pass_in_use p) (passes r) = Some k"
    using run by (auto simp: bailiff_request_pass_def Let_def r_def split: if_splits option.splits)
  define p where "p = \<lparr>pass_id = next_pass_id s, declared_len = l, content_checksum = bf_checksum f l, issued_at = now, pass_in_use = True\<rparr>"
  have s': "i = next_pass_id s" "s' = r\<lparr>passes := (passes r)[k := p], next_pass_id := next_pass_id s + 1\<rparr>"
    using run k by (auto simp: bailiff_request_pass_def Let_def p_def r_def split: if_splits)
  have suc: "unat (next_pass_id s + 1) = Suc (unat (next_pass_id s))" using room by (simp add: unat_add_no_wrap)
  show "i = next_pass_id s" by (rule s'(1))
  show "unat (next_pass_id s') = Suc (unat (next_pass_id s))" using s'(2) suc by simp
  have rinv: "bf_inv r" unfolding r_def by (rule bf_inv_reclaim [OF inv])
  have new: "slot_find pass_in_use pass_id (next_pass_id s) (passes r) = None"
    unfolding slot_find_None
  proof (intro allI impI)
    fix j
    assume "j < length (passes r)" "pass_in_use (passes r ! j)"
    then have "unat (pass_id (passes r ! j)) < unat (next_pass_id r)" using rinv nth_mem by (auto simp: bf_inv_def)
    then show "pass_id (passes r ! j) \<noteq> next_pass_id s" by (auto simp: r_def)
  qed
  have "keyed pass_in_use pass_id ((passes r)[k := p])"
    using rinv new first_idx_holds [OF k] first_idx_less [OF k] by (intro keyed_set) (simp_all add: bf_inv_def p_def)
  moreover have "\<forall>q\<in>set ((passes r)[k := p]). pass_in_use q \<longrightarrow> unat (pass_id q) < Suc (unat (next_pass_id s))"
    using rinv set_update_subset_insert [of "passes r" k p] by (auto simp: bf_inv_def r_def p_def less_Suc_eq)
  ultimately show "bf_inv s'" using rinv s'(2) suc by (simp add: bf_inv_def)
  have "active s' = active (r\<lparr>passes := (passes r)[k := p]\<rparr>)" using s'(2) by (simp add: active_def)
  then show "active s' \<subseteq> insert \<lparr>pass_id = i, declared_len = l, content_checksum = bf_checksum f l, issued_at = now, pass_in_use = True\<rparr> (active s)"
    using active_update [of r k p] active_reclaim(1) [of now s] s'(1) by (auto simp: p_def r_def)
qed

lemma request_None:
  assumes "bf_inv s" "bailiff_request_pass now f l s = (None, s')"
  shows "bf_inv s'" "active s' \<subseteq> active s" "next_pass_id s' = next_pass_id s"
  using assms bf_inv_reclaim [OF assms(1), of now] active_reclaim(1) [of now s]
  by (auto simp: bailiff_request_pass_def Let_def bf_inv_def active_def split: if_splits option.splits)

text \<open>A pass that leaves use: nothing else changes in the table.\<close>

lemma bf_inv_spend:
  assumes "bf_inv s"
  shows "bf_inv (s\<lparr>passes := (passes s)[i := (passes s ! i)\<lparr>pass_in_use := False\<rparr>]\<rparr>)"
  using assms set_update_subset_insert [of "passes s" i "(passes s ! i)\<lparr>pass_in_use := False\<rparr>"]
  by (auto simp: bf_inv_def intro!: keyed_clear)

lemma bf_same:
  assumes "passes s' = passes t" "next_pass_id s' = next_pass_id t"
  shows "bf_inv s' = bf_inv t" "active s' = active t"
  using assms by (simp_all add: bf_inv_def active_def)

lemma present_False:
  assumes inv: "bf_inv s" and run: "bailiff_present_pass now pid f l s = (False, s')"
  shows "bf_inv s'" "active s' \<subseteq> active s" "next_pass_id s' = next_pass_id s"
proof -
  define r where "r = reclaim_expired now s"
  have r: "bf_inv r" "active r \<subseteq> active s" "next_pass_id r = next_pass_id s"
    by (simp_all add: r_def bf_inv_reclaim [OF inv] active_reclaim(1))
  have nx: "next_pass_id s' = next_pass_id r"
    using run frontdesk_send_bailiff(2) [of f l r]
    by (auto simp: bailiff_present_pass_def Let_def case_prod_beta simp flip: r_def split: option.splits if_splits bool.splits)
  then show "next_pass_id s' = next_pass_id s" using r(3) by simp
  consider "passes s' = passes r" | i where "passes s' = (passes r)[i := (passes r ! i)\<lparr>pass_in_use := False\<rparr>]"
    using run frontdesk_send_bailiff(1) [of f l r]
    by (auto simp: bailiff_present_pass_def Let_def case_prod_beta simp flip: r_def split: option.splits if_splits bool.splits)
  then have "bf_inv s' \<and> active s' \<subseteq> active s"
  proof cases
    case 1
    then show ?thesis using bf_same [OF 1 nx] r by simp
  next
    case (2 i)
    define t where "t = r\<lparr>passes := (passes r)[i := (passes r ! i)\<lparr>pass_in_use := False\<rparr>]\<rparr>"
    have "passes s' = passes t" "next_pass_id s' = next_pass_id t" using 2 nx by (simp_all add: t_def)
    from bf_same [OF this] show ?thesis
      using bf_inv_spend [OF r(1), of i] active_update [of r i "(passes r ! i)\<lparr>pass_in_use := False\<rparr>"] r(2)
      by (auto simp flip: t_def)
  qed
  then show "bf_inv s'" "active s' \<subseteq> active s" by simp_all
qed

lemma present_True:
  assumes inv: "bf_inv s" and run: "bailiff_present_pass now pid f l s = (True, s')"
  shows "bf_inv s'" "active s' \<subseteq> active s" "next_pass_id s' = next_pass_id s"
    "\<exists>p\<in>active s. pass_id p = pid \<and> declared_len p = l \<and> content_checksum p = bf_checksum f l \<and> now - issued_at p \<le> 500"
    "\<forall>p\<in>active s'. pass_id p \<noteq> pid"
proof -
  define r where "r = reclaim_expired now s"
  have r: "bf_inv r" "active r \<subseteq> active s" "next_pass_id r = next_pass_id s"
    by (simp_all add: r_def bf_inv_reclaim [OF inv] active_reclaim(1))
  obtain i where i: "first_idx (\<lambda>p. pass_in_use p \<and> pass_id p = pid) (passes r) = Some i"
    "declared_len (passes r ! i) = l" "content_checksum (passes r ! i) = bf_checksum f l"
    using run by (auto simp: bailiff_present_pass_def Let_def simp flip: r_def split: option.splits if_splits)
  note I = first_idx_less [OF i(1)] first_idx_holds [OF i(1)]
  define t where "t = r\<lparr>passes := (passes r)[i := (passes r ! i)\<lparr>pass_in_use := False\<rparr>]\<rparr>"
  have same: "passes s' = passes t" "next_pass_id s' = next_pass_id t"
    using run i frontdesk_send_bailiff(1,2) [of f l r]
    by (auto simp: bailiff_present_pass_def Let_def case_prod_beta t_def simp flip: r_def split: if_splits bool.splits)
  have "passes r ! i \<in> active r" using I by (simp add: active_def)
  then show "\<exists>p\<in>active s. pass_id p = pid \<and> declared_len p = l \<and> content_checksum p = bf_checksum f l \<and> now - issued_at p \<le> 500"
    using r(2) I i active_reclaim(2) [of "passes r ! i" now s] by (intro bexI [of _ "passes r ! i"]) (auto simp: r_def BAILIFF_PASS_TIMEOUT_TICKS_def)
  show "next_pass_id s' = next_pass_id s" using same(2) r(3) by (simp add: t_def)
  show "bf_inv s'" using bf_same(1) [OF same] bf_inv_spend [OF r(1), of i] by (simp add: t_def)
  have act: "active s' = active t" by (rule bf_same(2) [OF same])
  then show "active s' \<subseteq> active s"
    using active_update [of r i "(passes r ! i)\<lparr>pass_in_use := False\<rparr>"] r(2) by (auto simp: t_def)
  have k: "keyed pass_in_use pass_id (passes r)" using r(1) by (simp add: bf_inv_def)
  have "pass_id (passes t ! j) \<noteq> pid" if j: "j < length (passes t)" "pass_in_use (passes t ! j)" for j
    using k I j by (cases "j = i") (auto simp: t_def keyed_def)
  then show "\<forall>p\<in>active s'. pass_id p \<noteq> pid" unfolding act by (auto simp: active_def in_set_conv_nth)
qed

section \<open>A gate that lets the next frames through\<close>

text \<open>A pass is free, the identifiers do not run out and the driver takes the frames.\<close>

definition gate_ready :: "nat \<Rightarrow> 'a bailiff_scheme \<Rightarrow> bool" where
  "gate_ready n s \<longleftrightarrow> bf_inv s \<and> unat (next_pass_id s) + n < 2 ^ 32 \<and> (\<exists>p\<in>set (passes s). \<not> pass_in_use p) \<and> tx_ready n s"

lemma ready_passes [simp]:
  "tx_ready n (s\<lparr>passes := ps\<rparr>) = tx_ready n s" "tx_ready n (s\<lparr>next_pass_id := i\<rparr>) = tx_ready n s"
  "tx_ready n (s\<lparr>bf_transmitted_total := k\<rparr>) = tx_ready n s"
  "on_line (s\<lparr>passes := ps\<rparr>) = on_line s" "on_line (s\<lparr>next_pass_id := i\<rparr>) = on_line s"
  "on_line (s\<lparr>bf_transmitted_total := k\<rparr>) = on_line s"
  by (simp_all add: tx_ready_def on_line_def fd_inv_def tx_failed_def tx_queue_def txq_cells_def)

lemma ready_reclaim [simp]: "tx_ready n (reclaim_expired now s) = tx_ready n s" "on_line (reclaim_expired now s) = on_line s"
  by (simp_all add: reclaim_expired_def)

lemma reclaim_none:
  assumes "\<forall>p\<in>active s. now - issued_at p \<le> BAILIFF_PASS_TIMEOUT_TICKS"
  shows "reclaim_expired now s = s"
proof -
  have "map (\<lambda>p. if pass_in_use p \<and> BAILIFF_PASS_TIMEOUT_TICKS < now - issued_at p then p\<lparr>pass_in_use := False\<rparr> else p) (passes s) = passes s"
    using assms by (intro map_idI) (auto simp: active_def not_less)
  then show ?thesis by (simp add: reclaim_expired_def)
qed

lemma transmit_ready:
  assumes ready: "gate_ready (Suc n) s" and len: "len \<noteq> 0" "len \<le> 1600" "unat len \<le> length f"
  shows "fst (bailiff_transmit now f len s)" "gate_ready n (snd (bailiff_transmit now f len s))"
    "on_line (snd (bailiff_transmit now f len s)) = on_line s @ [take (unat len) f]"
    "bailiff_transmitted_count (snd (bailiff_transmit now f len s)) = bailiff_transmitted_count s + 1"
proof -
  define r where "r = reclaim_expired now s"
  have G: "bf_inv s" "Suc (unat (next_pass_id s)) < 2 ^ 32" "tx_ready (Suc n) s" using ready by (simp_all add: gate_ready_def)
  have "\<exists>p\<in>set (passes r). \<not> pass_in_use p" using ready by (auto simp: gate_ready_def r_def reclaim_expired_def)
  then have "first_idx (\<lambda>p. \<not> pass_in_use p) (passes r) \<noteq> None" by (simp add: first_idx_None)
  then obtain k where k: "first_idx (\<lambda>p. \<not> pass_in_use p) (passes r) = Some k" by blast
  define p where "p = \<lparr>pass_id = next_pass_id s, declared_len = len, content_checksum = bf_checksum f len, issued_at = now, pass_in_use = True\<rparr>"
  define s1 where "s1 = r\<lparr>passes := (passes r)[k := p], next_pass_id := next_pass_id s + 1\<rparr>"
  have nx: "next_pass_id r = next_pass_id s" by (simp add: r_def)
  have ok: "\<not> (len = 0 \<or> len > BAILIFF_MAX_FRAME)" using len(1,2) by (simp add: BAILIFF_MAX_FRAME_def not_less)
  have req: "bailiff_request_pass now f len s = (Some (next_pass_id s), s1)"
    unfolding bailiff_request_pass_def if_not_P [OF ok] r_def [symmetric] Let_def k option.case nx s1_def p_def ..
  note Q = request_Some [OF G(1) req G(2)]
  have kl: "k < length (passes r)" by (rule first_idx_less [OF k])
  have "active s1 = active (r\<lparr>passes := (passes r)[k := p]\<rparr>)" by (simp add: active_def s1_def)
  then have "\<forall>q\<in>active s1. now - issued_at q \<le> BAILIFF_PASS_TIMEOUT_TICKS"
    using active_update [of r k p] active_reclaim(2) [of _ now s] by (auto simp: p_def r_def)
  then have idem: "reclaim_expired now s1 = s1" by (rule reclaim_none)
  have "first_idx (\<lambda>q. pass_in_use q \<and> pass_id q = next_pass_id s) (passes s1) = Some k"
    using slot_find_unique [of pass_in_use pass_id "passes s1" k] Q(3) kl by (simp add: slot_find_def bf_inv_def s1_def p_def)
  moreover have ready1: "tx_ready (Suc n) s1" and len1792: "len \<le> 1792"
    using G(3) len(2) by (simp_all add: s1_def r_def word_le_nat_alt)
  moreover obtain s2 where sent: "frontdesk_send f len s1 = (True, s2)"
    using frontdesk_send_ready(1) [OF ready1 len(1) len1792 len(3)] by (metis eq_fst_iff)
  ultimately have run: "bailiff_transmit now f len s = (True, s2\<lparr>bf_transmitted_total := bf_transmitted_total s2 + 1,
      passes := (passes s2)[k := (passes s2 ! k)\<lparr>pass_in_use := False\<rparr>]\<rparr>)"
    using kl by (simp add: bailiff_transmit_def req bailiff_present_pass_def idem Let_def) (simp add: s1_def p_def)
  show "fst (bailiff_transmit now f len s)" by (simp add: run)
  have F: "passes s2 = passes s1" "next_pass_id s2 = next_pass_id s1" "bf_transmitted_total s2 = bf_transmitted_total s1"
    using frontdesk_send_bailiff(1,2,4) [of f len s1] unfolding sent snd_conv .
  have "k < length (passes s2)" using kl unfolding F by (simp add: s1_def)
  then have "\<exists>q\<in>set ((passes s2)[k := (passes s2 ! k)\<lparr>pass_in_use := False\<rparr>]). \<not> pass_in_use q"
    by (intro bexI [of _ "(passes s2 ! k)\<lparr>pass_in_use := False\<rparr>"] set_update_memI) simp_all
  moreover have "bf_inv (s2\<lparr>passes := (passes s2)[k := (passes s2 ! k)\<lparr>pass_in_use := False\<rparr>]\<rparr>)"
    using Q(3) bf_same(1) [OF F(1,2)] by (intro bf_inv_spend) simp
  moreover have "tx_ready n s2" "on_line s2 = on_line s @ [take (unat len) f]"
    using frontdesk_send_ready(2,3) [OF ready1 len(1) len1792 len(3)] unfolding sent snd_conv by (simp_all add: s1_def r_def)
  ultimately show "gate_ready n (snd (bailiff_transmit now f len s))"
    "on_line (snd (bailiff_transmit now f len s)) = on_line s @ [take (unat len) f]"
    "bailiff_transmitted_count (snd (bailiff_transmit now f len s)) = bailiff_transmitted_count s + 1"
    using ready Q(2) F(2,3) by (simp_all add: run gate_ready_def bailiff_transmitted_count_def bf_inv_def)
      (simp add: s1_def r_def reclaim_expired_def)
qed

section \<open>Runs of the gate\<close>

datatype bf_op = Request u32 bytes u16 | Present u32 u32 bytes u16
datatype bf_event = Issued u32 bytes u16 | Honoured u32 bytes u16

fun bf_step :: "bf_op \<Rightarrow> 'a bailiff_scheme \<Rightarrow> bf_event list \<times> 'a bailiff_scheme" where
  "bf_step (Request now f l) s =
     (case bailiff_request_pass now f l s of (None, s') \<Rightarrow> ([], s') | (Some i, s') \<Rightarrow> ([Issued i f l], s'))"
| "bf_step (Present now i f l) s =
     (case bailiff_present_pass now i f l s of (False, s') \<Rightarrow> ([], s') | (True, s') \<Rightarrow> ([Honoured i f l], s'))"

fun bf_run :: "bf_op list \<Rightarrow> 'a bailiff_scheme \<Rightarrow> bf_event list \<times> 'a bailiff_scheme" where
  "bf_run [] s = ([], s)"
| "bf_run (op # ops) s = (let (ev, s1) = bf_step op s; (evs, s2) = bf_run ops s1 in (ev @ evs, s2))"

fun honoured_id :: "bf_event \<Rightarrow> u32 option" where
  "honoured_id (Honoured i f l) = Some i"
| "honoured_id (Issued i f l) = None"

text \<open>What holds of the events so far and the state they led to.\<close>

definition bf_history :: "bf_event list \<Rightarrow> 'a bailiff_scheme \<Rightarrow> bool" where
  "bf_history tr s \<longleftrightarrow> bf_inv s \<and>
     (\<forall>p\<in>active s. \<exists>f. Issued (pass_id p) f (declared_len p) \<in> set tr \<and> bf_checksum f (declared_len p) = content_checksum p) \<and>
     (\<forall>i f l. Honoured i f l \<in> set tr \<longrightarrow> unat i < unat (next_pass_id s) \<and> (\<forall>p\<in>active s. pass_id p \<noteq> i)) \<and>
     distinct (List.map_filter honoured_id tr) \<and>
     (\<forall>pre i f l post. tr = pre @ Honoured i f l # post \<longrightarrow> (\<exists>f0. Issued i f0 l \<in> set pre \<and> bf_checksum f0 l = bf_checksum f l))"

lemma snoc_split: "tr @ [e] = pre @ x # post \<longleftrightarrow> (pre = tr \<and> x = e \<and> post = []) \<or> (\<exists>post'. post = post' @ [e] \<and> tr = pre @ x # post')"
  by (cases post rule: rev_cases) auto

lemma bf_historyD:
  assumes "bf_history tr s"
  shows "bf_inv s"
    "p \<in> active s \<Longrightarrow> \<exists>f. Issued (pass_id p) f (declared_len p) \<in> set tr \<and> bf_checksum f (declared_len p) = content_checksum p"
    "Honoured i f l \<in> set tr \<Longrightarrow> unat i < unat (next_pass_id s) \<and> (\<forall>p\<in>active s. pass_id p \<noteq> i)"
    "distinct (List.map_filter honoured_id tr)"
    "tr = pre @ Honoured i f l # post \<Longrightarrow> \<exists>f0. Issued i f0 l \<in> set pre \<and> bf_checksum f0 l = bf_checksum f l"
  using assms unfolding bf_history_def by blast+

lemma bf_historyI:
  assumes "bf_inv s"
    "\<And>p. p \<in> active s \<Longrightarrow> \<exists>f. Issued (pass_id p) f (declared_len p) \<in> set tr \<and> bf_checksum f (declared_len p) = content_checksum p"
    "\<And>i f l. Honoured i f l \<in> set tr \<Longrightarrow> unat i < unat (next_pass_id s) \<and> (\<forall>p\<in>active s. pass_id p \<noteq> i)"
    "distinct (List.map_filter honoured_id tr)"
    "\<And>pre i f l post. tr = pre @ Honoured i f l # post \<Longrightarrow> \<exists>f0. Issued i f0 l \<in> set pre \<and> bf_checksum f0 l = bf_checksum f l"
  shows "bf_history tr s"
  unfolding bf_history_def using assms by blast

lemma bf_history_quiet:
  assumes "bf_history tr s" "bf_inv s'" "active s' \<subseteq> active s" "next_pass_id s' = next_pass_id s"
  shows "bf_history tr s'"
proof (rule bf_historyI [OF assms(2)])
  show "\<exists>f. Issued (pass_id p) f (declared_len p) \<in> set tr \<and> bf_checksum f (declared_len p) = content_checksum p" if "p \<in> active s'" for p
    using bf_historyD(2) [OF assms(1)] that assms(3) by blast
  show "unat i < unat (next_pass_id s') \<and> (\<forall>p\<in>active s'. pass_id p \<noteq> i)" if "Honoured i f l \<in> set tr" for i f l
    using bf_historyD(3) [OF assms(1) that] assms(3,4) by auto
qed (rule bf_historyD(4,5) [OF assms(1)], assumption?)+

lemma bf_history_issued:
  assumes h: "bf_history tr s" and run: "bailiff_request_pass now f l s = (Some i, s')" and room: "Suc (unat (next_pass_id s)) < 2 ^ 32"
  shows "bf_history (tr @ [Issued i f l]) s'"
proof -
  note R = request_Some [OF bf_historyD(1) [OF h] run room]
  define p where "p = \<lparr>pass_id = i, declared_len = l, content_checksum = bf_checksum f l, issued_at = now, pass_in_use = True\<rparr>"
  have act: "active s' \<subseteq> insert p (active s)" using R(4) by (simp add: p_def)
  show ?thesis
  proof (rule bf_historyI [OF R(3)])
    fix q
    assume "q \<in> active s'"
    then consider "q = p" | "q \<in> active s" using act by blast
    then show "\<exists>f'. Issued (pass_id q) f' (declared_len q) \<in> set (tr @ [Issued i f l]) \<and> bf_checksum f' (declared_len q) = content_checksum q"
      using bf_historyD(2) [OF h, of q] by cases (auto simp: p_def)
  next
    fix j f' l'
    assume "Honoured j f' l' \<in> set (tr @ [Issued i f l])"
    then have j: "unat j < unat (next_pass_id s) \<and> (\<forall>q\<in>active s. pass_id q \<noteq> j)" using bf_historyD(3) [OF h] by simp
    then have "pass_id p \<noteq> j" using R(1) by (auto simp: p_def)
    then show "unat j < unat (next_pass_id s') \<and> (\<forall>q\<in>active s'. pass_id q \<noteq> j)" using act R(2) j by auto
  next
    show "distinct (List.map_filter honoured_id (tr @ [Issued i f l]))" using bf_historyD(4) [OF h] by (simp add: map_filter_def)
  next
    fix pre j f' l' post
    assume "tr @ [Issued i f l] = pre @ Honoured j f' l' # post"
    then obtain post' where "tr = pre @ Honoured j f' l' # post'" unfolding snoc_split by blast
    then show "\<exists>f0. Issued j f0 l' \<in> set pre \<and> bf_checksum f0 l' = bf_checksum f' l'" by (rule bf_historyD(5) [OF h])
  qed
qed

lemma bf_history_honoured:
  assumes h: "bf_history tr s" and run: "bailiff_present_pass now i f l s = (True, s')"
  shows "bf_history (tr @ [Honoured i f l]) s'"
proof -
  have inv: "bf_inv s" by (rule bf_historyD(1) [OF h])
  note R = present_True [OF inv run]
  obtain p where p: "p \<in> active s" "pass_id p = i" "declared_len p = l" "content_checksum p = bf_checksum f l" using R(4) by blast
  then obtain f0 where f0: "Issued i f0 l \<in> set tr" "bf_checksum f0 l = bf_checksum f l" using bf_historyD(2) [OF h p(1)] by auto
  have lt: "unat i < unat (next_pass_id s)" using p inv by (auto simp: bf_inv_def active_def)
  have new: "Honoured i f' l' \<notin> set tr" for f' l' using bf_historyD(3) [OF h, of i f' l'] p by blast
  show ?thesis
  proof (rule bf_historyI [OF R(1)])
    fix q
    assume "q \<in> active s'"
    then show "\<exists>f'. Issued (pass_id q) f' (declared_len q) \<in> set (tr @ [Honoured i f l]) \<and> bf_checksum f' (declared_len q) = content_checksum q"
      using bf_historyD(2) [OF h, of q] R(2) by auto
  next
    fix j f' l'
    assume "Honoured j f' l' \<in> set (tr @ [Honoured i f l])"
    then consider "Honoured j f' l' \<in> set tr" | "j = i" by auto
    then show "unat j < unat (next_pass_id s') \<and> (\<forall>q\<in>active s'. pass_id q \<noteq> j)"
      using bf_historyD(3) [OF h, of j f' l'] R(2,3,5) lt by cases auto
  next
    have "i \<notin> set (List.map_filter honoured_id tr)"
    proof
      assume "i \<in> set (List.map_filter honoured_id tr)"
      then obtain e where e: "e \<in> set tr" "honoured_id e = Some i" by (auto simp: map_filter_def)
      show False by (cases e) (use e new in auto)
    qed
    then show "distinct (List.map_filter honoured_id (tr @ [Honoured i f l]))" using bf_historyD(4) [OF h] by (simp add: map_filter_def)
  next
    fix pre j f' l' post
    assume "tr @ [Honoured i f l] = pre @ Honoured j f' l' # post"
    then consider "pre = tr" "j = i" "f' = f" "l' = l" | post' where "tr = pre @ Honoured j f' l' # post'" unfolding snoc_split by blast
    then show "\<exists>f0. Issued j f0 l' \<in> set pre \<and> bf_checksum f0 l' = bf_checksum f' l'"
    proof cases
      case 1
      then show ?thesis using f0 by blast
    next
      case 2
      then show ?thesis by (rule bf_historyD(5) [OF h])
    qed
  qed
qed

lemma bf_history_run:
  assumes "bf_history tr s" "unat (next_pass_id s) + length ops < 2 ^ 32"
  shows "bf_history (tr @ fst (bf_run ops s)) (snd (bf_run ops s))"
  using assms
proof (induction ops arbitrary: tr s)
  case (Cons op ops)
  obtain ev s1 where st: "bf_step op s = (ev, s1)" by fastforce
  have inv: "bf_inv s" using Cons.prems(1) by (simp add: bf_history_def)
  have "bf_history (tr @ ev) s1 \<and> unat (next_pass_id s1) \<le> Suc (unat (next_pass_id s))"
  proof (cases op)
    case (Request now f l)
    obtain r s2 where run: "bailiff_request_pass now f l s = (r, s2)" by fastforce
    show ?thesis
    proof (cases r)
      case None
      then show ?thesis
        using st Request run bf_history_quiet [OF Cons.prems(1) request_None [OF inv run [unfolded None]]] request_None(3) [OF inv run [unfolded None]] by simp
    next
      case (Some i)
      have room: "Suc (unat (next_pass_id s)) < 2 ^ 32" using Cons.prems(2) by simp
      show ?thesis
        using st Request run Some bf_history_issued [OF Cons.prems(1) run [unfolded Some] room] request_Some(2) [OF inv run [unfolded Some] room] by simp
    qed
  next
    case (Present now i f l)
    obtain ok s2 where run: "bailiff_present_pass now i f l s = (ok, s2)" by fastforce
    show ?thesis
    proof (cases ok)
      case True
      have run': "bailiff_present_pass now i f l s = (True, s2)" using run True by simp
      then show ?thesis
        using st Present bf_history_honoured [OF Cons.prems(1) run'] present_True(3) [OF inv run'] by simp
    next
      case False
      have run': "bailiff_present_pass now i f l s = (False, s2)" using run False by simp
      then show ?thesis
        using st Present False bf_history_quiet [OF Cons.prems(1) present_False [OF inv run']] present_False(3) [OF inv run'] by simp
    qed
  qed
  then show ?case using Cons.IH [of "tr @ ev" s1] Cons.prems(2) st by (simp add: case_prod_beta)
qed simp

section \<open>Properties\<close>

text \<open>C11. In any run of requests and presentations shorter than the pass counter's width, no pass is
  honoured twice, and every frame that a pass let through has the length and the checksum of the
  frame the pass was issued for earlier in the run.\<close>

theorem bailiff_passes_once:
  assumes "length (passes s) = 32" "active s = {}" "unat (next_pass_id s) + length ops < 2 ^ 32" "fst (bf_run ops s) = tr"
  shows "distinct (List.map_filter honoured_id tr) \<and>
    (\<forall>pre i f l post. tr = pre @ Honoured i f l # post \<longrightarrow> (\<exists>f0. Issued i f0 l \<in> set pre \<and> bf_checksum f0 l = bf_checksum f l))"
proof -
  have "pass_in_use p = False" if "p \<in> set (passes s)" for p using assms(2) that by (auto simp: active_def)
  then have "bf_inv s" using assms(1) by (auto simp: bf_inv_def keyed_def)
  then have "bf_history [] s" using assms(2) by (simp add: bf_history_def map_filter_def)
  from bf_history_run [OF this assms(3)] show ?thesis using assms(4) unfolding bf_history_def by simp
qed

theorem bailiff_passes_once_witness:
  "distinct (List.map_filter honoured_id (fst (bf_run
     [Request 5 [1, 2, 3] 3, Present 6 1 [1, 2, 3] 3, Present 7 1 [1, 2, 3] 3, Present 8 2 [9] 1] bailiff_up)))"
proof -
  have h: "length (passes bailiff_up) = 32" "active bailiff_up = {}"
    by (simp_all add: bailiff_up_def frontdesk.defs bailiff.defs frontdesk_up_def active_def BAILIFF_MAX_PASSES_def)
  have "next_pass_id bailiff_up = 1" by (simp add: bailiff_up_def frontdesk.defs bailiff.defs frontdesk_up_def)
  then show ?thesis
    using bailiff_passes_once [OF h, of "[Request 5 [1, 2, 3] 3, Present 6 1 [1, 2, 3] 3, Present 7 1 [1, 2, 3] 3, Present 8 2 [9] 1]", OF _ refl]
    by (simp del: bf_run.simps bf_step.simps)
qed

end
