(* ===== verification/Rolodex.thy ===== *)
theory Rolodex
  imports Bailiff
begin

text \<open>
  The address book, \<^verbatim>\<open>Networking/IPv4/Rolodex/rolodex.c\<close>: ARP learning with disputes instead of
  rebinding, expiry after 6000 ticks, replies and requests sent through the transmit gate. The state
  extends that of the gate. A pointer into a packet is the packet from that offset on.
\<close>

section \<open>Model\<close>

definition ROLODEX_CAPACITY :: nat where "ROLODEX_CAPACITY = 32"
definition ARP_PACKET_SIZE :: u16 where "ARP_PACKET_SIZE = 28"
definition ARP_REQUEST :: u16 where "ARP_REQUEST = 1"
definition ARP_REPLY :: u8 where "ARP_REPLY = 2"
definition ROLODEX_ENTRY_TIMEOUT_TICKS :: u32 where "ROLODEX_ENTRY_TIMEOUT_TICKS = 6000"

record rolodex_entry_t =
  rx_ip :: bytes
  rx_mac :: bytes
  rx_last_seen :: u32
  rx_in_use :: bool
  rx_disputed :: bool

record rolodex = bailiff +
  book :: "rolodex_entry_t list"
  contradictions :: u32
  our_ip :: bytes
  have_our_ip :: bool
  last_request_frame :: bytes
  last_request_len :: u16
  pending_reply :: bool
  pending_requester_mac :: bytes
  pending_requester_ip :: bytes

definition rolodex_up :: rolodex where
  "rolodex_up = bailiff.extend bailiff_up
     (rolodex.fields (replicate ROLODEX_CAPACITY \<lparr>rx_ip = replicate 4 0, rx_mac = replicate 6 0, rx_last_seen = 0,
        rx_in_use = False, rx_disputed = False\<rparr>) 0 [10, 0, 2, 15] True (replicate 42 0) 0 False (replicate 6 0) (replicate 4 0))"

definition rolodex_find_entry :: "bytes \<Rightarrow> rolodex_entry_t list \<Rightarrow> nat option" where
  "rolodex_find_entry ip b = slot_find rx_in_use rx_ip ip b"

definition find_free_slot :: "rolodex_entry_t list \<Rightarrow> nat option" where
  "find_free_slot b = first_idx (\<lambda>e. \<not> rx_in_use e) b"

definition expire_stale_entries :: "u32 \<Rightarrow> rolodex_entry_t list \<Rightarrow> rolodex_entry_t list" where
  "expire_stale_entries now b =
     map (\<lambda>e. if rx_in_use e \<and> now - rx_last_seen e > ROLODEX_ENTRY_TIMEOUT_TICKS
              then e\<lparr>rx_in_use := False, rx_disputed := False\<rparr> else e) b"

definition rolodex_set_ip :: "bytes \<Rightarrow> 'a rolodex_scheme \<Rightarrow> 'a rolodex_scheme" where
  "rolodex_set_ip ip s = s\<lparr>our_ip := take 4 ip, have_our_ip := True\<rparr>"

definition learn_or_dispute :: "u32 \<Rightarrow> bytes \<Rightarrow> bytes \<Rightarrow> 'a rolodex_scheme \<Rightarrow> 'a rolodex_scheme" where
  "learn_or_dispute now ip mac s =
     (let b = expire_stale_entries now (book s) in
      case rolodex_find_entry ip b of
        Some i \<Rightarrow>
          if rx_mac (b ! i) \<noteq> mac
          then s\<lparr>book := b[i := (b ! i)\<lparr>rx_disputed := True\<rparr>], contradictions := contradictions s + 1\<rparr>
          else s\<lparr>book := b[i := (b ! i)\<lparr>rx_last_seen := now\<rparr>]\<rparr>
      | None \<Rightarrow>
          (case find_free_slot b of
             None \<Rightarrow> s\<lparr>book := b\<rparr>
           | Some f \<Rightarrow> s\<lparr>book := b[f := (b ! f)\<lparr>rx_ip := ip, rx_mac := mac, rx_last_seen := now,
                 rx_in_use := True, rx_disputed := False\<rparr>]\<rparr>))"

definition rolodex_learn :: "u32 \<Rightarrow> bytes \<Rightarrow> bytes \<Rightarrow> 'a rolodex_scheme \<Rightarrow> 'a rolodex_scheme" where
  "rolodex_learn now ip mac s = learn_or_dispute now ip mac s"

definition rolodex_handle :: "u32 \<Rightarrow> bytes \<Rightarrow> u16 \<Rightarrow> bytes \<Rightarrow> 'a rolodex_scheme \<Rightarrow> 'a rolodex_scheme" where
  "rolodex_handle now payload len src_mac s =
     (if len \<noteq> ARP_PACKET_SIZE then s
      else
        let opcode = be16 payload 6;
            sender_mac = take 6 (drop 8 payload);
            sender_ip = take 4 (drop 14 payload);
            target_ip = take 4 (drop 24 payload)
        in if sender_mac \<noteq> take 6 src_mac then s
           else
             let s = learn_or_dispute now sender_ip sender_mac s
             in if opcode = ARP_REQUEST \<and> have_our_ip s \<and> target_ip = our_ip s
                then s\<lparr>pending_reply := True, pending_requester_ip := sender_ip, pending_requester_mac := sender_mac\<rparr>
                else s)"

definition arp_packet :: "u8 \<Rightarrow> bytes \<Rightarrow> bytes \<Rightarrow> bytes \<Rightarrow> bytes \<Rightarrow> bytes" where
  "arp_packet op smac sip tmac tip =
     [0x00, 0x01, 0x08, 0x00, 6, 4, 0x00, op] @ take 6 smac @ take 4 sip @ take 6 tmac @ take 4 tip"

definition rolodex_build_reply :: "bytes \<Rightarrow> 'a rolodex_scheme \<Rightarrow> bytes option \<times> 'a rolodex_scheme" where
  "rolodex_build_reply our_mac s =
     (if \<not> pending_reply s then (None, s)
      else (Some (arp_packet ARP_REPLY our_mac (our_ip s) (pending_requester_mac s) (pending_requester_ip s)),
            s\<lparr>pending_reply := False\<rparr>))"

definition rolodex_disputed :: "bytes \<Rightarrow> 'a rolodex_scheme \<Rightarrow> bool" where
  "rolodex_disputed ip s =
     (case rolodex_find_entry ip (book s) of None \<Rightarrow> False | Some i \<Rightarrow> rx_disputed (book s ! i))"

definition rolodex_lookup :: "bytes \<Rightarrow> 'a rolodex_scheme \<Rightarrow> bytes option" where
  "rolodex_lookup ip s =
     (case rolodex_find_entry ip (book s) of None \<Rightarrow> None | Some i \<Rightarrow> Some (rx_mac (book s ! i)))"

definition rolodex_dispatch_reply :: "u32 \<Rightarrow> bytes \<Rightarrow> 'a rolodex_scheme \<Rightarrow> u32 option \<times> 'a rolodex_scheme" where
  "rolodex_dispatch_reply now our_mac s =
     (case rolodex_build_reply our_mac s of
        (None, s) \<Rightarrow> (None, s)
      | (Some arp, s) \<Rightarrow>
          bailiff_request_pass now (take 6 (drop 18 arp) @ take 6 our_mac @ [0x08, 0x06] @ take 28 arp) 42 s)"

definition rolodex_count :: "'a rolodex_scheme \<Rightarrow> nat" where
  "rolodex_count s = count_if rx_in_use (book s)"

definition rolodex_contradiction_count :: "'a rolodex_scheme \<Rightarrow> u32" where
  "rolodex_contradiction_count s = contradictions s"

definition rolodex_dispatch_request :: "u32 \<Rightarrow> bytes \<Rightarrow> bytes \<Rightarrow> 'a rolodex_scheme \<Rightarrow> u32 option \<times> 'a rolodex_scheme" where
  "rolodex_dispatch_request now target_ip our_mac s =
     (if \<not> have_our_ip s then (None, s)
      else
        let arp = arp_packet 1 our_mac (our_ip s) (replicate 6 0) target_ip;
            s = s\<lparr>last_request_frame := replicate 6 0xFF @ take 6 our_mac @ [0x08, 0x06] @ arp, last_request_len := 42\<rparr>
        in bailiff_request_pass now (last_request_frame s) (last_request_len s) s)"

definition rolodex_get_ip :: "'a rolodex_scheme \<Rightarrow> bytes" where
  "rolodex_get_ip s = our_ip s"

definition rolodex_last_request_frame :: "'a rolodex_scheme \<Rightarrow> bytes" where
  "rolodex_last_request_frame s = last_request_frame s"

definition rolodex_last_request_len :: "'a rolodex_scheme \<Rightarrow> u16" where
  "rolodex_last_request_len s = last_request_len s"

section \<open>The book as a map\<close>

definition book_inv :: "rolodex_entry_t list \<Rightarrow> bool" where
  "book_inv b \<longleftrightarrow> length b = 32 \<and> keyed rx_in_use rx_ip b"

lemma book_inv_expire: "book_inv b \<Longrightarrow> book_inv (expire_stale_entries now b)"
  by (auto simp: book_inv_def expire_stale_entries_def intro!: keyed_sweep split: if_splits)

lemma book_inv_learn: "book_inv (book s) \<Longrightarrow> book_inv (book (learn_or_dispute now ip mac s))"
proof -
  assume "book_inv (book s)"
  then have b: "book_inv (expire_stale_entries now (book s))" by (rule book_inv_expire)
  define t where "t = expire_stale_entries now (book s)"
  have k: "keyed rx_in_use rx_ip t" "length t = 32" using b by (simp_all add: t_def book_inv_def)
  show ?thesis
  proof (cases "slot_find rx_in_use rx_ip ip t")
    case (Some i)
    note S = slot_findD [OF Some]
    have "keyed rx_in_use rx_ip (t[i := (t ! i)\<lparr>rx_disputed := True\<rparr>])" "keyed rx_in_use rx_ip (t[i := (t ! i)\<lparr>rx_last_seen := now\<rparr>])"
      using S by (auto intro!: keyed_set [OF k(1)])
    then show ?thesis
      using Some k(2) by (simp add: learn_or_dispute_def rolodex_find_entry_def book_inv_def flip: t_def)
  next
    case None
    have "keyed rx_in_use rx_ip (t[f := (t ! f)\<lparr>rx_ip := ip, rx_mac := mac, rx_last_seen := now, rx_in_use := True, rx_disputed := False\<rparr>])"
      if "first_idx (\<lambda>e. \<not> rx_in_use e) t = Some f" for f
      using first_idx_less [OF that] first_idx_holds [OF that] None by (intro keyed_set [OF k(1)]) simp_all
    then show ?thesis
      using None k by (simp add: learn_or_dispute_def rolodex_find_entry_def find_free_slot_def book_inv_def flip: t_def split: option.split)
  qed
qed

text \<open>An entry of the book, by address.\<close>

definition book_entry :: "bytes \<Rightarrow> rolodex_entry_t list \<Rightarrow> rolodex_entry_t option" where
  "book_entry ip b = map_option (\<lambda>i. b ! i) (slot_find rx_in_use rx_ip ip b)"

lemma lookup_entry: "rolodex_lookup ip s = map_option rx_mac (book_entry ip (book s))"
  "rolodex_disputed ip s = (case book_entry ip (book s) of None \<Rightarrow> False | Some e \<Rightarrow> rx_disputed e)"
  by (simp_all add: rolodex_lookup_def rolodex_disputed_def rolodex_find_entry_def book_entry_def split: option.splits)

lemma book_entry_view: "book_entry ip b = slot_view rx_in_use rx_ip (\<lambda>e. e) b ip"
  by (simp add: book_entry_def slot_view_def)

lemma book_entry_expire:
  assumes "book_inv b" "book_entry ip b = Some e" "now - rx_last_seen e \<le> ROLODEX_ENTRY_TIMEOUT_TICKS"
  shows "book_entry ip (expire_stale_entries now b) = Some e"
proof -
  have k: "keyed rx_in_use rx_ip b" "keyed rx_in_use rx_ip (expire_stale_entries now b)"
    using assms(1) book_inv_expire [OF assms(1)] by (simp_all add: book_inv_def)
  obtain i where i: "i < length b" "rx_in_use (b ! i)" "rx_ip (b ! i) = ip" "b ! i = e"
    using assms(2) slot_view_Some [OF k(1), of "\<lambda>e. e" ip e] by (auto simp: book_entry_view)
  then show ?thesis
    unfolding book_entry_view slot_view_Some [OF k(2)] using assms(3)
    by (intro exI [of _ i]) (auto simp: expire_stale_entries_def not_less)
qed

text \<open>What one learning step does to the entry of an address that is in the book and not stale.\<close>

lemma learn_entry:
  assumes inv: "book_inv (book s)" and e: "book_entry ip (book s) = Some e" "now - rx_last_seen e \<le> ROLODEX_ENTRY_TIMEOUT_TICKS"
  shows "book_entry ip (book (learn_or_dispute now ip' mac s)) =
    Some (if ip' \<noteq> ip then e else if rx_mac e \<noteq> mac then e\<lparr>rx_disputed := True\<rparr> else e\<lparr>rx_last_seen := now\<rparr>)"
proof -
  define t where "t = expire_stale_entries now (book s)"
  have ti: "book_inv t" "book_entry ip t = Some e" using book_inv_expire [OF inv] book_entry_expire [OF inv e] by (simp_all add: t_def)
  then have k: "keyed rx_in_use rx_ip t" "length t = 32" by (simp_all add: book_inv_def)
  obtain i where i: "slot_find rx_in_use rx_ip ip t = Some i" "t ! i = e" using ti(2) by (auto simp: book_entry_def)
  have view: "slot_view rx_in_use rx_ip (\<lambda>e. e) t ip = Some e" using ti(2) by (simp add: book_entry_view)
  have set: "slot_view rx_in_use rx_ip (\<lambda>e. e) (t[j := x]) ip = (if rx_ip x = ip then Some x else Some e)"
    if "j < length t" "rx_in_use x" "rx_in_use (t ! j) \<Longrightarrow> rx_ip (t ! j) = rx_ip x"
      "\<not> rx_in_use (t ! j) \<Longrightarrow> slot_find rx_in_use rx_ip (rx_ip x) t = None" for j x
    using slot_view_set [OF k(1) that, of "\<lambda>e. e"] view by simp
  show ?thesis
  proof (cases "slot_find rx_in_use rx_ip ip' t")
    case (Some j)
    note S = slot_findD [OF Some]
    let ?s = "learn_or_dispute now ip' mac s"
    have same: "t ! j = e \<and> rx_ip e = ip" if "ip' = ip" using that Some i S by simp
    have b: "book ?s = t[j := if rx_mac (t ! j) \<noteq> mac then (t ! j)\<lparr>rx_disputed := True\<rparr> else (t ! j)\<lparr>rx_last_seen := now\<rparr>]"
      using Some by (simp add: learn_or_dispute_def rolodex_find_entry_def Let_def flip: t_def)
    show ?thesis
      unfolding b book_entry_view
      by (subst set) (use S same in \<open>auto split: if_split\<close>)
  next
    case None
    then have ne: "ip' \<noteq> ip" using i by auto
    show ?thesis
    proof (cases "first_idx (\<lambda>e. \<not> rx_in_use e) t")
      case full: None
      then show ?thesis
        using None ne view by (simp add: learn_or_dispute_def rolodex_find_entry_def find_free_slot_def book_entry_view flip: t_def)
    next
      case (Some f)
      note F = first_idx_less [OF Some] first_idx_holds [OF Some]
      show ?thesis
        using None Some F ne
          set [of f "(t ! f)\<lparr>rx_ip := ip', rx_mac := mac, rx_last_seen := now, rx_in_use := True, rx_disputed := False\<rparr>"]
        by (simp add: learn_or_dispute_def rolodex_find_entry_def find_free_slot_def book_entry_view flip: t_def)
    qed
  qed
qed

text \<open>A packet that Rolodex accepts as a claim, and the run of the handler over a sequence of packets.\<close>

type_synonym arp_rx = "u32 \<times> bytes \<times> u16 \<times> bytes"

definition contradicts :: "bytes \<Rightarrow> bytes \<Rightarrow> arp_rx \<Rightarrow> bool" where
  "contradicts ip mac = (\<lambda>(_, p, len, src). len = 28 \<and> take 6 (drop 8 p) = take 6 src \<and>
     take 4 (drop 14 p) = ip \<and> take 6 (drop 8 p) \<noteq> mac)"

definition handle_all :: "arp_rx list \<Rightarrow> 'a rolodex_scheme \<Rightarrow> 'a rolodex_scheme" where
  "handle_all ps s = fold (\<lambda>(now, p, len, src). rolodex_handle now p len src) ps s"

lemma book_handle:
  "book (rolodex_handle now p len src s) =
     (if len = 28 \<and> take 6 (drop 8 p) = take 6 src
      then book (learn_or_dispute now (take 4 (drop 14 p)) (take 6 (drop 8 p)) s) else book s)"
  by (simp add: rolodex_handle_def ARP_PACKET_SIZE_def Let_def)

lemma tick_diff_le:
  fixes now ls t0 :: u32
  assumes "ls - t0 \<le> now - t0" "now - t0 \<le> b"
  shows "now - ls \<le> b"
proof -
  have "now - ls = (now - t0) - (ls - t0)" by simp
  then have "unat (now - ls) = unat (now - t0) - unat (ls - t0)" using assms(1) by (metis unat_sub)
  then show ?thesis using assms(2) unfolding word_le_nat_alt by linarith
qed

lemma handle_entry:
  assumes "book_inv (book s)" "book_entry ip (book s) = Some e" "rx_last_seen e - t0 \<le> now - t0"
    "now - t0 \<le> ROLODEX_ENTRY_TIMEOUT_TICKS"
  shows "book_inv (book (rolodex_handle now p len src s)) \<and>
    (\<exists>e'. book_entry ip (book (rolodex_handle now p len src s)) = Some e' \<and> rx_mac e' = rx_mac e \<and>
       rx_last_seen e' - t0 \<le> now - t0 \<and>
       rx_disputed e' = (rx_disputed e \<or> contradicts ip (rx_mac e) (now, p, len, src)))"
proof -
  note L = learn_entry [OF assms(1,2) tick_diff_le [OF assms(3,4)]]
  show ?thesis
    using assms(1-3) book_inv_learn [OF assms(1)] by (auto simp: book_handle L contradicts_def)
qed

lemma handle_all_entry:
  assumes "book_inv (book s)" "book_entry ip (book s) = Some e"
    "sorted (map (\<lambda>p. fst p - t0) ps)" "\<forall>p\<in>set ps. rx_last_seen e - t0 \<le> fst p - t0 \<and> fst p - t0 \<le> ROLODEX_ENTRY_TIMEOUT_TICKS"
  shows "\<exists>e'. book_entry ip (book (handle_all ps s)) = Some e' \<and> rx_mac e' = rx_mac e \<and>
    rx_disputed e' = (rx_disputed e \<or> (\<exists>p\<in>set ps. contradicts ip (rx_mac e) p))"
  using assms
proof (induction ps arbitrary: s e)
  case Nil
  then show ?case by (simp add: handle_all_def)
next
  case (Cons a ps)
  obtain now p len src where a: "a = (now, p, len, src)" by (cases a) auto
  let ?s = "rolodex_handle now p len src s"
  obtain e' where e': "book_inv (book ?s)" "book_entry ip (book ?s) = Some e'" "rx_mac e' = rx_mac e"
    "rx_last_seen e' - t0 \<le> now - t0" "rx_disputed e' = (rx_disputed e \<or> contradicts ip (rx_mac e) a)"
    using handle_entry [OF Cons.prems(1,2), of t0 now p len src] Cons.prems(4) a by auto
  have "\<forall>q\<in>set ps. rx_last_seen e' - t0 \<le> fst q - t0 \<and> fst q - t0 \<le> ROLODEX_ENTRY_TIMEOUT_TICKS"
    using Cons.prems(3,4) e'(4) a by (auto intro: order_trans)
  moreover have "sorted (map (\<lambda>p. fst p - t0) ps)" using Cons.prems(3) by simp
  ultimately show ?case using Cons.IH [OF e'(1,2)] e'(3,5) a by (auto simp: handle_all_def)
qed

lemma book_request: "book (snd (rolodex_dispatch_request now ip mac s)) = book s"
  by (simp add: rolodex_dispatch_request_def bailiff_request_pass_def reclaim_expired_def Let_def split: option.split)

lemma request_frame:
  "have_our_ip s \<Longrightarrow> last_request_frame (snd (rolodex_dispatch_request now ip mac s)) =
     replicate 6 0xFF @ take 6 mac @ [0x08, 0x06] @ arp_packet 1 mac (our_ip s) (replicate 6 0) ip"
  by (simp add: rolodex_dispatch_request_def bailiff_request_pass_def reclaim_expired_def Let_def split: option.split)

lemma arp_packet_parts:
  assumes "length smac = 6" "length sip = 4" "length tmac = 6" "length tip = 4"
  shows "take 6 (drop 8 (arp_packet op smac sip tmac tip)) = smac" "take 4 (drop 14 (arp_packet op smac sip tmac tip)) = sip"
    "take 4 (drop 24 (arp_packet op smac sip tmac tip)) = tip" "be16 (arp_packet op smac sip tmac tip) 6 = ucast op"
  using assms by (simp_all add: arp_packet_def be16_def)

lemma our_ip_learn [simp]: "our_ip (learn_or_dispute now ip mac s) = our_ip s" "have_our_ip (learn_or_dispute now ip mac s) = have_our_ip s"
  by (simp_all add: learn_or_dispute_def Let_def split: option.split)

lemma learn_fresh:
  assumes "book_inv (book s)" "book_entry ip (expire_stale_entries now (book s)) = None"
    "find_free_slot (expire_stale_entries now (book s)) \<noteq> None"
  shows "rolodex_lookup ip (learn_or_dispute now ip mac s) = Some mac"
proof -
  define t where "t = expire_stale_entries now (book s)"
  have k: "keyed rx_in_use rx_ip t" using book_inv_expire [OF assms(1)] by (simp add: t_def book_inv_def)
  obtain f where f: "first_idx (\<lambda>e. \<not> rx_in_use e) t = Some f" using assms(3) by (auto simp: find_free_slot_def t_def)
  have n: "slot_find rx_in_use rx_ip ip t = None" using assms(2) by (simp add: book_entry_def t_def)
  let ?e = "(t ! f)\<lparr>rx_ip := ip, rx_mac := mac, rx_last_seen := now, rx_in_use := True, rx_disputed := False\<rparr>"
  have "slot_view rx_in_use rx_ip (\<lambda>e. e) (t[f := ?e]) ip = Some ?e"
    using n first_idx_less [OF f] first_idx_holds [OF f] by (subst slot_view_set [OF k]) simp_all
  then show ?thesis
    unfolding lookup_entry book_entry_view using f n
    by (simp add: learn_or_dispute_def rolodex_find_entry_def find_free_slot_def flip: t_def)
qed

lemma rolodex_up_fields [simp]:
  "book rolodex_up = replicate 32 \<lparr>rx_ip = replicate 4 0, rx_mac = replicate 6 0, rx_last_seen = 0, rx_in_use = False, rx_disputed = False\<rparr>"
  "our_ip rolodex_up = [10, 0, 2, 15]" "have_our_ip rolodex_up"
  by (simp_all add: rolodex_up_def bailiff.defs rolodex.defs ROLODEX_CAPACITY_def)

lemma book_inv_up: "book_inv (book rolodex_up)"
  by (simp add: book_inv_def)

section \<open>Properties\<close>

text \<open>C10. No ARP traffic rebinds an address: once an address is in the book, any sequence of packets handled
  within the entry's lifetime leaves its MAC as first learned, and the entry is marked disputed exactly
  when it was before or some accepted packet claimed the address for another MAC.
\<close>
theorem rolodex_binding_stable:
  assumes "book_inv (book s)" "book_entry ip (book s) = Some e"
    "sorted (map (\<lambda>p. fst p - rx_last_seen e) ps)" "\<forall>p\<in>set ps. fst p - rx_last_seen e \<le> ROLODEX_ENTRY_TIMEOUT_TICKS"
  shows "rolodex_lookup ip (handle_all ps s) = Some (rx_mac e) \<and>
    (rolodex_disputed ip (handle_all ps s) \<longleftrightarrow> rx_disputed e \<or> (\<exists>p\<in>set ps. contradicts ip (rx_mac e) p))"
  using handle_all_entry [OF assms(1-3)] assms(4) by (auto simp: lookup_entry)

theorem rolodex_binding_stable_witness:
  "let s = learn_or_dispute 5 [10, 0, 2, 2] [1, 2, 3, 4, 5, 6] rolodex_up;
       s' = handle_all [(10, arp_packet 2 [9, 9, 9, 9, 9, 9] [10, 0, 2, 2] [0, 0, 0, 0, 0, 0] [10, 0, 2, 15], 28, [9, 9, 9, 9, 9, 9])] s
   in rolodex_lookup [10, 0, 2, 2] s' = Some [1, 2, 3, 4, 5, 6] \<and> rolodex_disputed [10, 0, 2, 2] s'"
proof -
  let ?s = "learn_or_dispute 5 [10, 0, 2, 2] [1, 2, 3, 4, 5, 6] rolodex_up"
  let ?e = "\<lparr>rx_ip = [10, 0, 2, 2], rx_mac = [1, 2, 3, 4, 5, 6], rx_last_seen = 5, rx_in_use = True, rx_disputed = False\<rparr>"
  let ?p = "(10, arp_packet 2 [9, 9, 9, 9, 9, 9] [10, 0, 2, 2] [0, 0, 0, 0, 0, 0] [10, 0, 2, 15], 28, [9, 9, 9, 9, 9, 9]) :: arp_rx"
  have e: "book_entry [10, 0, 2, 2] (book ?s) = Some ?e" by code_simp
  have c: "contradicts [10, 0, 2, 2] (rx_mac ?e) ?p" by code_simp
  show ?thesis
    using rolodex_binding_stable [OF book_inv_learn [OF book_inv_up] e, of "[?p]"] c
    by (simp add: Let_def ROLODEX_ENTRY_TIMEOUT_TICKS_def)
qed

text \<open>C27. Two machines resolve each other: the request one machine broadcasts, handled by the machine that
  owns the address, makes that machine build a reply, and the reply, handled by the asker, gives the
  owner's MAC in the asker's book, if the asker has no entry for it yet and a free one.
\<close>
theorem arp_exchange_resolves:
  assumes "have_our_ip p" "have_our_ip s" "length (our_ip p) = 4" "length (our_ip s) = 4" "length pm = 6" "length sm = 6"
    "book_inv (book p)" "book_entry (our_ip s) (expire_stale_entries t' (book p)) = None"
    "find_free_slot (expire_stale_entries t' (book p)) \<noteq> None"
  shows "let p1 = snd (rolodex_dispatch_request t (our_ip s) pm p);
             s1 = rolodex_handle t (drop 14 (rolodex_last_request_frame p1)) 28 pm s
         in \<exists>arp. fst (rolodex_build_reply sm s1) = Some arp \<and>
              rolodex_lookup (our_ip s) (rolodex_handle t' arp 28 sm p1) = Some sm"
proof -
  define p1 where "p1 = snd (rolodex_dispatch_request t (our_ip s) pm p)"
  have d: "drop 14 (rolodex_last_request_frame p1) = arp_packet 1 pm (our_ip p) (replicate 6 0) (our_ip s)"
    using assms by (simp add: p1_def rolodex_last_request_frame_def request_frame)
  have b: "book p1 = book p" by (simp add: p1_def book_request)
  let ?arp = "arp_packet ARP_REPLY sm (our_ip s) pm (our_ip p)"
  have r: "fst (rolodex_build_reply sm (rolodex_handle t (drop 14 (rolodex_last_request_frame p1)) 28 pm s)) = Some ?arp"
    unfolding d using assms
    by (simp add: rolodex_handle_def rolodex_build_reply_def arp_packet_parts ARP_PACKET_SIZE_def ARP_REQUEST_def Let_def)
  have "rolodex_lookup (our_ip s) (rolodex_handle t' ?arp 28 sm p1) = rolodex_lookup (our_ip s) (learn_or_dispute t' (our_ip s) sm p1)"
    using assms by (simp add: lookup_entry book_handle arp_packet_parts)
  also have "\<dots> = Some sm" using assms b by (intro learn_fresh) simp_all
  finally show ?thesis using r by (simp add: Let_def flip: p1_def)
qed

theorem arp_exchange_resolves_witness:
  "let p = rolodex_set_ip [10, 0, 2, 2] rolodex_up;
       p1 = snd (rolodex_dispatch_request 7 (our_ip rolodex_up) [2, 2, 2, 2, 2, 2] p);
       s1 = rolodex_handle 7 (drop 14 (rolodex_last_request_frame p1)) 28 [2, 2, 2, 2, 2, 2] rolodex_up
   in \<exists>arp. fst (rolodex_build_reply [1, 2, 3, 4, 5, 6] s1) = Some arp \<and>
        rolodex_lookup (our_ip rolodex_up) (rolodex_handle 8 arp 28 [1, 2, 3, 4, 5, 6] p1) = Some [1, 2, 3, 4, 5, 6]"
proof -
  let ?p = "rolodex_set_ip [10, 0, 2, 2] rolodex_up"
  have b: "book ?p = book rolodex_up" "have_our_ip ?p" "our_ip ?p = [10, 0, 2, 2]" by (simp_all add: rolodex_set_ip_def)
  have f: "book_entry (our_ip rolodex_up) (expire_stale_entries 8 (book ?p)) = None"
    "find_free_slot (expire_stale_entries 8 (book ?p)) \<noteq> None"
    unfolding b by code_simp+
  show ?thesis
    using arp_exchange_resolves [of ?p rolodex_up "[2, 2, 2, 2, 2, 2]" "[1, 2, 3, 4, 5, 6]" 8 7] b f book_inv_up by simp
qed

end
