(* ===== verification/Foyer.thy ===== *)
theory Foyer
  imports Rolodex
begin

text \<open>
  The waiting area, \<^verbatim>\<open>Networking/Foyer/foyer.c\<close>: frames whose next hop has no known MAC are held,
  ARP requests are repeated every 100 ticks, at most 5 times, and the frame is released when the
  address book knows the MAC or dropped when it does not answer. The state extends the address book's.
\<close>

section \<open>Model\<close>

definition FOYER_CAPACITY :: nat where "FOYER_CAPACITY = 16"
definition FOYER_MAX_FRAME :: u16 where "FOYER_MAX_FRAME = BAILIFF_MAX_FRAME"
definition FOYER_MAX_RETRIES :: u32 where "FOYER_MAX_RETRIES = 5"
definition FOYER_RETRY_INTERVAL_TICK :: u32 where "FOYER_RETRY_INTERVAL_TICK = 100"

record foyer_entry_t =
  fy_target_ip :: bytes
  fy_frame :: bytes
  fy_len :: u16
  fy_in_use :: bool
  fy_last_attempt :: u32
  fy_retry_count :: u32

record foyer = rolodex +
  fy_slots :: "foyer_entry_t list"
  fy_flushed_total :: u32
  fy_dropped_total :: u32

definition foyer_up :: foyer where
  "foyer_up = rolodex.extend rolodex_up
     (foyer.fields (replicate FOYER_CAPACITY \<lparr>fy_target_ip = replicate 4 0, fy_frame = replicate 1600 0, fy_len = 0,
        fy_in_use = False, fy_last_attempt = 0, fy_retry_count = 0\<rparr>) 0 0)"

definition send_arp_request :: "u32 \<Rightarrow> bytes \<Rightarrow> bytes \<Rightarrow> 'a rolodex_scheme \<Rightarrow> 'a rolodex_scheme" where
  "send_arp_request now our_mac target_ip s =
     (case rolodex_dispatch_request now target_ip our_mac s of
        (None, s) \<Rightarrow> s
      | (Some pid, s) \<Rightarrow> snd (bailiff_present_pass now pid (rolodex_last_request_frame s) (rolodex_last_request_len s) s))"

definition foyer_queue :: "u32 \<Rightarrow> bytes \<Rightarrow> bytes \<Rightarrow> bytes \<Rightarrow> u16 \<Rightarrow> 'a foyer_scheme \<Rightarrow> bool \<times> 'a foyer_scheme" where
  "foyer_queue now target_ip our_mac frame len s =
     (if len = 0 \<or> len > FOYER_MAX_FRAME then (False, s)
      else
        let requested_already = list_ex (\<lambda>e. fy_in_use e \<and> fy_target_ip e = target_ip) (fy_slots s)
        in case first_idx (\<lambda>e. \<not> fy_in_use e) (fy_slots s) of
          None \<Rightarrow> (False, s\<lparr>fy_dropped_total := fy_dropped_total s + 1\<rparr>)
        | Some i \<Rightarrow>
            let e = (fy_slots s ! i)\<lparr>fy_len := len, fy_frame := mem_copy (fy_frame (fy_slots s ! i)) frame (unat len),
                      fy_target_ip := target_ip, fy_last_attempt := now, fy_retry_count := 0\<rparr>
            in case rolodex_lookup target_ip s of
              Some mac \<Rightarrow>
                let e = e\<lparr>fy_frame := mem_copy (fy_frame e) mac 6\<rparr>;
                    (sent, s) = bailiff_transmit now (fy_frame e) (fy_len e) (s\<lparr>fy_slots := (fy_slots s)[i := e]\<rparr>)
                in (True, if sent then s\<lparr>fy_flushed_total := fy_flushed_total s + 1\<rparr> else s)
            | None \<Rightarrow>
                let s = s\<lparr>fy_slots := (fy_slots s)[i := e\<lparr>fy_in_use := True\<rparr>]\<rparr>
                in (True, if requested_already then s else send_arp_request now our_mac target_ip s))"

text \<open>The body of the loop of \<^verbatim>\<open>foyer_tick\<close>.\<close>

definition foyer_visit :: "u32 \<Rightarrow> bytes \<Rightarrow> nat \<Rightarrow> 'a foyer_scheme \<Rightarrow> 'a foyer_scheme" where
  "foyer_visit now our_mac i s =
     (let e = fy_slots s ! i in
      if \<not> fy_in_use e then s
      else case rolodex_lookup (fy_target_ip e) s of
        Some mac \<Rightarrow>
          let e = e\<lparr>fy_frame := mem_copy (fy_frame e) mac 6\<rparr>;
              (sent, s) = bailiff_transmit now (fy_frame e) (fy_len e) (s\<lparr>fy_slots := (fy_slots s)[i := e]\<rparr>);
              s = (if sent then s\<lparr>fy_flushed_total := fy_flushed_total s + 1\<rparr> else s)
          in s\<lparr>fy_slots := (fy_slots s)[i := e\<lparr>fy_in_use := False\<rparr>]\<rparr>
      | None \<Rightarrow>
          if now - fy_last_attempt e < FOYER_RETRY_INTERVAL_TICK then s
          else if fy_retry_count e \<ge> FOYER_MAX_RETRIES
          then s\<lparr>fy_dropped_total := fy_dropped_total s + 1, fy_slots := (fy_slots s)[i := e\<lparr>fy_in_use := False\<rparr>]\<rparr>
          else let s = send_arp_request now our_mac (fy_target_ip e) s
               in s\<lparr>fy_slots := (fy_slots s)[i := e\<lparr>fy_retry_count := fy_retry_count e + 1, fy_last_attempt := now\<rparr>]\<rparr>)"

definition foyer_tick :: "u32 \<Rightarrow> bytes \<Rightarrow> 'a foyer_scheme \<Rightarrow> 'a foyer_scheme" where
  "foyer_tick now our_mac s = fold (foyer_visit now our_mac) [0..<FOYER_CAPACITY] s"

definition foyer_flushed_count :: "'a foyer_scheme \<Rightarrow> u32" where
  "foyer_flushed_count s = fy_flushed_total s"

definition foyer_dropped_count :: "'a foyer_scheme \<Rightarrow> u32" where
  "foyer_dropped_count s = fy_dropped_total s"

section \<open>What sending leaves alone\<close>

lemma present_more: "bailiff.more (snd (bailiff_present_pass now pid f l s)) = bailiff.more s"
proof -
  have r: "bailiff.more (reclaim_expired now s) = bailiff.more s" by (simp add: reclaim_expired_def)
  have f: "bailiff.more s' = bailiff.more t" if "frontdesk_send f l t = (b, s')" for b s' and t :: "'a bailiff_scheme"
    using frontdesk_send_bailiff(5) [of f l t] that by simp
  show ?thesis
    using r by (auto simp: bailiff_present_pass_def Let_def split: option.split prod.split bool.split dest!: f)
qed

lemma request_more: "bailiff.more (snd (bailiff_request_pass now f l s)) = bailiff.more s"
  by (simp add: bailiff_request_pass_def reclaim_expired_def Let_def split: option.split)

lemma transmit_more: "bailiff.more (snd (bailiff_transmit now f l s)) = bailiff.more s"
  using request_more [of now f l s]
  by (auto simp: bailiff_transmit_def present_more split: prod.split option.split)

lemma bailiff_more_fields:
  fixes s t :: "'a foyer_scheme"
  assumes "bailiff.more s = bailiff.more t"
  shows "book s = book t" "fy_slots s = fy_slots t" "fy_dropped_total s = fy_dropped_total t" "fy_flushed_total s = fy_flushed_total t"
  using assms by (cases s, cases t, simp)+

lemmas transmit_foyer [simp] = bailiff_more_fields [OF transmit_more]

lemma dispatch_foyer:
  fixes s :: "'a foyer_scheme"
  shows "book (snd (rolodex_dispatch_request now ip m s)) = book s" "fy_slots (snd (rolodex_dispatch_request now ip m s)) = fy_slots s"
    "fy_dropped_total (snd (rolodex_dispatch_request now ip m s)) = fy_dropped_total s"
  by (simp_all add: rolodex_dispatch_request_def bailiff_request_pass_def reclaim_expired_def Let_def split: option.split)

lemma arp_foyer [simp]:
  fixes s :: "'a foyer_scheme"
  shows "book (send_arp_request now m ip s) = book s" "fy_slots (send_arp_request now m ip s) = fy_slots s"
    "fy_dropped_total (send_arp_request now m ip s) = fy_dropped_total s"
proof -
  obtain q t where d: "rolodex_dispatch_request now ip m s = (q, t)" by (metis surj_pair)
  have t: "book t = book s" "fy_slots t = fy_slots s" "fy_dropped_total t = fy_dropped_total s"
    using dispatch_foyer [of now ip m s] unfolding d snd_conv .
  have "book (send_arp_request now m ip s) = book t \<and> fy_slots (send_arp_request now m ip s) = fy_slots t \<and>
    fy_dropped_total (send_arp_request now m ip s) = fy_dropped_total t"
  proof (cases q)
    case None
    then show ?thesis unfolding send_arp_request_def d by simp
  next
    case (Some pid)
    then have "send_arp_request now m ip s = snd (bailiff_present_pass now pid (rolodex_last_request_frame t) (rolodex_last_request_len t) t)"
      unfolding send_arp_request_def d by simp
    then show ?thesis by (simp only: bailiff_more_fields [OF present_more])
  qed
  then show "book (send_arp_request now m ip s) = book s" "fy_slots (send_arp_request now m ip s) = fy_slots s"
    "fy_dropped_total (send_arp_request now m ip s) = fy_dropped_total s"
    using t by simp_all
qed

section \<open>The request on the line\<close>

definition arp_request :: "bytes \<Rightarrow> bytes \<Rightarrow> bytes \<Rightarrow> bytes" where
  "arp_request mac sip ip = replicate 6 0xFF @ mac @ [0x08, 0x06] @ arp_packet 1 mac sip (replicate 6 0) ip"

text \<open>The machine has an address, and all addresses have their lengths.\<close>

definition can_ask :: "bytes \<Rightarrow> bytes \<Rightarrow> 'a rolodex_scheme \<Rightarrow> bool" where
  "can_ask mac ip s \<longleftrightarrow> have_our_ip s \<and> length (our_ip s) = 4 \<and> length mac = 6 \<and> length ip = 4"

lemma bailiff_more_rolodex:
  fixes s t :: "'a rolodex_scheme"
  assumes "bailiff.more s = bailiff.more t"
  shows "last_request_frame s = last_request_frame t" "last_request_len s = last_request_len t"
    "our_ip s = our_ip t" "have_our_ip s = have_our_ip t"
  using assms by (cases s, cases t, simp)+

lemma gate_ready_more [simp]:
  "gate_ready n (s\<lparr>last_request_frame := f, last_request_len := l\<rparr>) = gate_ready n s"
  "on_line (s\<lparr>last_request_frame := f, last_request_len := l\<rparr>) = on_line s"
  by (simp_all add: gate_ready_def bf_inv_def tx_ready_def fd_inv_def tx_failed_def on_line_def tx_queue_def txq_cells_def)

lemma gate_ready_foyer [simp]:
  "gate_ready n (s\<lparr>fy_slots := e\<rparr>) = gate_ready n s" "on_line (s\<lparr>fy_slots := e\<rparr>) = on_line s"
  "on_line (s\<lparr>fy_dropped_total := d\<rparr>) = on_line s"
  by (simp_all add: gate_ready_def bf_inv_def tx_ready_def fd_inv_def tx_failed_def on_line_def tx_queue_def txq_cells_def)

lemma arp_as_transmit:
  assumes "can_ask m ip s"
  defines "f \<equiv> arp_request m (our_ip s) ip"
  shows "send_arp_request now m ip s = snd (bailiff_transmit now f 42 (s\<lparr>last_request_frame := f, last_request_len := 42\<rparr>))"
proof -
  let ?s = "s\<lparr>last_request_frame := f, last_request_len := 42\<rparr>"
  have d: "rolodex_dispatch_request now ip m s = bailiff_request_pass now f 42 ?s"
    using assms(1) by (simp add: rolodex_dispatch_request_def can_ask_def f_def arp_request_def Let_def)
  obtain q t where t: "bailiff_request_pass now f 42 ?s = (q, t)" by (metis surj_pair)
  have "bailiff.more t = bailiff.more ?s" using request_more [of now f 42 ?s] unfolding t snd_conv .
  from bailiff_more_rolodex [OF this] show ?thesis
    by (simp add: send_arp_request_def bailiff_transmit_def d t rolodex_last_request_frame_def rolodex_last_request_len_def split: option.split)
qed

lemma arp_on_line:
  assumes "can_ask m ip s"
  shows "our_ip (send_arp_request now m ip s) = our_ip s" "can_ask m ip (send_arp_request now m ip s)"
    "gate_ready (Suc n) s \<Longrightarrow> gate_ready n (send_arp_request now m ip s)"
    "gate_ready (Suc n) s \<Longrightarrow> on_line (send_arp_request now m ip s) = on_line s @ [arp_request m (our_ip s) ip]"
proof -
  let ?f = "arp_request m (our_ip s) ip"
  let ?s = "s\<lparr>last_request_frame := ?f, last_request_len := 42\<rparr>"
  note A = arp_as_transmit [OF assms, of now]
  have M: "our_ip (send_arp_request now m ip s) = our_ip s" "have_our_ip (send_arp_request now m ip s) = have_our_ip s"
    unfolding A using bailiff_more_rolodex(3,4) [OF transmit_more [of now ?f 42 ?s]] by simp_all
  then show "our_ip (send_arp_request now m ip s) = our_ip s" "can_ask m ip (send_arp_request now m ip s)"
    using assms by (simp_all add: can_ask_def)
  have l: "length ?f = 42" using assms by (simp add: can_ask_def arp_request_def arp_packet_def)
  then have T: "gate_ready (Suc n) ?s \<Longrightarrow> gate_ready n (snd (bailiff_transmit now ?f 42 ?s))"
    "gate_ready (Suc n) ?s \<Longrightarrow> on_line (snd (bailiff_transmit now ?f 42 ?s)) = on_line ?s @ [?f]"
    using transmit_ready(2,3) [of n ?s 42 ?f now] by simp_all
  show "gate_ready (Suc n) s \<Longrightarrow> gate_ready n (send_arp_request now m ip s)"
    "gate_ready (Suc n) s \<Longrightarrow> on_line (send_arp_request now m ip s) = on_line s @ [?f]"
    unfolding A using T by simp_all
qed

section \<open>The life of a held frame\<close>

text \<open>What a tick does to one slot, given what the address book says of its target.\<close>

definition held_next :: "u32 \<Rightarrow> bytes option \<Rightarrow> foyer_entry_t \<Rightarrow> foyer_entry_t" where
  "held_next now known e =
     (if \<not> fy_in_use e then e
      else case known of
        Some mac \<Rightarrow> e\<lparr>fy_frame := mem_copy (fy_frame e) mac 6, fy_in_use := False\<rparr>
      | None \<Rightarrow>
          if now - fy_last_attempt e < FOYER_RETRY_INTERVAL_TICK then e
          else if fy_retry_count e \<ge> FOYER_MAX_RETRIES then e\<lparr>fy_in_use := False\<rparr>
          else e\<lparr>fy_retry_count := fy_retry_count e + 1, fy_last_attempt := now\<rparr>)"

lemma lookup_book: "book s = book t \<Longrightarrow> rolodex_lookup ip s = rolodex_lookup ip t"
  by (simp add: lookup_entry)

lemma transmit_foyer_pair:
  fixes s s' :: "'a foyer_scheme"
  assumes "bailiff_transmit now f l s = (sent, s')"
  shows "book s' = book s" "fy_slots s' = fy_slots s"
    "fy_dropped_total s' = fy_dropped_total s" "fy_flushed_total s' = fy_flushed_total s"
  using transmit_foyer [of now f l s] assms by simp_all

lemma foyer_visit_slots:
  fixes s :: "'a foyer_scheme"
  shows "fy_slots (foyer_visit now m i s) =
      (fy_slots s)[i := held_next now (rolodex_lookup (fy_target_ip (fy_slots s ! i)) s) (fy_slots s ! i)] \<and>
    book (foyer_visit now m i s) = book s"
proof (cases "fy_in_use (fy_slots s ! i)")
  case used: True
  show ?thesis
  proof (cases "rolodex_lookup (fy_target_ip (fy_slots s ! i)) s")
    case None
    then show ?thesis using used by (simp add: foyer_visit_def held_next_def Let_def)
  next
    case (Some mac)
    define e where "e = (fy_slots s ! i)\<lparr>fy_frame := mem_copy (fy_frame (fy_slots s ! i)) mac 6\<rparr>"
    obtain sent s' where t: "bailiff_transmit now (fy_frame e) (fy_len e) (s\<lparr>fy_slots := (fy_slots s)[i := e]\<rparr>) = (sent, s')"
      by (metis surj_pair)
    have "foyer_visit now m i s = (let s = (if sent then s'\<lparr>fy_flushed_total := fy_flushed_total s' + 1\<rparr> else s')
        in s\<lparr>fy_slots := (fy_slots s)[i := e\<lparr>fy_in_use := False\<rparr>]\<rparr>)"
      using used Some t unfolding foyer_visit_def Let_def by (simp flip: e_def)
    moreover have "held_next now (Some mac) (fy_slots s ! i) = e\<lparr>fy_in_use := False\<rparr>"
      using used by (simp add: held_next_def e_def)
    ultimately show ?thesis using Some transmit_foyer_pair [OF t] by (simp add: Let_def)
  qed
next
  case False
  then show ?thesis by (simp add: foyer_visit_def held_next_def)
qed

lemma foyer_visits:
  fixes s :: "'a foyer_scheme"
  assumes "distinct js" "i < length (fy_slots s)"
  shows "book (fold (foyer_visit now m) js s) = book s \<and> length (fy_slots (fold (foyer_visit now m) js s)) = length (fy_slots s) \<and>
    fy_slots (fold (foyer_visit now m) js s) ! i =
      (if i \<in> set js then held_next now (rolodex_lookup (fy_target_ip (fy_slots s ! i)) s) (fy_slots s ! i) else fy_slots s ! i)"
  using assms
proof (induction js arbitrary: s)
  case Nil
  then show ?case by simp
next
  case (Cons a js)
  let ?s = "foyer_visit now m a s"
  have v: "fy_slots ?s = (fy_slots s)[a := held_next now (rolodex_lookup (fy_target_ip (fy_slots s ! a)) s) (fy_slots s ! a)]"
    "book ?s = book s"
    using foyer_visit_slots [of now m a s] by simp_all
  have ih: "book (fold (foyer_visit now m) js ?s) = book ?s" "length (fy_slots (fold (foyer_visit now m) js ?s)) = length (fy_slots ?s)"
    "fy_slots (fold (foyer_visit now m) js ?s) ! i =
      (if i \<in> set js then held_next now (rolodex_lookup (fy_target_ip (fy_slots ?s ! i)) ?s) (fy_slots ?s ! i) else fy_slots ?s ! i)"
    using Cons.IH [of ?s] Cons.prems v(1) by simp_all
  show ?case
  proof (cases "a = i")
    case True
    then show ?thesis using ih v Cons.prems by simp
  next
    case False
    then have "fy_slots ?s ! i = fy_slots s ! i" using v(1) by simp
    then show ?thesis using ih v False lookup_book [OF v(2)] by simp
  qed
qed

lemma foyer_tick_slot:
  fixes s :: "'a foyer_scheme"
  assumes "length (fy_slots s) = 16" "i < 16"
  shows "fy_slots (foyer_tick now m s) ! i = held_next now (rolodex_lookup (fy_target_ip (fy_slots s ! i)) s) (fy_slots s ! i)"
    "book (foyer_tick now m s) = book s" "length (fy_slots (foyer_tick now m s)) = 16"
  using foyer_visits [of "[0..<16]" i s now m] assms by (simp_all add: foyer_tick_def FOYER_CAPACITY_def)


text \<open>Six due ticks in a row without an answer: five retries, then the slot is given up.\<close>

fun due :: "u32 \<Rightarrow> u32 list \<Rightarrow> bool" where
  "due t0 [] \<longleftrightarrow> True"
| "due t0 (t # ts) \<longleftrightarrow> 100 \<le> t - t0 \<and> due t ts"

lemma held_retry:
  fixes s :: "'a foyer_scheme"
  assumes "length (fy_slots s) = 16" "i < 16" "fy_in_use (fy_slots s ! i)" "rolodex_lookup (fy_target_ip (fy_slots s ! i)) s = None"
    "100 \<le> t - fy_last_attempt (fy_slots s ! i)"
  shows "fy_slots (foyer_tick t m s) ! i =
    (if fy_retry_count (fy_slots s ! i) \<ge> 5 then (fy_slots s ! i)\<lparr>fy_in_use := False\<rparr>
     else (fy_slots s ! i)\<lparr>fy_retry_count := fy_retry_count (fy_slots s ! i) + 1, fy_last_attempt := t\<rparr>)"
  using foyer_tick_slot(1) [OF assms(1,2), of t m] assms(3-5)
  by (simp add: held_next_def FOYER_RETRY_INTERVAL_TICK_def FOYER_MAX_RETRIES_def not_less)

lemma held_retries:
  fixes s :: "'a foyer_scheme"
  assumes "length (fy_slots s) = 16" "i < 16" "fy_in_use (fy_slots s ! i)" "rolodex_lookup (fy_target_ip (fy_slots s ! i)) s = None"
    "due (fy_last_attempt (fy_slots s ! i)) ts" "unat (fy_retry_count (fy_slots s ! i)) + length ts \<le> 5"
  shows "let s' = fold (\<lambda>t. foyer_tick t m) ts s; e = fy_slots s ! i; e' = fy_slots s' ! i
    in length (fy_slots s') = 16 \<and> book s' = book s \<and> fy_in_use e' \<and> fy_target_ip e' = fy_target_ip e \<and>
       fy_frame e' = fy_frame e \<and> unat (fy_retry_count e') = unat (fy_retry_count e) + length ts \<and>
       fy_last_attempt e' = last (fy_last_attempt e # ts)"
  using assms
proof (induction ts arbitrary: s)
  case Nil
  then show ?case by simp
next
  case (Cons t ts)
  let ?s = "foyer_tick t m s" and ?e = "fy_slots s ! i"
  have "unat (fy_retry_count ?e) < 5" using Cons.prems(6) by simp
  then have lt: "\<not> 5 \<le> fy_retry_count ?e" and suc: "unat (fy_retry_count ?e + 1) = Suc (unat (fy_retry_count ?e))"
    by (simp_all add: word_le_nat_alt unat_word_ariths)
  have e: "fy_slots ?s ! i = ?e\<lparr>fy_retry_count := fy_retry_count ?e + 1, fy_last_attempt := t\<rparr>"
    using held_retry [OF Cons.prems(1-4), of t m] Cons.prems(5) lt by simp
  note T = foyer_tick_slot(2,3) [OF Cons.prems(1,2), of t m]
  have "rolodex_lookup (fy_target_ip ?e) ?s = None" using Cons.prems(4) lookup_book [OF T(1)] by simp
  then show ?case
    using Cons.IH [of ?s] Cons.prems e T suc by (simp add: Let_def)
qed

text \<open>When only one slot holds a frame, a tick is the visit of that slot.\<close>

definition alone :: "nat \<Rightarrow> 'a foyer_scheme \<Rightarrow> bool" where
  "alone i s \<longleftrightarrow> i < 16 \<and> length (fy_slots s) = 16 \<and> (\<forall>j<16. fy_in_use (fy_slots s ! j) \<longrightarrow> j = i)"

lemma idle_visits: "\<forall>j\<in>set js. \<not> fy_in_use (fy_slots s ! j) \<Longrightarrow> fold (foyer_visit now m) js s = s"
  by (induction js) (simp_all add: foyer_visit_def)

lemma alone_tick:
  fixes s :: "'a foyer_scheme"
  assumes "alone i s"
  shows "foyer_tick now m s = foyer_visit now m i s" "alone i (foyer_visit now m i s)"
proof -
  have i: "i < 16" "\<And>j. j < 16 \<Longrightarrow> j \<noteq> i \<Longrightarrow> \<not> fy_in_use (fy_slots s ! j)" using assms by (auto simp: alone_def)
  have v: "fy_slots (foyer_visit now m i s) ! j = fy_slots s ! j" if "j \<noteq> i" for j
    using foyer_visit_slots [of now m i s] that by simp
  have "[0..<16] = [0..<i] @ i # [Suc i..<16]"
    using i(1) upt_add_eq_append [of 0 i "16 - i"] upt_conv_Cons [of i 16] by simp
  moreover have "fold (foyer_visit now m) [0..<i] s = s" using i by (intro idle_visits) simp
  moreover have "fold (foyer_visit now m) [Suc i..<16] (foyer_visit now m i s) = foyer_visit now m i s"
    using i(2) v by (intro idle_visits) simp
  ultimately show "foyer_tick now m s = foyer_visit now m i s"
    by (simp add: foyer_tick_def FOYER_CAPACITY_def del: upt_Suc upt_rec_numeral)
  show "alone i (foyer_visit now m i s)"
    using assms foyer_visit_slots [of now m i s] by (auto simp: alone_def nth_list_update split: if_splits)
qed

lemma alone_retries:
  fixes s :: "'a foyer_scheme"
  assumes "alone i s" "fy_in_use (fy_slots s ! i)" "rolodex_lookup (fy_target_ip (fy_slots s ! i)) s = None"
    "due (fy_last_attempt (fy_slots s ! i)) ts" "unat (fy_retry_count (fy_slots s ! i)) + length ts \<le> 5"
  shows "let s' = fold (\<lambda>t. foyer_tick t m) ts s
    in alone i s' \<and> fy_dropped_total s' = fy_dropped_total s \<and>
       (can_ask m (fy_target_ip (fy_slots s ! i)) s \<and> gate_ready (length ts) s \<longrightarrow>
        on_line s' = on_line s @ replicate (length ts) (arp_request m (our_ip s) (fy_target_ip (fy_slots s ! i))))"
  using assms
proof (induction ts arbitrary: s)
  case Nil
  then show ?case by simp
next
  case (Cons t ts)
  let ?s = "foyer_tick t m s" and ?e = "fy_slots s ! i"
  let ?e' = "?e\<lparr>fy_retry_count := fy_retry_count ?e + 1, fy_last_attempt := t\<rparr>"
  have "unat (fy_retry_count ?e) < 5" using Cons.prems(5) by simp
  then have lt: "\<not> 5 \<le> fy_retry_count ?e" and suc: "unat (fy_retry_count ?e + 1) = Suc (unat (fy_retry_count ?e))"
    by (simp_all add: word_le_nat_alt unat_word_ariths)
  have i: "i < length (fy_slots s)" using Cons.prems(1) by (simp add: alone_def)
  have late: "\<not> t - fy_last_attempt ?e < 100" using Cons.prems(4) by (simp add: linorder_not_less)
  have "foyer_visit t m i s = (send_arp_request t m (fy_target_ip ?e) s)\<lparr>fy_slots := (fy_slots s)[i := ?e']\<rparr>"
    using Cons.prems(2-3) lt late by (simp add: foyer_visit_def Let_def FOYER_RETRY_INTERVAL_TICK_def FOYER_MAX_RETRIES_def)
  then have tick: "?s = (send_arp_request t m (fy_target_ip ?e) s)\<lparr>fy_slots := (fy_slots s)[i := ?e']\<rparr>"
    using alone_tick(1) [OF Cons.prems(1)] by simp
  have e: "fy_slots ?s ! i = ?e'" using i by (simp add: tick)
  have al: "alone i ?s" using alone_tick [OF Cons.prems(1)] by simp
  have lk: "rolodex_lookup (fy_target_ip ?e) ?s = None" using Cons.prems(3) by (simp add: lookup_entry tick)
  note IH = Cons.IH [OF al, unfolded e, simplified, OF Cons.prems(2) lk]
  have ask: "can_ask m ip ?s = can_ask m ip (send_arp_request t m (fy_target_ip ?e) s)" for ip by (simp add: can_ask_def tick)
  have "on_line ?s = on_line s @ [arp_request m (our_ip s) (fy_target_ip ?e)]" "gate_ready (length ts) ?s"
    "our_ip ?s = our_ip s" "can_ask m (fy_target_ip ?e) ?s"
    if "can_ask m (fy_target_ip ?e) s" "gate_ready (Suc (length ts)) s"
    using arp_on_line [OF that(1), where now = t] that(2) unfolding ask by (simp_all add: tick)
  moreover have "fy_dropped_total ?s = fy_dropped_total s" by (simp add: tick)
  ultimately show ?case using IH Cons.prems(4,5) suc by (auto simp: Let_def)
qed

lemma alone_lapse:
  fixes s :: "'a foyer_scheme"
  assumes "alone i s" "fy_in_use (fy_slots s ! i)" "rolodex_lookup (fy_target_ip (fy_slots s ! i)) s = None"
    "100 \<le> t - fy_last_attempt (fy_slots s ! i)" "fy_retry_count (fy_slots s ! i) = 5"
  shows "fy_dropped_total (foyer_tick t m s) = fy_dropped_total s + 1" "on_line (foyer_tick t m s) = on_line s"
  using assms(2,3,5) assms(4) [folded linorder_not_less]
  by (simp_all add: alone_tick(1) [OF assms(1)] foyer_visit_def Let_def FOYER_RETRY_INTERVAL_TICK_def FOYER_MAX_RETRIES_def)

lemma due_append: "due t0 (ts @ [t]) \<longleftrightarrow> due t0 ts \<and> 100 \<le> t - last (t0 # ts)"
  by (induction ts arbitrary: t0) auto

lemma foyer_up_fields [simp]:
  "fy_slots foyer_up = replicate 16 \<lparr>fy_target_ip = replicate 4 0, fy_frame = replicate 1600 0, fy_len = 0,
     fy_in_use = False, fy_last_attempt = 0, fy_retry_count = 0\<rparr>"
  "book foyer_up = book rolodex_up"
  by (simp_all add: foyer_up_def rolodex.defs foyer.defs FOYER_CAPACITY_def)

lemma foyer_up_ready: "gate_ready 5 foyer_up" "on_line foyer_up = []" "fy_dropped_total foyer_up = 0" "our_ip foyer_up = [10, 0, 2, 15]" "have_our_ip foyer_up"
  by (simp_all add: foyer_up_def rolodex_up_def bailiff_up_def frontdesk_up_def rolodex.defs bailiff.defs foyer.defs frontdesk.defs BAILIFF_MAX_PASSES_def
      gate_ready_def bf_inv_def tx_ready_def fd_inv_def tx_failed_def on_line_def tx_queue_def txq_cells_def ring_read_def)

lemma foyer_queue_known:
  fixes s :: "'a foyer_scheme"
  assumes "0 < len" "len \<le> 1600" "first_idx (\<lambda>e. \<not> fy_in_use e) (fy_slots s) = Some i" "rolodex_lookup ip s = Some mac"
  shows "\<exists>e sent t. fy_in_use e = fy_in_use (fy_slots s ! i) \<and>
    bailiff_transmit now (fy_frame e) len (s\<lparr>fy_slots := (fy_slots s)[i := e]\<rparr>) = (sent, t) \<and>
    foyer_queue now ip our_mac frame len s = (True, if sent then t\<lparr>fy_flushed_total := fy_flushed_total t + 1\<rparr> else t)"
proof -
  define e0 where "e0 = (fy_slots s ! i)\<lparr>fy_len := len, fy_frame := mem_copy (fy_frame (fy_slots s ! i)) frame (unat len),
    fy_target_ip := ip, fy_last_attempt := now, fy_retry_count := 0\<rparr>"
  define e where "e = e0\<lparr>fy_frame := mem_copy (fy_frame e0) mac 6\<rparr>"
  obtain sent t where t: "bailiff_transmit now (fy_frame e) (fy_len e) (s\<lparr>fy_slots := (fy_slots s)[i := e]\<rparr>) = (sent, t)" by (metis surj_pair)
  have len: "\<not> (len = 0 \<or> len > FOYER_MAX_FRAME)"
    using assms(1,2) by (auto simp: FOYER_MAX_FRAME_def BAILIFF_MAX_FRAME_def not_less)
  have "foyer_queue now ip our_mac frame len s = (True, if sent then t\<lparr>fy_flushed_total := fy_flushed_total t + 1\<rparr> else t)"
    unfolding foyer_queue_def if_not_P [OF len] Let_def assms(3,4) option.case e0_def [symmetric] e_def [symmetric] t prod.case ..
  moreover have u: "fy_in_use e = fy_in_use (fy_slots s ! i)" and l: "fy_len e = len" by (simp_all add: e_def e0_def)
  ultimately show ?thesis using t unfolding l by (intro exI conjI)
qed

lemma transmit_full:
  assumes "\<forall>p\<in>set (passes s). pass_in_use p \<and> now - issued_at p \<le> 500"
  shows "\<not> fst (bailiff_transmit now f l s)"
proof -
  have "reclaim_expired now s = s" using assms by (intro reclaim_none) (simp add: active_def BAILIFF_PASS_TIMEOUT_TICKS_def)
  moreover have "first_idx (\<lambda>p. \<not> pass_in_use p) (passes s) = None" using assms by (auto simp: first_idx_None)
  ultimately show ?thesis by (simp add: bailiff_transmit_def bailiff_request_pass_def Let_def)
qed

lemma foyer_queue_full:
  fixes s s' :: "'a foyer_scheme"
  assumes "0 < len" "len \<le> 1600" "first_idx (\<lambda>e. \<not> fy_in_use e) (fy_slots s) = Some i" "rolodex_lookup ip s = Some mac"
    "\<forall>p\<in>set (passes s). pass_in_use p \<and> now - issued_at p \<le> 500" "foyer_queue now ip our_mac frame len s = (r, s')"
  shows "fy_flushed_total s' = fy_flushed_total s"
proof -
  obtain e sent t where t: "bailiff_transmit now (fy_frame e) len (s\<lparr>fy_slots := (fy_slots s)[i := e]\<rparr>) = (sent, t)"
    "foyer_queue now ip our_mac frame len s = (True, if sent then t\<lparr>fy_flushed_total := fy_flushed_total t + 1\<rparr> else t)"
    using foyer_queue_known [OF assms(1-4)] by metis
  have "\<not> sent" using transmit_full [of "s\<lparr>fy_slots := (fy_slots s)[i := e]\<rparr>" now "fy_frame e" len] assms(5) t(1) by simp
  then show ?thesis using t(2) assms(6) transmit_foyer_pair(4) [OF t(1)] by simp
qed

section \<open>Properties\<close>

text \<open>C28. A held frame does not wait forever: with no MAC learned for its target, five due ticks keep the
  frame unchanged and count one retry each, and the sixth due tick frees the slot, whatever the other slots
  hold. If it is the only frame held, the five ticks drop nothing and the sixth counts one
  drop; and if moreover the machine has an address, the gate has a free pass and the RTL8139 driver has room
  for five frames, then each of the five ticks puts one frame on the line, the ARP request that asks
  for the target, and the sixth puts none.\<close>

theorem foyer_gives_up:
  fixes s :: "'a foyer_scheme"
  assumes "length (fy_slots s) = 16" "i < 16" "fy_in_use (fy_slots s ! i)" "fy_retry_count (fy_slots s ! i) = 0"
    "rolodex_lookup (fy_target_ip (fy_slots s ! i)) s = None"
    "length ts = 5" "due (fy_last_attempt (fy_slots s ! i)) (ts @ [t])"
  shows "let s5 = fold (\<lambda>t. foyer_tick t m) ts s; s6 = foyer_tick t m s5
    in fy_in_use (fy_slots s5 ! i) \<and> fy_frame (fy_slots s5 ! i) = fy_frame (fy_slots s ! i) \<and>
       fy_retry_count (fy_slots s5 ! i) = 5 \<and> \<not> fy_in_use (fy_slots s6 ! i) \<and>
       (alone i s \<longrightarrow> foyer_dropped_count s5 = foyer_dropped_count s \<and> foyer_dropped_count s6 = foyer_dropped_count s + 1) \<and>
       (alone i s \<and> can_ask m (fy_target_ip (fy_slots s ! i)) s \<and> gate_ready 5 s \<longrightarrow>
        on_line s5 = on_line s @ replicate 5 (arp_request m (our_ip s) (fy_target_ip (fy_slots s ! i))) \<and> on_line s6 = on_line s5)"
proof -
  define s5 where "s5 = fold (\<lambda>t. foyer_tick t m) ts s"
  have d: "due (fy_last_attempt (fy_slots s ! i)) ts" "100 \<le> t - last (fy_last_attempt (fy_slots s ! i) # ts)"
    using assms(7) by (simp_all only: due_append)
  have R: "length (fy_slots s5) = 16" "book s5 = book s" "fy_in_use (fy_slots s5 ! i)" "fy_target_ip (fy_slots s5 ! i) = fy_target_ip (fy_slots s ! i)"
    "fy_frame (fy_slots s5 ! i) = fy_frame (fy_slots s ! i)" "unat (fy_retry_count (fy_slots s5 ! i)) = 5"
    "fy_last_attempt (fy_slots s5 ! i) = last (fy_last_attempt (fy_slots s ! i) # ts)"
    using held_retries [OF assms(1-3,5) d(1), of m, unfolded Let_def, folded s5_def] assms(4,6)
    by (simp_all del: last.simps)
  have five: "fy_retry_count (fy_slots s5 ! i) = 5" using R(6) by (simp add: word_unat_eq_iff)
  have lk: "rolodex_lookup (fy_target_ip (fy_slots s5 ! i)) s5 = None" using assms(5) R(4) lookup_book [OF R(2)] by simp
  have late: "100 \<le> t - fy_last_attempt (fy_slots s5 ! i)" using R(7) d(2) by simp
  have free: "\<not> fy_in_use (fy_slots (foyer_tick t m s5) ! i)" using held_retry [OF R(1) assms(2) R(3) lk late, of m] five by simp
  have only: "alone i s5" "fy_dropped_total s5 = fy_dropped_total s"
    "can_ask m (fy_target_ip (fy_slots s ! i)) s \<and> gate_ready 5 s \<longrightarrow>
      on_line s5 = on_line s @ replicate 5 (arp_request m (our_ip s) (fy_target_ip (fy_slots s ! i)))" if "alone i s"
    using alone_retries [OF that assms(3,5) d(1), of m, unfolded Let_def, folded s5_def] assms(4,6) by simp_all
  show ?thesis
    using R(3,5) five free only alone_lapse [OF only(1) R(3) lk late five, of m]
    by (simp add: Let_def foyer_dropped_count_def flip: s5_def)
qed

theorem foyer_gives_up_witness:
  "let e = \<lparr>fy_target_ip = [10, 0, 2, 9], fy_frame = replicate 1600 0, fy_len = 60, fy_in_use = True, fy_last_attempt = 7, fy_retry_count = 0\<rparr>;
       s5 = fold (\<lambda>t. foyer_tick t [1, 2, 3, 4, 5, 6]) [107, 207, 307, 407, 507] (foyer_up\<lparr>fy_slots := (fy_slots foyer_up)[2 := e]\<rparr>);
       s6 = foyer_tick 607 [1, 2, 3, 4, 5, 6] s5
   in fy_retry_count (fy_slots s5 ! 2) = 5 \<and> \<not> fy_in_use (fy_slots s6 ! 2) \<and> foyer_dropped_count s6 = 1 \<and>
      on_line s6 = replicate 5 (arp_request [1, 2, 3, 4, 5, 6] [10, 0, 2, 15] [10, 0, 2, 9])"
proof -
  let ?e = "\<lparr>fy_target_ip = [10, 0, 2, 9], fy_frame = replicate 1600 0, fy_len = 60, fy_in_use = True, fy_last_attempt = 7, fy_retry_count = 0\<rparr>"
  let ?s = "foyer_up\<lparr>fy_slots := (fy_slots foyer_up)[2 := ?e]\<rparr>"
  have e: "fy_slots ?s ! 2 = ?e" "length (fy_slots ?s) = 16" by simp_all
  have "rolodex_lookup [10, 0, 2, 9] rolodex_up = None"
    by (simp add: lookup_entry book_entry_view)
  then have n: "rolodex_lookup (fy_target_ip (fy_slots ?s ! 2)) ?s = None" by (simp add: lookup_entry)
  have h: "(2 :: nat) < 16" "fy_in_use (fy_slots ?s ! 2)" "fy_retry_count (fy_slots ?s ! 2) = 0"
    "length [107, 207, 307, 407, 507 :: u32] = 5" "due (fy_last_attempt (fy_slots ?s ! 2)) ([107, 207, 307, 407, 507] @ [607])"
    unfolding e by simp_all
  have r: "alone 2 ?s" "can_ask [1, 2, 3, 4, 5, 6] (fy_target_ip (fy_slots ?s ! 2)) ?s" "gate_ready 5 ?s" "foyer_dropped_count ?s = 0"
    "on_line ?s = []" "our_ip ?s = [10, 0, 2, 15]"
    using foyer_up_ready by (auto simp: alone_def nth_list_update can_ask_def foyer_dropped_count_def)
  show ?thesis
    using foyer_gives_up [OF e(2) h(1-3) n h(4,5), of "[1, 2, 3, 4, 5, 6]"] r e(1) unfolding Let_def by simp
qed

text \<open>When the MAC is known but the transmit gate or the driver refuses the frame, \<^verbatim>\<open>foyer_queue\<close> still
  reports success: no slot holds the frame, and neither the flushed nor the dropped counter changes.\<close>

theorem foyer_queue_silent_loss:
  fixes s s' :: "'a foyer_scheme"
  assumes "0 < len" "len \<le> 1600" "first_idx (\<lambda>e. \<not> fy_in_use e) (fy_slots s) = Some i" "rolodex_lookup ip s = Some mac"
    "foyer_queue now ip our_mac frame len s = (r, s')" "fy_flushed_total s' = fy_flushed_total s"
  shows "r \<and> fy_dropped_total s' = fy_dropped_total s \<and> map fy_in_use (fy_slots s') = map fy_in_use (fy_slots s)"
proof -
  obtain e sent t where t: "fy_in_use e = fy_in_use (fy_slots s ! i)"
    "bailiff_transmit now (fy_frame e) len (s\<lparr>fy_slots := (fy_slots s)[i := e]\<rparr>) = (sent, t)"
    "foyer_queue now ip our_mac frame len s = (True, if sent then t\<lparr>fy_flushed_total := fy_flushed_total t + 1\<rparr> else t)"
    using foyer_queue_known [OF assms(1-4)] by metis
  have "map fy_in_use ((fy_slots s)[i := e]) = map fy_in_use (fy_slots s)"
    unfolding map_update t(1) by (metis list_update_id map_update)
  then show ?thesis using t(3) assms(5) transmit_foyer_pair [OF t(2)] by (auto split: if_splits)
qed

theorem foyer_queue_silent_loss_witness:
  "let s = foyer_up\<lparr>passes := replicate 32 \<lparr>pass_id = 1, declared_len = 1, content_checksum = 0, issued_at = 0, pass_in_use = True\<rparr>,
         book := (book foyer_up)[0 := \<lparr>rx_ip = [10, 0, 2, 2], rx_mac = [1, 2, 3, 4, 5, 6], rx_last_seen = 0, rx_in_use = True, rx_disputed = False\<rparr>]\<rparr>;
       (r, s') = foyer_queue 9 [10, 0, 2, 2] [6, 5, 4, 3, 2, 1] (replicate 60 0) 60 s
   in r \<and> fy_dropped_total s' = fy_dropped_total s \<and> map fy_in_use (fy_slots s') = map fy_in_use (fy_slots s)"
proof -
  define s where "s = foyer_up\<lparr>passes := replicate 32 \<lparr>pass_id = 1, declared_len = 1, content_checksum = 0, issued_at = 0, pass_in_use = True\<rparr>,
    book := (book foyer_up)[0 := \<lparr>rx_ip = [10, 0, 2, 2], rx_mac = [1, 2, 3, 4, 5, 6], rx_last_seen = 0, rx_in_use = True, rx_disputed = False\<rparr>]\<rparr>"
  have i: "first_idx (\<lambda>e. \<not> fy_in_use e) (fy_slots s) = Some 0" by (simp add: s_def numeral_eq_Suc)
  have l: "rolodex_lookup [10, 0, 2, 2] s = Some [1, 2, 3, 4, 5, 6]"
    by (simp add: s_def rolodex_lookup_def rolodex_find_entry_def slot_find_def numeral_eq_Suc)
  have full: "\<forall>p\<in>set (passes s). pass_in_use p \<and> 9 - issued_at p \<le> 500" by (simp add: s_def)
  obtain r s' where q: "foyer_queue 9 [10, 0, 2, 2] [6, 5, 4, 3, 2, 1] (replicate 60 0) 60 s = (r, s')" by (metis surj_pair)
  have "fy_flushed_total s' = fy_flushed_total s"
    using foyer_queue_full [OF _ _ i l full q] by simp
  from foyer_queue_silent_loss [OF _ _ i l q this] show ?thesis unfolding s_def [symmetric] Let_def q by simp
qed

end
