(* ===== verification/Checksum.thy ===== *)
theory Checksum
  imports Wire
begin

text \<open>
  The Internet checksum as the IPv4, ICMP, UDP and TCP code uses it: the sum of a buffer's words on
  top of a start value (the pseudo-header's words), folded, tested against 0xFFFF by a receiver and
  complemented into the checksum field by a sender; and the IPv4 header every sender builds.
\<close>

section \<open>Model\<close>

definition inet_sum :: "u32 \<Rightarrow> bytes \<Rightarrow> u32" where
  "inet_sum s p = csum_fold (s + csum_words p)"

definition inet_ok :: "u32 \<Rightarrow> bytes \<Rightarrow> bool" where
  "inet_ok s p \<longleftrightarrow> inet_sum s p = 0xFFFF"

definition inet_checksum :: "u32 \<Rightarrow> bytes \<Rightarrow> u16" where
  "inet_checksum s p = ucast (0xFFFF - inet_sum s p)"

text \<open>The words of a pseudo-header: both addresses, the protocol and the length.\<close>

definition pseudo_sum :: "bytes \<Rightarrow> bytes \<Rightarrow> u32 \<Rightarrow> u16 \<Rightarrow> u32" where
  "pseudo_sum src dst proto len = csum_words (take 4 src) + csum_words (take 4 dst) + proto + ucast len"

text \<open>The 20-byte header the senders write: checksum field 0 first, then patched in.\<close>

definition ipv4_header :: "u16 \<Rightarrow> u8 \<Rightarrow> bytes \<Rightarrow> bytes \<Rightarrow> bytes" where
  "ipv4_header tot proto src dst =
     (let front = [0x45, 0] @ put16 tot @ [0, 0, 0, 0, 64, proto]; addrs = take 4 src @ take 4 dst
      in front @ put16 (inet_checksum 0 (front @ put16 0 @ addrs)) @ addrs)"

section \<open>A checksum written by a sender satisfies the receiver\<close>

lemma inet_sum_nat:
  assumes "length p \<le> 60000" "unat s \<le> 300000000"
  shows "unat (inet_sum s p) = ones_mod (unat s + words_nat p)"
proof -
  have w: "unat (csum_words p) = words_nat p" using csum_words_nat [of p] assms(1) by simp
  have "unat s + words_nat p < 2 ^ 32" using assms words_nat_bound [of p] by simp
  then show ?thesis by (simp add: inet_sum_def csum_fold_ones unat_add_no_wrap w)
qed

lemma inet_ok_nat:
  "length p \<le> 60000 \<Longrightarrow> unat s \<le> 300000000 \<Longrightarrow> inet_ok s p \<longleftrightarrow> ones_mod (unat s + words_nat p) = 65535"
  by (simp add: inet_ok_def word_unat_eq_iff inet_sum_nat)

lemma ones_mod_le: "ones_mod n \<le> 65535"
  by (simp add: ones_mod_def less_imp_le)

lemma inet_checksum_nat:
  assumes "length p \<le> 60000" "unat s \<le> 300000000"
  shows "unat (inet_checksum s p) = 65535 - ones_mod (unat s + words_nat p)"
proof -
  have n: "unat (inet_sum s p) = ones_mod (unat s + words_nat p)" by (rule inet_sum_nat [OF assms])
  then have "inet_sum s p \<le> 0xFFFF" using ones_mod_le by (simp add: word_le_nat_alt)
  then have "unat (0xFFFF - inet_sum s p) = 65535 - ones_mod (unat s + words_nat p)" by (simp add: unat_sub n)
  then show ?thesis by (simp add: inet_checksum_def unsigned_ucast_eq take_bit_eq_mod)
qed

lemma inet_patch:
  assumes "even (length a)" "length (a @ put16 0 @ b) \<le> 60000" "unat s \<le> 300000000"
  shows "inet_ok s (a @ put16 (inet_checksum s (a @ put16 0 @ b)) @ b)"
proof -
  have w: "words_nat (a @ put16 x @ b) = words_nat a + unat x + words_nat b" for x
    using assms(1) by (simp add: words_nat_append words_nat_put16)
  show ?thesis
    using assms(2,3) ones_mod_complement [of "unat s + (words_nat a + words_nat b)"]
    by (simp add: inet_ok_nat w inet_checksum_nat ac_simps)
qed

text \<open>UDP never sends 0, which stands for no checksum, but the other zero, 0xFFFF.\<close>

lemma inet_patch_ffff:
  assumes "even (length a)" "length (a @ put16 0 @ b) \<le> 60000" "unat s \<le> 300000000" "inet_checksum s (a @ put16 0 @ b) = 0"
  shows "inet_ok s (a @ put16 0xFFFF @ b)"
proof -
  have w: "words_nat (a @ put16 x @ b) = words_nat a + unat x + words_nat b" for x
    using assms(1) by (simp add: words_nat_append words_nat_put16)
  have "unat (inet_checksum s (a @ put16 0 @ b)) = 65535 - ones_mod (unat s + words_nat (a @ put16 0 @ b))"
    using assms(2,3) by (rule inet_checksum_nat)
  then have "ones_mod (unat s + words_nat a + words_nat b) = 65535"
    using assms(4) ones_mod_le [of "unat s + words_nat a + words_nat b"] by (simp add: w add.assoc)
  then have "ones_mod (unat s + words_nat a + words_nat b + 65535) = 65535"
    by (auto simp: ones_mod_def split: if_splits)
  moreover have "unat (0xFFFF :: u16) = 65535" by simp
  ultimately have "ones_mod (unat s + words_nat (a @ put16 0xFFFF @ b)) = 65535" unfolding w by (simp only: ac_simps)
  then show ?thesis using assms(2,3) by (simp add: inet_ok_nat)
qed

lemma pseudo_sum_bound: "unat proto \<le> 255 \<Longrightarrow> unat (pseudo_sum src dst proto len) \<le> 300000000"
proof -
  assume p: "unat proto \<le> 255"
  have four: "unat (csum_words (take 4 x)) \<le> 262140" for x
    using csum_words_nat [of "take 4 x"] words_nat_bound [of "take 4 x"] by simp
  have "unat (ucast len :: u32) = unat len" using unsigned_less [of len] by (simp add: unsigned_ucast_eq take_bit_eq_mod)
  moreover have "unat len < 2 ^ 16" using unsigned_less [of len] by simp
  ultimately have l: "unat (ucast len :: u32) \<le> 65535" by simp
  have add: "unat (a + b) \<le> unat a + unat b" for a b :: u32 by (simp add: unat_word_ariths)
  show ?thesis
    using add [of "csum_words (take 4 src) + csum_words (take 4 dst) + proto" "ucast len"]
      add [of "csum_words (take 4 src) + csum_words (take 4 dst)" proto] add [of "csum_words (take 4 src)" "csum_words (take 4 dst)"]
      four [of src] four [of dst] p l
    unfolding pseudo_sum_def by linarith
qed

lemma length_ipv4_header [simp]: "length src = 4 \<Longrightarrow> length dst = 4 \<Longrightarrow> length (ipv4_header t p src dst) = 20"
  by (simp add: ipv4_header_def Let_def)

lemma ipv4_header_ok: "length src = 4 \<Longrightarrow> length dst = 4 \<Longrightarrow> inet_ok 0 (ipv4_header t p src dst)"
  unfolding ipv4_header_def Let_def by (rule inet_patch) simp_all

lemma ipv4_header_fields:
  assumes "length src = 4" "length dst = 4"
  shows "ipv4_header t p src dst ! 0 = 0x45" "be16 (ipv4_header t p src dst @ rest) 2 = t"
    "be16 (ipv4_header t p src dst @ rest) 6 = 0" "ipv4_header t p src dst ! 9 = p"
    "take 4 (drop 12 (ipv4_header t p src dst @ rest)) = src" "take 4 (drop 16 (ipv4_header t p src dst @ rest)) = dst"
proof -
  obtain c where h: "ipv4_header t p src dst = [0x45, 0] @ put16 t @ [0, 0, 0, 0, 64, p] @ put16 c @ src @ dst"
    using assms by (simp add: ipv4_header_def Let_def)
  show "be16 (ipv4_header t p src dst @ rest) 2 = t"
    using be16_put16 [of "[0x45, 0]" t "[0, 0, 0, 0, 64, p] @ put16 c @ src @ dst @ rest"] by (simp add: h numeral_2_eq_2)
  show "ipv4_header t p src dst ! 0 = 0x45" "be16 (ipv4_header t p src dst @ rest) 6 = 0" "ipv4_header t p src dst ! 9 = p"
    "take 4 (drop 12 (ipv4_header t p src dst @ rest)) = src" "take 4 (drop 16 (ipv4_header t p src dst @ rest)) = dst"
    unfolding h using assms by (simp_all add: put16_def be16_def)
qed

lemma be16_append: "i + 1 < length xs \<Longrightarrow> be16 (xs @ ys) i = be16 xs i"
  by (simp add: be16_def nth_append)

end
