(* ===== verification/Echo.thy ===== *)
theory Echo
  imports Foyer Checksum
begin

text \<open>
  ICMP echo, \<^verbatim>\<open>Networking/IPv4/Echo/echo.c\<close>: requests are checked and queued (8 at most), replies are
  built from the queue, framed for the requester's MAC and given to the transmit gate. The output
  buffer of \<^verbatim>\<open>echo_build_reply\<close> is its written prefix.
\<close>

section \<open>Model\<close>

definition ICMP_MIN_HEADER :: u16 where "ICMP_MIN_HEADER = 8"
definition ICMP_ECHO_REQUEST :: u8 where "ICMP_ECHO_REQUEST = 8"
definition ICMP_ECHO_REPLY :: u8 where "ICMP_ECHO_REPLY = 0"
definition ECHO_MAX_PENDING :: nat where "ECHO_MAX_PENDING = 8"
definition ECHO_MAX_PAYLOAD :: u16 where "ECHO_MAX_PAYLOAD = 512"

datatype icmp_verdict_t = ICMP_ACCEPT | ICMP_REJECT_TOO_SHORT | ICMP_REJECT_BAD_CHECKSUM
  | ICMP_REJECT_NOT_ECHO_REQUEST | ICMP_REJECT_PAYLOAD_TOO_LARGE

record pending_ping_t =
  pp_src_ip :: bytes
  pp_identifier :: u16
  pp_sequence :: u16
  pp_payload_len :: u16
  pp_payload :: bytes

record echo = foyer +
  ec_accepted :: u32
  ec_rejected :: u32
  ec_queue :: "pending_ping_t list"
  ec_head :: nat
  ec_tail :: nat
  ec_pending_count :: nat
  last_reply_frame :: bytes
  last_reply_len :: u16

definition echo_up :: echo where
  "echo_up = foyer.extend foyer_up
     (echo.fields 0 0 (replicate ECHO_MAX_PENDING \<lparr>pp_src_ip = replicate 4 0, pp_identifier = 0, pp_sequence = 0,
        pp_payload_len = 0, pp_payload = replicate 512 0\<rparr>) 0 0 0 (replicate 554 0) 0)"

definition icmp_checksum :: "bytes \<Rightarrow> u16 \<Rightarrow> u16" where
  "icmp_checksum data len = inet_checksum 0 (take (unat len) data)"

definition echo_check :: "bytes \<Rightarrow> u16 \<Rightarrow> icmp_verdict_t" where
  "echo_check payload len =
     (if len < ICMP_MIN_HEADER then ICMP_REJECT_TOO_SHORT
      else if inet_sum 0 (take (unat len) payload) \<noteq> 0xFFFF then ICMP_REJECT_BAD_CHECKSUM
      else if payload ! 0 \<noteq> ICMP_ECHO_REQUEST then ICMP_REJECT_NOT_ECHO_REQUEST
      else if len - ICMP_MIN_HEADER > ECHO_MAX_PAYLOAD then ICMP_REJECT_PAYLOAD_TOO_LARGE
      else ICMP_ACCEPT)"

definition echo_handle :: "bytes \<Rightarrow> u16 \<Rightarrow> bytes \<Rightarrow> bytes \<Rightarrow> 'a echo_scheme \<Rightarrow> 'a echo_scheme" where
  "echo_handle payload len src_ip dst_ip s =
     (if echo_check payload len \<noteq> ICMP_ACCEPT then s\<lparr>ec_rejected := ec_rejected s + 1\<rparr>
      else
        let s = s\<lparr>ec_accepted := ec_accepted s + 1\<rparr>;
            identifier = be16 payload 4; seq = be16 payload 6; payload_len = len - ICMP_MIN_HEADER
        in if ec_pending_count s \<ge> ECHO_MAX_PENDING then s
           else
             let p = ec_queue s ! ec_tail s;
                 p = p\<lparr>pp_src_ip := take 4 src_ip, pp_identifier := identifier, pp_sequence := seq, pp_payload_len := payload_len,
                       pp_payload := mem_copy (pp_payload p) (drop (unat ICMP_MIN_HEADER) payload) (unat payload_len)\<rparr>
             in s\<lparr>ec_queue := (ec_queue s)[ec_tail s := p], ec_tail := (ec_tail s + 1) mod ECHO_MAX_PENDING,
                  ec_pending_count := ec_pending_count s + 1\<rparr>)"

definition echo_build_reply :: "'a echo_scheme \<Rightarrow> (bytes \<times> u16 \<times> bytes) option \<times> 'a echo_scheme" where
  "echo_build_reply s =
     (if ec_pending_count s = 0 then (None, s)
      else
        let p = ec_queue s ! ec_head s;
            rest = put16 (pp_identifier p) @ put16 (pp_sequence p) @ take (unat (pp_payload_len p)) (pp_payload p);
            total_len = ICMP_MIN_HEADER + pp_payload_len p;
            csum = icmp_checksum ([ICMP_ECHO_REPLY, 0] @ put16 0 @ rest) total_len
        in (Some ([ICMP_ECHO_REPLY, 0] @ put16 csum @ rest, total_len, pp_src_ip p),
            s\<lparr>ec_head := (ec_head s + 1) mod ECHO_MAX_PENDING, ec_pending_count := ec_pending_count s - 1\<rparr>))"

definition echo_dispatch_reply :: "u32 \<Rightarrow> bytes \<Rightarrow> bytes \<Rightarrow> 'a echo_scheme \<Rightarrow> u32 option \<times> 'a echo_scheme" where
  "echo_dispatch_reply now our_mac ip s =
     (case echo_build_reply s of
        (None, s) \<Rightarrow> (None, s)
      | (Some (icmp, icmp_len, dest_ip), s) \<Rightarrow>
          (case rolodex_lookup dest_ip s of
             None \<Rightarrow> (None, s)
           | Some dest_mac \<Rightarrow>
               let ip_total = 20 + icmp_len;
                   frame = take 6 dest_mac @ take 6 our_mac @ [0x08, 0x00] @ ipv4_header ip_total 1 ip dest_ip @ take (unat icmp_len) icmp;
                   total_frame_len = 14 + 20 + icmp_len;
                   s = s\<lparr>last_reply_frame := mem_copy (last_reply_frame s) frame (unat total_frame_len), last_reply_len := total_frame_len\<rparr>
               in bailiff_request_pass now (last_reply_frame s) total_frame_len s))"

definition echo_last_frame :: "'a echo_scheme \<Rightarrow> bytes" where
  "echo_last_frame s = last_reply_frame s"

definition echo_last_len :: "'a echo_scheme \<Rightarrow> u16" where
  "echo_last_len s = last_reply_len s"

definition echo_accepted_count :: "'a echo_scheme \<Rightarrow> u32" where
  "echo_accepted_count s = ec_accepted s"

definition echo_rejected_count :: "'a echo_scheme \<Rightarrow> u32" where
  "echo_rejected_count s = ec_rejected s"

fun icmp_verdict_string :: "icmp_verdict_t \<Rightarrow> string" where
  "icmp_verdict_string ICMP_ACCEPT = ''ACCEPT''"
| "icmp_verdict_string ICMP_REJECT_TOO_SHORT = ''REJECT (too short)''"
| "icmp_verdict_string ICMP_REJECT_BAD_CHECKSUM = ''REJECT (checksum failed)''"
| "icmp_verdict_string ICMP_REJECT_NOT_ECHO_REQUEST =
     ''REJECT (not an echo request - we don't originate pings without a transmit path, and don't respond to anything else)''"
| "icmp_verdict_string ICMP_REJECT_PAYLOAD_TOO_LARGE = ''REJECT (payload too large)''"

section \<open>The queue of pings\<close>

text \<open>A ping as its sender sees it: address, identifier, sequence number and data.\<close>

type_synonym ping = "bytes \<times> u16 \<times> u16 \<times> bytes"

definition ping_of :: "pending_ping_t \<Rightarrow> ping" where
  "ping_of p = (pp_src_ip p, pp_identifier p, pp_sequence p, take (unat (pp_payload_len p)) (pp_payload p))"

definition echo_pings :: "'a echo_scheme \<Rightarrow> ping list" where
  "echo_pings s = map ping_of (ring_read (ec_queue s) (ec_head s) (ec_pending_count s))"

definition ping_ok :: "pending_ping_t \<Rightarrow> bool" where
  "ping_ok p \<longleftrightarrow> length (pp_payload p) = 512 \<and> unat (pp_payload_len p) \<le> 512"

definition echo_inv :: "'a echo_scheme \<Rightarrow> bool" where
  "echo_inv s \<longleftrightarrow> length (ec_queue s) = 8 \<and> ec_head s < 8 \<and> ec_pending_count s \<le> 8 \<and>
     ec_tail s = (ec_head s + ec_pending_count s) mod 8 \<and> list_all ping_ok (ec_queue s)"

text \<open>The ICMP message of a ping, of the given type.\<close>

definition icmp_message :: "u8 \<Rightarrow> u16 \<Rightarrow> u16 \<Rightarrow> bytes \<Rightarrow> bytes" where
  "icmp_message type ident seq data =
     (let rest = put16 ident @ put16 seq @ data
      in [type, 0] @ put16 (inet_checksum 0 ([type, 0] @ put16 0 @ rest)) @ rest)"

lemma icmp_message_parts:
  "length (icmp_message type ident seq data) = 8 + length data" "icmp_message type ident seq data ! 0 = type"
  "be16 (icmp_message type ident seq data) 4 = ident" "be16 (icmp_message type ident seq data) 6 = seq"
  "drop 8 (icmp_message type ident seq data) = data"
proof -
  obtain c where h: "icmp_message type ident seq data = [type, 0] @ put16 c @ put16 ident @ put16 seq @ data"
    by (simp add: icmp_message_def Let_def)
  show "be16 (icmp_message type ident seq data) 4 = ident"
    using be16_put16 [of "[type, 0] @ put16 c" ident "put16 seq @ data"] by (simp add: h eval_nat_numeral)
  show "be16 (icmp_message type ident seq data) 6 = seq"
    using be16_put16 [of "[type, 0] @ put16 c @ put16 ident" seq data] by (simp add: h eval_nat_numeral)
qed (simp_all add: icmp_message_def Let_def put16_def)

lemma icmp_message_ok: "length data \<le> 512 \<Longrightarrow> inet_ok 0 (icmp_message type ident seq data)"
  unfolding icmp_message_def Let_def by (rule inet_patch) simp_all

text \<open>A ping arriving as its ICMP message, and a reply as the requester reads it: a message that is not
  a valid echo reply reads as nothing.\<close>

definition ping_fits :: "ping \<Rightarrow> bool" where
  "ping_fits = (\<lambda>(ip, ident, seq, data). length ip = 4 \<and> length data \<le> 512)"

definition echo_put :: "ping \<Rightarrow> 'a echo_scheme \<Rightarrow> bool \<times> 'a echo_scheme" where
  "echo_put x s = (case x of (ip, ident, seq, data) \<Rightarrow>
     if \<not> ping_fits x then (False, s)
     else (ec_pending_count s < ECHO_MAX_PENDING,
           echo_handle (icmp_message ICMP_ECHO_REQUEST ident seq data) (of_nat (8 + length data)) ip (our_ip s) s))"

definition reply_read :: "bytes \<times> u16 \<times> bytes \<Rightarrow> ping option" where
  "reply_read = (\<lambda>(b, len, ip). if length b = unat len \<and> inet_ok 0 b \<and> b ! 0 = ICMP_ECHO_REPLY
     then Some (ip, be16 b 4, be16 b 6, drop 8 b) else None)"

definition echo_get :: "'a echo_scheme \<Rightarrow> ping option \<times> 'a echo_scheme" where
  "echo_get s = (case echo_build_reply s of (r, s) \<Rightarrow> (case r of None \<Rightarrow> None | Some x \<Rightarrow> reply_read x, s))"

lemma echo_invD:
  assumes "echo_inv s"
  shows "length (ec_queue s) = 8" "ec_head s < 8" "ec_pending_count s \<le> 8" "ec_tail s = (ec_head s + ec_pending_count s) mod 8"
    "i < 8 \<Longrightarrow> length (pp_payload (ec_queue s ! i)) = 512 \<and> unat (pp_payload_len (ec_queue s ! i)) \<le> 512"
  using assms by (auto simp: echo_inv_def ping_ok_def list_all_length)

lemma unat_icmp_len: "n \<le> 512 \<Longrightarrow> unat (of_nat (8 + n) :: u16) = 8 + n" "n \<le> 512 \<Longrightarrow> (of_nat (8 + n) :: u16) - ICMP_MIN_HEADER = of_nat n"
  "n \<le> 512 \<Longrightarrow> unat (of_nat n :: u16) = n"
  by (simp add: unat_of_nat del: of_nat_add, simp add: ICMP_MIN_HEADER_def, simp add: unat_of_nat)

lemma echo_check_message:
  assumes "length data \<le> 512"
  shows "echo_check (icmp_message ICMP_ECHO_REQUEST ident seq data) (of_nat (8 + length data)) = ICMP_ACCEPT"
proof -
  have "\<not> (of_nat (8 + length data) :: u16) < ICMP_MIN_HEADER"
    using unat_icmp_len(1) [OF assms] by (simp add: word_less_nat_alt ICMP_MIN_HEADER_def del: of_nat_add)
  moreover have "\<not> (of_nat (8 + length data) :: u16) - ICMP_MIN_HEADER > ECHO_MAX_PAYLOAD"
    unfolding unat_icmp_len(2) [OF assms] using unat_icmp_len(3) [OF assms] assms
    by (simp add: word_less_nat_alt ECHO_MAX_PAYLOAD_def)
  moreover have "inet_sum 0 (take (unat (of_nat (8 + length data) :: u16)) (icmp_message ICMP_ECHO_REQUEST ident seq data)) = 0xFFFF"
    unfolding unat_icmp_len(1) [OF assms] using icmp_message_ok [OF assms] by (simp add: icmp_message_parts(1) inet_ok_def)
  ultimately show ?thesis by (simp add: echo_check_def icmp_message_parts(2) del: of_nat_add)
qed

lemma echo_put_accepted:
  assumes inv: "echo_inv s" and fits: "ping_fits x" and room: "length (echo_pings s) < 8"
  shows "fst (echo_put x s) \<and> echo_inv (snd (echo_put x s)) \<and> echo_pings (snd (echo_put x s)) = echo_pings s @ [x]"
proof -
  obtain ip ident seq data where x: "x = (ip, ident, seq, data)" by (cases x)
  have len: "length ip = 4" "length data \<le> 512" using fits by (simp_all add: x ping_fits_def)
  note D = echo_invD [OF inv]
  have pend: "ec_pending_count s < 8" using room by (simp add: echo_pings_def)
  have t: "ec_tail s < 8" using D(4) by simp
  define p where "p = (ec_queue s ! ec_tail s)\<lparr>pp_src_ip := ip, pp_identifier := ident, pp_sequence := seq,
    pp_payload_len := of_nat (length data), pp_payload := mem_copy (pp_payload (ec_queue s ! ec_tail s)) data (length data)\<rparr>"
  define s' where "s' = s\<lparr>ec_accepted := ec_accepted s + 1, ec_queue := (ec_queue s)[ec_tail s := p],
    ec_tail := (ec_tail s + 1) mod 8, ec_pending_count := ec_pending_count s + 1\<rparr>"
  have run: "echo_put x s = (True, s')"
    using fits pend len(1) unat_icmp_len(2,3) [OF len(2)] echo_check_message [OF len(2), of ident seq]
    by (simp add: x echo_put_def echo_handle_def icmp_message_parts ECHO_MAX_PENDING_def Let_def s'_def p_def ICMP_MIN_HEADER_def del: of_nat_add)
  have "ping_ok p" using D(5) [OF t] len by (simp add: p_def ping_ok_def unat_of_nat)
  then have "echo_inv s'"
    using inv pend by (auto simp: s'_def echo_inv_def list_all_iff mod_Suc_eq dest!: set_update_subset_insert [THEN subsetD])
  moreover have "ping_of p = x" using len by (simp add: p_def ping_of_def x unat_of_nat)
  then have "echo_pings s' = echo_pings s @ [x]"
    using ring_read_push [of "ec_pending_count s" "ec_queue s" "ec_head s" p] D pend by (simp add: echo_pings_def s'_def)
  ultimately show ?thesis using run by simp
qed

lemma echo_put_refused:
  assumes "echo_inv s" "\<not> ping_fits x \<or> length (echo_pings s) = 8"
  shows "\<not> fst (echo_put x s) \<and> echo_inv (snd (echo_put x s)) \<and> echo_pings (snd (echo_put x s)) = echo_pings s"
proof (cases "ping_fits x")
  case True
  then have "ec_pending_count s = 8" using assms(2) by (simp add: echo_pings_def)
  then show ?thesis
    using assms(1) by (auto simp: echo_put_def echo_handle_def ECHO_MAX_PENDING_def Let_def echo_inv_def echo_pings_def split: prod.split)
next
  case False
  then show ?thesis using assms(1) by (simp add: echo_put_def split: prod.split)
qed

lemma echo_get_oldest:
  assumes inv: "echo_inv s" and ne: "echo_pings s = x # xs"
  shows "fst (echo_get s) = Some x \<and> echo_inv (snd (echo_get s)) \<and> echo_pings (snd (echo_get s)) = xs"
proof -
  note D = echo_invD [OF inv]
  obtain n where n: "ec_pending_count s = Suc n" using ne by (cases "ec_pending_count s") (auto simp: echo_pings_def)
  define p where "p = ec_queue s ! ec_head s"
  define data where "data = take (unat (pp_payload_len p)) (pp_payload p)"
  have x: "x = ping_of p" "xs = map ping_of (ring_read (ec_queue s) ((ec_head s + 1) mod 8) n)"
    using ne n ring_read_pop [of "ec_head s" "ec_queue s" n] D(1,2) by (simp_all add: echo_pings_def p_def)
  have p: "length (pp_payload p) = 512" "unat (pp_payload_len p) \<le> 512" using D(5) [OF D(2)] by (simp_all add: p_def)
  then have len: "length data = unat (pp_payload_len p)" "length data \<le> 512" by (simp_all add: data_def)
  have tl: "unat (ICMP_MIN_HEADER + pp_payload_len p) = 8 + length data"
    using len p by (simp add: ICMP_MIN_HEADER_def unat_word_ariths)
  define s' where "s' = s\<lparr>ec_head := (ec_head s + 1) mod 8, ec_pending_count := n\<rparr>"
  have b: "echo_build_reply s = (Some (icmp_message 0 (pp_identifier p) (pp_sequence p) data, ICMP_MIN_HEADER + pp_payload_len p, pp_src_ip p), s')"
    using n tl by (simp add: echo_build_reply_def icmp_message_def icmp_checksum_def Let_def ICMP_ECHO_REPLY_def ECHO_MAX_PENDING_def s'_def flip: p_def data_def)
  have "echo_inv s'" using inv n by (simp add: s'_def echo_inv_def mod_add_left_eq mod_Suc_eq)
  then show ?thesis
    using b x icmp_message_ok [OF len(2)] D tl len(1)
    by (simp add: echo_get_def reply_read_def icmp_message_parts ICMP_ECHO_REPLY_def ping_of_def data_def echo_pings_def s'_def)
qed

interpretation pings: bounded_fifo echo_put echo_get ping_fits echo_pings 8 echo_inv
proof unfold_locales
  fix s :: "'a echo_scheme" and x
  show "echo_inv s \<Longrightarrow> length (echo_pings s) \<le> 8" using echo_invD(3) by (simp add: echo_pings_def)
  show "echo_inv s \<Longrightarrow> echo_pings s = [] \<Longrightarrow> echo_get s = (None, s)"
    by (simp add: echo_get_def echo_build_reply_def echo_pings_def ring_read_def)
qed (fact echo_put_refused echo_put_accepted echo_get_oldest)+

section \<open>Properties\<close>

text \<open>C32. Whatever requests arrive and replies are built, the pings answered followed by those still
  queued are exactly the pings queued before followed by those accepted, in order. Each reply is a
  valid ICMP echo reply to the requester: its checksum verifies, and it carries the request's
  identifier, sequence number and data.\<close>

theorem echo_answers_in_order:
  assumes "echo_inv s" "fifo_run echo_put echo_get ops s = (acc, got, s')"
  shows "echo_pings s @ acc = got @ echo_pings s' \<and> length (echo_pings s') \<le> 8"
  using pings.run_in_order [OF assms] pings.bounded by blast

lemma echo_inv_up: "echo_inv echo_up"
  by (simp add: echo_up_def foyer.defs echo.defs echo_inv_def ECHO_MAX_PENDING_def ping_ok_def list_all_length)

theorem echo_answers_in_order_witness:
  "\<exists>acc got s'. fifo_run echo_put echo_get [Put ([10, 0, 2, 2], 7, 1, [1, 2, 3]), Get] echo_up = (acc, got, s') \<and>
     echo_pings echo_up @ acc = got @ echo_pings s'"
proof -
  obtain acc got s' where r: "fifo_run echo_put echo_get [Put ([10, 0, 2, 2], 7, 1, [1, 2, 3]), Get] echo_up = (acc, got, s')"
    by (rule prod_cases3)
  then show ?thesis using echo_answers_in_order [OF echo_inv_up r] by blast
qed

end
