(* ===== verification/PostCard.thy ===== *)
theory PostCard
  imports Echo Postbox Menu Atlas Sentry
begin

text \<open>
  UDP, \<^verbatim>\<open>Networking/IPv4/PostCard/postcard.c\<close>: a datagram is checked, shown to the port-scan detector,
  refused unless its port is open and somebody listens, and queued; a datagram to send is framed and
  given to the transmit gate or to the waiting area. The state adds to the echo component's the
  sockets, the open ports, the routes, and the detector with the access list and the event hooks it
  acts on. The static frame buffer of \<^verbatim>\<open>postcard_dispatch\<close> is written in full before each use, so it is
  a local value here.
\<close>

section \<open>Model\<close>

definition UDP_HEADER_LEN :: u16 where "UDP_HEADER_LEN = 8"
definition POSTCARD_MAX_PAYLOAD :: u16 where "POSTCARD_MAX_PAYLOAD = 1472"

datatype udp_verdict_t = UDP_ACCEPT | UDP_REJECT_TOO_SHORT | UDP_REJECT_LENGTH_MISMATCH | UDP_REJECT_BAD_CHECKSUM

record 's postcard = echo +
  pc_accepted :: u32
  pc_rejected :: u32
  nt_lockbox :: lockbox
  nt_postbox :: postbox
  nt_menu :: menu
  nt_atlas :: atlas
  nt_sentry :: sentry
  nt_guests :: guestlist
  nt_ids :: "'s ids"

definition udp_checksum_ok :: "bytes \<Rightarrow> u16 \<Rightarrow> bytes \<Rightarrow> bytes \<Rightarrow> bool" where
  "udp_checksum_ok udp len sip dip \<longleftrightarrow>
     be16 udp 6 = 0 \<or> inet_sum (pseudo_sum sip dip 17 len) (take (unat len) udp) = 0xFFFF"

definition postcard_check :: "bytes \<Rightarrow> u16 \<Rightarrow> bytes \<Rightarrow> bytes \<Rightarrow> udp_verdict_t \<times> u16" where
  "postcard_check payload len sip dip =
     (if len < UDP_HEADER_LEN then (UDP_REJECT_TOO_SHORT, 0)
      else let declared_len = be16 payload 4 in
        (if declared_len < UDP_HEADER_LEN \<or> declared_len > len then UDP_REJECT_LENGTH_MISMATCH
         else if \<not> udp_checksum_ok payload declared_len sip dip then UDP_REJECT_BAD_CHECKSUM
         else UDP_ACCEPT, declared_len))"

definition postcard_handle :: "u32 \<Rightarrow> bytes \<Rightarrow> u16 \<Rightarrow> bytes \<Rightarrow> bytes \<Rightarrow> ('s, 'a) postcard_scheme \<Rightarrow> ('s, 'a) postcard_scheme" where
  "postcard_handle now payload len sip dip s =
     (let (v, declared_len) = postcard_check payload len sip dip in
      if v \<noteq> UDP_ACCEPT then s\<lparr>pc_rejected := pc_rejected s + 1\<rparr>
      else
        let sport = be16 payload 0; dport = be16 payload 2;
            (banned, se, g, hk) = sentry_observe now sip dport (nt_sentry s, nt_guests s, nt_ids s);
            s = s\<lparr>pc_accepted := pc_accepted s + 1, nt_sentry := se, nt_guests := g, nt_ids := hk\<rparr>
        in if banned then s
           else if \<not> menu_is_open dport 17 (nt_menu s) then s
           else
             let slot = lockbox_find_listener dport 17 (nt_lockbox s)
             in if slot = LOCKBOX_CAPACITY then s
                else s\<lparr>nt_postbox := snd (postbox_deposit slot sip sport (drop (unat UDP_HEADER_LEN) payload)
                         (declared_len - UDP_HEADER_LEN) (nt_postbox s))\<rparr>)"

text \<open>The UDP part of a frame to send: checksum field 0 first, then patched in, 0xFFFF standing for 0.\<close>

definition udp_datagram :: "bytes \<Rightarrow> bytes \<Rightarrow> u16 \<Rightarrow> u16 \<Rightarrow> bytes \<Rightarrow> u16 \<Rightarrow> bytes" where
  "udp_datagram ip dest_ip sport dport data udp_len =
     (let front = put16 sport @ put16 dport @ put16 udp_len; body = take (unat (udp_len - UDP_HEADER_LEN)) data;
          udp_csum = inet_checksum (pseudo_sum ip dest_ip 17 udp_len) (front @ put16 0 @ body)
      in front @ put16 (if udp_csum = 0 then 0xFFFF else udp_csum) @ body)"

definition postcard_frame :: "bytes \<Rightarrow> bytes \<Rightarrow> bytes \<Rightarrow> bytes \<Rightarrow> u16 \<Rightarrow> u16 \<Rightarrow> bytes \<Rightarrow> u16 \<Rightarrow> bytes" where
  "postcard_frame dest_mac our_mac ip dest_ip sport dport data len =
     (let udp_len = UDP_HEADER_LEN + len
      in take 6 dest_mac @ take 6 our_mac @ [0x08, 0x00] @ ipv4_header (20 + udp_len) 17 ip dest_ip @
         udp_datagram ip dest_ip sport dport data udp_len)"

text \<open>The next hop is written by every lookup that succeeds; its value before is not read.\<close>

definition postcard_dispatch ::
  "u32 \<Rightarrow> bytes \<Rightarrow> u16 \<Rightarrow> u16 \<Rightarrow> bytes \<Rightarrow> bytes \<Rightarrow> bytes \<Rightarrow> u16 \<Rightarrow> ('s, 'a) postcard_scheme \<Rightarrow> bool \<times> ('s, 'a) postcard_scheme" where
  "postcard_dispatch now dest_ip dport sport our_mac ip data len s =
     (if len > POSTCARD_MAX_PAYLOAD then (False, s)
      else
        let frame = (\<lambda>mac. postcard_frame mac our_mac ip dest_ip sport dport data len);
            total_len = 14 + (20 + (UDP_HEADER_LEN + len))
        in if take 4 dest_ip = [255, 255, 255, 255] then bailiff_transmit now (frame (replicate 6 0xFF)) total_len s
           else case atlas_lookup dest_ip (replicate 4 0) (nt_atlas s) of
             (False, _) \<Rightarrow> (False, s)
           | (True, next_hop) \<Rightarrow>
               (case rolodex_lookup next_hop s of
                  Some dest_mac \<Rightarrow> bailiff_transmit now (frame dest_mac) total_len s
                | None \<Rightarrow> foyer_queue now next_hop our_mac (frame (replicate 6 0)) total_len s))"

definition postcard_accepted_count :: "('s, 'a) postcard_scheme \<Rightarrow> u32" where
  "postcard_accepted_count s = pc_accepted s"

definition postcard_rejected_count :: "('s, 'a) postcard_scheme \<Rightarrow> u32" where
  "postcard_rejected_count s = pc_rejected s"

fun udp_verdict_string :: "udp_verdict_t \<Rightarrow> string" where
  "udp_verdict_string UDP_ACCEPT = ''ACCEPT''"
| "udp_verdict_string UDP_REJECT_TOO_SHORT = ''REJECT (too short)''"
| "udp_verdict_string UDP_REJECT_LENGTH_MISMATCH = ''REJECT (length lied)''"
| "udp_verdict_string UDP_REJECT_BAD_CHECKSUM = ''REJECT (checksum failed)''"

section \<open>A datagram sent is a datagram accepted\<close>

lemma udp_datagram_shape:
  assumes "unat len \<le> 1472" "length data = unat len"
  shows "\<exists>c. udp_datagram ip dest_ip sport dport data (UDP_HEADER_LEN + len) =
      put16 sport @ put16 dport @ put16 (UDP_HEADER_LEN + len) @ put16 c @ data"
    and "inet_ok (pseudo_sum ip dest_ip 17 (UDP_HEADER_LEN + len)) (udp_datagram ip dest_ip sport dport data (UDP_HEADER_LEN + len))"
proof -
  let ?l = "UDP_HEADER_LEN + len"
  let ?a = "put16 sport @ put16 dport @ put16 ?l"
  have d: "take (unat (?l - UDP_HEADER_LEN)) data = data" using assms by simp
  show "\<exists>c. udp_datagram ip dest_ip sport dport data ?l = put16 sport @ put16 dport @ put16 ?l @ put16 c @ data"
    unfolding udp_datagram_def Let_def d by (simp, blast)
  have p: "unat (pseudo_sum ip dest_ip 17 ?l) \<le> 300000000" by (rule pseudo_sum_bound) simp
  show "inet_ok (pseudo_sum ip dest_ip 17 ?l) (udp_datagram ip dest_ip sport dport data ?l)"
    unfolding udp_datagram_def Let_def d
    using inet_patch [of ?a data, OF _ _ p] inet_patch_ffff [of ?a data, OF _ _ p] assms by simp
qed

lemma udp_datagram_parts:
  fixes ip dest_ip sport dport
  assumes "unat len \<le> 1472" "length data = unat len"
  defines "u \<equiv> udp_datagram ip dest_ip sport dport data (UDP_HEADER_LEN + len)"
  shows "length u = 8 + unat len" "be16 u 0 = sport" "be16 u 2 = dport" "be16 u 4 = UDP_HEADER_LEN + len" "drop 8 u = data"
proof -
  obtain c where u: "u = put16 sport @ put16 dport @ put16 (UDP_HEADER_LEN + len) @ put16 c @ data"
    using udp_datagram_shape(1) [OF assms(1,2)] unfolding u_def by blast
  show "length u = 8 + unat len" "drop 8 u = data" using assms(2) by (simp_all add: u put16_def)
  show "be16 u 0 = sport" using be16_put16 [of "[]" sport] by (simp add: u)
  show "be16 u 2 = dport" using be16_put16 [of "put16 sport" dport] by (simp add: u numeral_2_eq_2)
  show "be16 u 4 = UDP_HEADER_LEN + len"
    using be16_put16 [of "put16 sport @ put16 dport" "UDP_HEADER_LEN + len"] by (simp add: u eval_nat_numeral)
qed

lemma udp_len: "unat len \<le> 1472 \<Longrightarrow> unat (UDP_HEADER_LEN + len) = 8 + unat len"
  by (simp add: UDP_HEADER_LEN_def unat_word_ariths)

text \<open>The receiver reads the datagram in front of whatever padding the link added.\<close>

lemma postcard_check_datagram:
  assumes "unat len \<le> 1472" "length data = unat len"
  shows "postcard_check (udp_datagram ip dest_ip sport dport data (UDP_HEADER_LEN + len) @ pad) (UDP_HEADER_LEN + len) ip dest_ip =
    (UDP_ACCEPT, UDP_HEADER_LEN + len)"
proof -
  note l = udp_len [OF assms(1)]
  have "\<not> UDP_HEADER_LEN + len < UDP_HEADER_LEN" using l by (simp add: word_less_nat_alt UDP_HEADER_LEN_def)
  then show ?thesis
    using udp_datagram_shape(2) [OF assms, of ip dest_ip sport dport] l
    by (simp add: postcard_check_def udp_checksum_ok_def udp_datagram_parts [OF assms] inet_ok_def be16_append)
qed

lemma datagram_padded:
  fixes ip dest_ip sport dport
  assumes "unat len \<le> 1472" "length data = unat len"
  defines "u \<equiv> udp_datagram ip dest_ip sport dport data (UDP_HEADER_LEN + len)"
  shows "be16 (u @ pad) 0 = sport" "be16 (u @ pad) 2 = dport" "drop 8 (u @ pad) = data @ pad"
  unfolding u_def by (simp_all add: be16_append udp_datagram_parts [OF assms(1,2)])

end
