(* ===== verification/Compass.thy ===== *)
theory Compass
  imports PostCard Curfew
begin

text \<open>
  IPv4 input, \<^verbatim>\<open>Networking/IPv4/Compass/compass.c\<close>: header checks, then the access list, the rate limit
  and the address book's disputes, in that order, then the handler registered for the protocol. The
  handlers registered at link time are the argument \<open>dir\<close>, in the order of the linker section.
\<close>

section \<open>Model\<close>

definition MIN_IP_HEADER :: u16 where "MIN_IP_HEADER = 20"

datatype ip_verdict_t = IP_ACCEPT | IP_REJECT_TOO_SHORT | IP_REJECT_BAD_VERSION | IP_REJECT_BAD_HEADER_LEN
  | IP_REJECT_LENGTH_MISMATCH | IP_REJECT_FRAGMENTED | IP_REJECT_BAD_CHECKSUM

record 's compass = "'s postcard" +
  cp_accepted :: u32
  cp_rejected :: u32
  nt_curfew :: curfew

type_synonym 'st ip_directory = "(u8 \<times> (bytes \<Rightarrow> u16 \<Rightarrow> bytes \<Rightarrow> bytes \<Rightarrow> 'st \<Rightarrow> 'st)) list"

definition ip_checksum_ok :: "bytes \<Rightarrow> u16 \<Rightarrow> bool" where
  "ip_checksum_ok header header_len \<longleftrightarrow> inet_sum 0 (take (unat header_len) header) = 0xFFFF"

definition compass_check :: "bytes \<Rightarrow> u16 \<Rightarrow> ip_verdict_t" where
  "compass_check payload len =
     (if len < MIN_IP_HEADER then IP_REJECT_TOO_SHORT
      else
        let version = drop_bit 4 (payload ! 0); ihl = payload ! 0 AND 0x0F in
        if version \<noteq> 4 then IP_REJECT_BAD_VERSION
        else if ihl < 5 then IP_REJECT_BAD_HEADER_LEN
        else
          let header_len = ucast ihl * 4 in
          if len < header_len then IP_REJECT_BAD_HEADER_LEN
          else
            let total_len = be16 payload 2 in
            if total_len > len then IP_REJECT_LENGTH_MISMATCH
            else if total_len < header_len then IP_REJECT_LENGTH_MISMATCH
            else
              let flags_frag = be16 payload 6; frag_offset = flags_frag AND 0x1FFF;
                  more_fragments = drop_bit 13 flags_frag AND 0x1
              in if frag_offset \<noteq> 0 \<or> more_fragments \<noteq> 0 then IP_REJECT_FRAGMENTED
                 else if \<not> ip_checksum_ok payload header_len then IP_REJECT_BAD_CHECKSUM
                 else IP_ACCEPT)"

definition compass_handle ::
  "('s, 'a) compass_scheme ip_directory \<Rightarrow> u32 \<Rightarrow> bytes \<Rightarrow> u16 \<Rightarrow> bytes \<Rightarrow> ('s, 'a) compass_scheme \<Rightarrow> ('s, 'a) compass_scheme" where
  "compass_handle dir now payload len src_mac s =
     (let v = compass_check payload len; sip = take 4 (drop 12 payload); dip = take 4 (drop 16 payload) in
      if v \<noteq> IP_ACCEPT
      then let s = (if len \<ge> 20 then s\<lparr>nt_curfew := curfew_strike now sip (nt_curfew s)\<rparr> else s)
           in s\<lparr>cp_rejected := cp_rejected s + 1\<rparr>
      else if guestlist_check sip (nt_guests s) = GUESTLIST_DENIED
      then s\<lparr>nt_ids := ids_notify now IDS_EVENT_GUESTLIST_DENY (Some sip) None (nt_ids s), cp_rejected := cp_rejected s + 1\<rparr>
      else
        let guestlist_allow = (guestlist_check sip (nt_guests s) = GUESTLIST_ALLOWED);
            (in_time, cf) = (if guestlist_allow then (True, nt_curfew s) else curfew_check now sip (nt_curfew s));
            s = s\<lparr>nt_curfew := cf\<rparr>
        in if \<not> in_time
           then s\<lparr>nt_ids := ids_notify now IDS_EVENT_CURFEW_REJECT (Some sip) None (nt_ids s), cp_rejected := cp_rejected s + 1\<rparr>
           else if rolodex_disputed sip s
           then s\<lparr>nt_ids := ids_notify now IDS_EVENT_ROLODEX_DISPUTED (Some sip) None (nt_ids s), cp_rejected := cp_rejected s + 1\<rparr>
           else
             let s = rolodex_learn now sip (take 6 src_mac) s; s = s\<lparr>cp_accepted := cp_accepted s + 1\<rparr>;
                 header_len = ucast (payload ! 0 AND 0x0F) * 4; total_length = be16 payload 2
             in case List.find (\<lambda>e. fst e = payload ! 9) dir of
                  Some e \<Rightarrow> snd e (drop (unat header_len) payload) (total_length - header_len) sip dip s
                | None \<Rightarrow> s)"

definition compass_accepted_count :: "('s, 'a) compass_scheme \<Rightarrow> u32" where
  "compass_accepted_count s = cp_accepted s"

definition compass_rejected_count :: "('s, 'a) compass_scheme \<Rightarrow> u32" where
  "compass_rejected_count s = cp_rejected s"

fun ip_verdict_string :: "ip_verdict_t \<Rightarrow> string" where
  "ip_verdict_string IP_ACCEPT = ''ACCEPT''"
| "ip_verdict_string IP_REJECT_TOO_SHORT = ''REJECT (too short)''"
| "ip_verdict_string IP_REJECT_BAD_VERSION = ''REJECT (not IPv4)''"
| "ip_verdict_string IP_REJECT_BAD_HEADER_LEN = ''REJECT (bad header length)''"
| "ip_verdict_string IP_REJECT_LENGTH_MISMATCH = ''REJECT (length lied)''"
| "ip_verdict_string IP_REJECT_FRAGMENTED = ''REJECT (fragmented, not supported)''"
| "ip_verdict_string IP_REJECT_BAD_CHECKSUM = ''REJECT (checksum failed)''"

text \<open>The handlers the IPv4 components register: echo for 1, UDP for 17, and the TCP handler, an
  argument here, for 6.\<close>

definition ip_directory ::
  "(bytes \<Rightarrow> u16 \<Rightarrow> bytes \<Rightarrow> bytes \<Rightarrow> ('s, 'a) compass_scheme \<Rightarrow> ('s, 'a) compass_scheme) \<Rightarrow> u32 \<Rightarrow>
   ('s, 'a) compass_scheme ip_directory" where
  "ip_directory tcp now = [(6, tcp), (1, echo_handle), (17, postcard_handle now)]"

section \<open>A header the senders build passes the checks\<close>

lemma compass_check_header:
  assumes "length src = 4" "length dst = 4" "20 \<le> unat t" "unat t \<le> unat len"
  shows "compass_check (ipv4_header t p src dst @ rest) len = IP_ACCEPT"
proof -
  let ?p = "ipv4_header t p src dst @ rest"
  have l20: "length (ipv4_header t p src dst) = 20" using assms(1,2) by simp
  have z: "?p ! 0 = 0x45" using ipv4_header_fields(1) [OF assms(1,2)] l20 by (simp add: nth_append)
  have ok: "ip_checksum_ok ?p 20"
    using ipv4_header_ok [OF assms(1,2), of t p] l20 by (simp add: ip_checksum_ok_def inet_ok_def)
  have "\<not> len < 20" "\<not> t > len" "\<not> t < 20" using assms(3,4) by (simp_all add: word_less_nat_alt)
  then show ?thesis
    using ok by (simp add: compass_check_def z MIN_IP_HEADER_def Let_def ipv4_header_fields [OF assms(1,2)])
qed

section \<open>From the address book on\<close>

lemma learn_net [simp]:
  fixes s :: "('s, 'a) compass_scheme"
  shows "nt_sentry (learn_or_dispute now ip mac s) = nt_sentry s" "nt_guests (learn_or_dispute now ip mac s) = nt_guests s"
    "nt_ids (learn_or_dispute now ip mac s) = nt_ids s" "nt_menu (learn_or_dispute now ip mac s) = nt_menu s"
    "nt_lockbox (learn_or_dispute now ip mac s) = nt_lockbox s" "nt_postbox (learn_or_dispute now ip mac s) = nt_postbox s"
  by (simp_all add: learn_or_dispute_def Let_def split: option.split)

text \<open>The conditions under which a packet is let through to its handler.\<close>

definition compass_admits :: "u32 \<Rightarrow> bytes \<Rightarrow> u16 \<Rightarrow> ('s, 'a) compass_scheme \<Rightarrow> bool" where
  "compass_admits now payload len s \<longleftrightarrow>
     (let sip = take 4 (drop 12 payload); g = guestlist_check sip (nt_guests s)
      in compass_check payload len = IP_ACCEPT \<and> g \<noteq> GUESTLIST_DENIED \<and>
         (g = GUESTLIST_ALLOWED \<or> fst (curfew_check now sip (nt_curfew s))) \<and> \<not> rolodex_disputed sip s)"

lemma disputed_curfew [simp]: "rolodex_disputed ip (s\<lparr>nt_curfew := c\<rparr>) = rolodex_disputed ip s"
  by (simp add: lookup_entry)

lemma compass_admitted:
  assumes "compass_admits now payload len s"
  shows "\<exists>cf. compass_handle dir now payload len mac s =
    (let sip = take 4 (drop 12 payload); s1 = rolodex_learn now sip (take 6 mac) (s\<lparr>nt_curfew := cf\<rparr>);
         s2 = s1\<lparr>cp_accepted := cp_accepted s1 + 1\<rparr>; hl = ucast (payload ! 0 AND 0x0F) * 4
     in case List.find (\<lambda>e. fst e = payload ! 9) dir of
          Some e \<Rightarrow> snd e (drop (unat hl) payload) (be16 payload 2 - hl) sip (take 4 (drop 16 payload)) s2
        | None \<Rightarrow> s2)"
proof -
  define sip where "sip = take 4 (drop 12 payload)"
  define r where "r = (if guestlist_check sip (nt_guests s) = GUESTLIST_ALLOWED then (True, nt_curfew s) else curfew_check now sip (nt_curfew s))"
  have a: "compass_check payload len = IP_ACCEPT" "guestlist_check sip (nt_guests s) \<noteq> GUESTLIST_DENIED" "fst r" "\<not> rolodex_disputed sip s"
    using assms by (auto simp: compass_admits_def r_def Let_def sip_def)
  obtain cf where cf: "r = (True, cf)" using a(3) by (cases r) simp
  show ?thesis
    using a(1,2,4) cf unfolding compass_handle_def Let_def sip_def [symmetric] r_def [symmetric]
    by (intro exI [of _ cf]) simp
qed

lemma compass_blocked:
  assumes "\<not> compass_admits now payload len s"
  shows "compass_handle dir now payload len mac s = compass_handle dir' now payload len mac s \<and>
    cp_rejected (compass_handle dir now payload len mac s) = cp_rejected s + 1 \<and>
    cp_accepted (compass_handle dir now payload len mac s) = cp_accepted s \<and>
    book (compass_handle dir now payload len mac s) = book s \<and>
    nt_postbox (compass_handle dir now payload len mac s) = nt_postbox s \<and>
    echo_pings (compass_handle dir now payload len mac s) = echo_pings s"
proof -
  define sip where "sip = take 4 (drop 12 payload)"
  define r where "r = (if guestlist_check sip (nt_guests s) = GUESTLIST_ALLOWED then (True, nt_curfew s) else curfew_check now sip (nt_curfew s))"
  obtain ok cf where cf: "r = (ok, cf)" by (cases r)
  have "compass_check payload len \<noteq> IP_ACCEPT \<or> guestlist_check sip (nt_guests s) = GUESTLIST_DENIED \<or> \<not> ok \<or> rolodex_disputed sip s"
    using assms cf by (auto simp: compass_admits_def r_def Let_def sip_def split: if_splits)
  then show ?thesis
    unfolding compass_handle_def Let_def sip_def [symmetric] r_def [symmetric] cf prod.case
    by (auto simp: echo_pings_def)
qed

lemma postcard_deposits:
  fixes s :: "('s, 'a) compass_scheme"
  assumes "postcard_check udp len sip dip = (UDP_ACCEPT, dl)" "sentry_inv (nt_sentry s)" "menu_is_open (be16 udp 2) 17 (nt_menu s)"
    "lockbox_find_listener (be16 udp 2) 17 (nt_lockbox s) = k" "k < 64"
  shows "nt_postbox (postcard_handle now udp len sip dip s) =
    snd (postbox_deposit k sip (be16 udp 0) (drop 8 udp) (dl - 8) (nt_postbox s))"
proof -
  obtain r se g hk where o: "sentry_observe now sip (be16 udp 2) (nt_sentry s, nt_guests s, nt_ids s) = (r, se, g, hk)" by (metis prod_cases4)
  then have "\<not> r" using sentry_observe_quiet [OF assms(2)] by blast
  then show ?thesis using assms(1,3-5) o by (simp add: postcard_handle_def Let_def UDP_HEADER_LEN_def LOCKBOX_CAPACITY_def)
qed

lemma postbox_deposit_put:
  assumes "length data = unat len"
  shows "postbox_deposit k ip port (data @ pad) len pb = postbox_put k (ip, port, data) pb"
proof -
  have "\<not> 65536 \<le> unat len" using unsigned_less [of len, where ?'a = nat] by simp
  then show ?thesis using assms by (simp add: postbox_put_def postbox_deposit_def)
qed

lemma postbox_put_letters:
  assumes "postbox_inv k pb"
  shows "postbox_letters k (snd (postbox_put k (ip, port, data) pb)) = postbox_letters k pb @
    (if length data \<le> 576 \<and> length (postbox_letters k pb) < 8 then [(ip, port, data)] else [])"
  using postbox_put_accepted [OF assms, of "(ip, port, data)"] postbox_put_refused [OF assms, of "(ip, port, data)"] postbox.bounded [OF assms]
  by (auto simp: letter_fits_def POSTBOX_MAX_DATAGRAM_def not_le not_less)

text \<open>The packet a sender frames, padded by the link, as the receiver parses it.\<close>

definition udp_packet :: "bytes \<Rightarrow> bytes \<Rightarrow> u16 \<Rightarrow> u16 \<Rightarrow> bytes \<Rightarrow> u16 \<Rightarrow> bytes \<Rightarrow> bytes" where
  "udp_packet ip dip sport dport data len pad =
     drop 14 (postcard_frame (replicate 6 0) (replicate 6 0) ip dip sport dport data len) @ pad"

lemma udp_packet_frame:
  "length dmac = 6 \<Longrightarrow> length smac = 6 \<Longrightarrow>
   drop 14 (postcard_frame dmac smac ip dip sport dport data len) @ pad = udp_packet ip dip sport dport data len pad"
  by (simp add: udp_packet_def postcard_frame_def Let_def)

lemma udp_packet_parts:
  assumes "length ip = 4" "length dip = 4" "length data = unat len" "unat len \<le> 1472" "unat plen = length p"
    and p: "p = udp_packet ip dip sport dport data len pad"
  shows "compass_check p plen = IP_ACCEPT" "p ! 0 = 0x45" "p ! 9 = 17" "be16 p 2 = 20 + (UDP_HEADER_LEN + len)"
    "take 4 (drop 12 p) = ip" "take 4 (drop 16 p) = dip"
    "drop 20 p = udp_datagram ip dip sport dport data (UDP_HEADER_LEN + len) @ pad"
proof -
  let ?l = "UDP_HEADER_LEN + len"
  let ?u = "udp_datagram ip dip sport dport data ?l"
  have h: "p = ipv4_header (20 + ?l) 17 ip dip @ ?u @ pad"
    using assms(1,2) by (simp add: p udp_packet_def postcard_frame_def Let_def)
  have t: "unat (20 + ?l) = 28 + unat len" using assms(4) by (simp add: UDP_HEADER_LEN_def unat_word_ariths)
  have "unat plen = 28 + unat len + length pad"
    using assms(1,2,5) udp_datagram_parts(1) [OF assms(4,3)] by (simp add: h)
  then show "compass_check p plen = IP_ACCEPT" unfolding h using t by (intro compass_check_header assms(1,2)) simp_all
  show "p ! 0 = 0x45" "p ! 9 = 17" "be16 p 2 = 20 + ?l" "take 4 (drop 12 p) = ip" "take 4 (drop 16 p) = dip" "drop 20 p = ?u @ pad"
    unfolding h using ipv4_header_fields [OF assms(1,2), of "20 + ?l" 17] assms(1,2) by (simp_all add: nth_append)
qed

lemma compass_udp:
  fixes r :: "('s, 'a) compass_scheme"
  assumes "compass_admits now p plen r" "p ! 9 = 17" "p ! 0 = 0x45"
  shows "\<exists>s2. compass_handle (ip_directory tcp now) now p plen mac r =
      postcard_handle now (drop 20 p) (be16 p 2 - 20) (take 4 (drop 12 p)) (take 4 (drop 16 p)) s2 \<and>
    nt_sentry s2 = nt_sentry r \<and> nt_menu s2 = nt_menu r \<and> nt_lockbox s2 = nt_lockbox r \<and> nt_postbox s2 = nt_postbox r"
  using compass_admitted [OF assms(1), of "ip_directory tcp now" mac] assms(2,3)
  by (auto simp: Let_def ip_directory_def rolodex_learn_def)

text \<open>A machine with UDP port 53 open and listened on, for the examples.\<close>

definition compass_up :: "unit compass" where
  "compass_up = postcard.extend (echo.extend echo_up
     (postcard.fields 0 0 (snd (snd (lockbox_listen 53 17 lockbox_boot))) postbox_boot (snd (menu_open_port 53 17 menu_boot))
        atlas_boot sentry_boot guestlist_boot \<lparr>hooks = [], ids_env = ()\<rparr>))
     (compass.fields 0 0 curfew_boot)"

lemma compass_up_fields [simp]:
  "nt_guests compass_up = guestlist_boot" "nt_curfew compass_up = curfew_boot" "nt_sentry compass_up = sentry_boot"
  "nt_menu compass_up = snd (menu_open_port 53 17 menu_boot)" "nt_lockbox compass_up = snd (snd (lockbox_listen 53 17 lockbox_boot))"
  "nt_postbox compass_up = postbox_boot" "book compass_up = book rolodex_up" "cp_rejected compass_up = 0"
  by (simp_all add: compass_up_def postcard.defs compass.defs echo.defs foyer.defs echo_up_def)

lemma compass_up_open:
  "guestlist_check ip guestlist_boot = GUESTLIST_NO_RULE" "fst (curfew_check now ip curfew_boot)" "\<not> rolodex_disputed ip compass_up"
  "sentry_inv sentry_boot" "menu_is_open 53 17 (snd (menu_open_port 53 17 menu_boot))"
  "lockbox_find_listener 53 17 (snd (snd (lockbox_listen 53 17 lockbox_boot))) = 0" "postbox_letters 0 postbox_boot = []"
proof -
  show "guestlist_check ip guestlist_boot = GUESTLIST_NO_RULE"
    by (simp add: guestlist_check_def guestlist_find_entry_def guestlist_boot_def slot_find_def first_idx_None [THEN iffD2])
  show "fst (curfew_check now ip curfew_boot)"
    by (simp add: curfew_check_def curfew_find_or_create_def curfew_boot_def CURFEW_CAPACITY_def slot_find_def numeral_eq_Suc roll_window_def Let_def first_idx_None [THEN iffD2])
  show "\<not> rolodex_disputed ip compass_up" by (simp add: lookup_entry book_entry_view)
  show "sentry_inv sentry_boot" by (simp add: sentry_inv_def sentry_boot_def no_hits_def count_if_def)
qed code_simp+

section \<open>Properties\<close>

text \<open>C6. UDP from end to end: the packet one machine frames for another, with any padding the link adds,
  is queued at the receiver's socket with the sender's address and port and exactly the data sent, if
  the receiver lets the source through, the port is open and somebody listens. The sender frames up to
  1472 bytes, the receiver's queue takes up to 576 and holds 8 datagrams: a datagram with 577 to 1472
  bytes of data, or one that finds the queue full, leaves the queue as it was.\<close>

theorem udp_end_to_end:
  fixes r :: "('s, 'a) compass_scheme"
  assumes "length ip = 4" "length dip = 4" "length smac = 6" "length dmac = 6" "length data = unat len" "unat len \<le> 1472"
    and "payload = drop 14 (postcard_frame dmac smac ip dip sport dport data len) @ pad" "unat plen = length payload"
    and "guestlist_check ip (nt_guests r) = GUESTLIST_NO_RULE" "fst (curfew_check now ip (nt_curfew r))" "\<not> rolodex_disputed ip r"
    and "sentry_inv (nt_sentry r)" "menu_is_open dport 17 (nt_menu r)" "lockbox_find_listener dport 17 (nt_lockbox r) = k"
    and "postbox_inv k (nt_postbox r)"
  shows "postbox_letters k (nt_postbox (compass_handle (ip_directory tcp now) now payload plen smac r)) =
    postbox_letters k (nt_postbox r) @
      (if unat len \<le> 576 \<and> length (postbox_letters k (nt_postbox r)) < 8 then [(ip, sport, data)] else [])"
proof -
  let ?l = "UDP_HEADER_LEN + len"
  let ?u = "udp_datagram ip dip sport dport data ?l"
  note len = assms(6)
  have p: "payload = udp_packet ip dip sport dport data len pad" using assms(7) udp_packet_frame [OF assms(4,3)] by simp
  note P = udp_packet_parts [OF assms(1,2,5) len assms(8) p]
  have "compass_admits now payload plen r" using P assms(9-11) by (simp add: compass_admits_def Let_def)
  from compass_udp [OF this P(3,2), of tcp smac] obtain s2 where
    s2: "compass_handle (ip_directory tcp now) now payload plen smac r = postcard_handle now (?u @ pad) ?l ip dip s2"
    "nt_sentry s2 = nt_sentry r" "nt_menu s2 = nt_menu r" "nt_lockbox s2 = nt_lockbox r" "nt_postbox s2 = nt_postbox r"
    unfolding P by auto
  have k: "k < 64" using assms(15) by (simp add: postbox_inv_def LOCKBOX_CAPACITY_def)
  have B: "be16 (?u @ pad) 0 = sport" "be16 (?u @ pad) 2 = dport" "drop 8 (?u @ pad) = data @ pad" by (rule datagram_padded [OF len assms(5)])+
  have l: "?l - 8 = len" by (simp add: UDP_HEADER_LEN_def)
  have "nt_postbox (postcard_handle now (?u @ pad) ?l ip dip s2) = snd (postbox_deposit k ip sport (data @ pad) len (nt_postbox r))"
    using postcard_deposits [OF postcard_check_datagram [OF len assms(5), of ip dip sport dport pad], where s = s2 and k = k and now = now] s2(2-5) assms(12-14) k
    unfolding B l by simp
  then show ?thesis using postbox_put_letters [OF assms(15), of ip sport data] assms(5) s2(1) postbox_deposit_put [OF assms(5)] by simp
qed

theorem udp_end_to_end_witness:
  "\<forall>now tcp. postbox_letters 0 (nt_postbox (compass_handle (ip_directory tcp now) now
     (drop 14 (postcard_frame [1, 1, 1, 1, 1, 1] [2, 2, 2, 2, 2, 2] [10, 0, 2, 3] [10, 0, 2, 15] 4000 53 [7, 8, 9] 3) @ replicate 15 0)
     46 [2, 2, 2, 2, 2, 2] compass_up)) = [([10, 0, 2, 3], 4000, [7, 8, 9])]"
proof (intro allI)
  fix now tcp
  let ?p = "drop 14 (postcard_frame [1, 1, 1, 1, 1, 1] [2, 2, 2, 2, 2, 2] [10, 0, 2, 3] [10, 0, 2, 15] 4000 53 [7, 8, 9] 3) @ replicate 15 0"
  have "length (udp_datagram [10, 0, 2, 3] [10, 0, 2, 15] 4000 53 [7, 8, 9] (UDP_HEADER_LEN + 3)) = 11"
    using udp_datagram_parts(1) [of 3 "[7, 8, 9]"] by simp
  then have "length ?p = 46" by (simp add: postcard_frame_def Let_def)
  moreover have "postbox_inv 0 postbox_boot" by (rule postbox_inv_boot) simp
  ultimately show "postbox_letters 0 (nt_postbox (compass_handle (ip_directory tcp now) now ?p 46 [2, 2, 2, 2, 2, 2] compass_up)) =
      [([10, 0, 2, 3], 4000, [7, 8, 9])]"
    using udp_end_to_end [where ip = "[10, 0, 2, 3]" and dip = "[10, 0, 2, 15]" and smac = "[2, 2, 2, 2, 2, 2]" and dmac = "[1, 1, 1, 1, 1, 1]"
      and data = "[7, 8, 9]" and len = 3 and payload = ?p and sport = 4000 and dport = 53 and pad = "replicate 15 0" and plen = 46
      and r = compass_up and now = now and k = 0 and tcp = tcp] compass_up_open by simp
qed

text \<open>C31. A packet that fails a header check, or whose source is denied, over its rate or disputed, reaches no
  handler: the outcome does not depend on what is registered, nothing is learned or queued, and one
  rejection is counted.\<close>

theorem compass_blocks:
  assumes "\<not> compass_admits now payload len s"
  shows "compass_handle dir now payload len mac s = compass_handle dir' now payload len mac s \<and>
    cp_rejected (compass_handle dir now payload len mac s) = cp_rejected s + 1 \<and>
    cp_accepted (compass_handle dir now payload len mac s) = cp_accepted s \<and>
    book (compass_handle dir now payload len mac s) = book s \<and>
    nt_postbox (compass_handle dir now payload len mac s) = nt_postbox s \<and>
    echo_pings (compass_handle dir now payload len mac s) = echo_pings s"
  by (rule compass_blocked [OF assms])

theorem compass_blocks_witness:
  "cp_rejected (compass_handle [(17, postcard_handle 5)] 5 (replicate 20 0) 20 [2, 2, 2, 2, 2, 2] compass_up) = 1"
proof -
  have "compass_check (replicate 20 0) 20 = IP_REJECT_BAD_VERSION" by code_simp
  then have "\<not> compass_admits 5 (replicate 20 0) 20 compass_up" by (simp add: compass_admits_def Let_def)
  from compass_blocks [OF this] show ?thesis by simp
qed

end
