(* ===== verification/Mailroom.thy ===== *)
theory Mailroom
  imports Compass Bouncer WatchList
begin

text \<open>
  The receive path above the card: \<^verbatim>\<open>frontdesk_deliver\<close> of \<^verbatim>\<open>Networking/FrontDesk/frontdest.c\<close> shows the
  frame to the traffic capture, the frame filter and the flood detector, and \<^verbatim>\<open>mailroom_deliver\<close> of
  \<^verbatim>\<open>Networking/mailroom/mailroom.c\<close> gives its payload to the handler registered for its type. The
  handlers registered at link time are the argument \<open>dir\<close>.
\<close>

section \<open>Model\<close>

definition ETHERTYPE_OFFSET :: nat where "ETHERTYPE_OFFSET = 12"
definition ETH_HEADER_SIZE :: u16 where "ETH_HEADER_SIZE = 14"
definition MIN_ETHERTYPE :: u16 where "MIN_ETHERTYPE = 0x0600"
definition ETHERTYPE_VLAN :: u16 where "ETHERTYPE_VLAN = 0x8100"

datatype mail_result_t = MAIL_DELIVERED | MAIL_UNKNOWN_TYPE | MAIL_LEGACY_REJECTED

record 's mailroom = "'s compass" +
  mr_delivered_count :: u32
  mr_undelivered_count :: u32
  nt_bouncer :: bouncer
  nt_watch :: watchlist

type_synonym 'st directory = "(u16 \<times> (bytes \<Rightarrow> u16 \<Rightarrow> bytes \<Rightarrow> 'st \<Rightarrow> 'st)) list"

definition mailroom_log_count :: "('s, 'a) mailroom_scheme \<Rightarrow> u32" where
  "mailroom_log_count s = mr_delivered_count s + mr_undelivered_count s"

definition mailroom_undelivered_count :: "('s, 'a) mailroom_scheme \<Rightarrow> u32" where
  "mailroom_undelivered_count s = mr_undelivered_count s"

definition mailroom_deliver ::
  "('s, 'a) mailroom_scheme directory \<Rightarrow> bytes \<Rightarrow> u16 \<Rightarrow> ('s, 'a) mailroom_scheme \<Rightarrow> mail_result_t \<times> ('s, 'a) mailroom_scheme" where
  "mailroom_deliver dir frame len s =
     (let ethertype = be16 frame ETHERTYPE_OFFSET in
      if ethertype < MIN_ETHERTYPE \<or> ethertype = ETHERTYPE_VLAN
      then (MAIL_LEGACY_REJECTED, s\<lparr>mr_undelivered_count := mr_undelivered_count s + 1\<rparr>)
      else case List.find (\<lambda>e. fst e = ethertype) dir of
        Some e \<Rightarrow>
          let s = snd e (drop (unat ETH_HEADER_SIZE) frame) (len - ETH_HEADER_SIZE) (drop 6 frame) s
          in (MAIL_DELIVERED, s\<lparr>mr_delivered_count := mr_delivered_count s + 1\<rparr>)
      | None \<Rightarrow> (MAIL_UNKNOWN_TYPE, s\<lparr>mr_undelivered_count := mr_undelivered_count s + 1\<rparr>))"

definition frontdesk_deliver ::
  "('s, 'a) mailroom_scheme directory \<Rightarrow> u32 \<Rightarrow> bytes \<Rightarrow> u16 \<Rightarrow> ('s, 'a) mailroom_scheme \<Rightarrow> ('s, 'a) mailroom_scheme" where
  "frontdesk_deliver dir now frame packet_length s =
     (let s = netobserve_capture NETWATCH_RX frame (if packet_length > 4 then ucast packet_length - 4 else ucast packet_length) s;
          verdict = bouncer_check frame packet_length (fd_mac s);
          dest = (if packet_length \<ge> 6 then Some frame else None);
          src = (if packet_length \<ge> 12 then Some (drop 6 frame) else None);
          s = s\<lparr>nt_bouncer := bouncer_log now verdict packet_length dest src (nt_bouncer s)\<rparr>
      in if verdict = BOUNCE_ACCEPT
         then
           let (flagged, w) = (case src of Some m \<Rightarrow> watchlist_is_flagged now (take 6 m) (nt_watch s) | None \<Rightarrow> (False, nt_watch s));
               s = s\<lparr>nt_watch := w\<rparr>
           in if \<not> flagged
              then snd (mailroom_deliver dir frame packet_length (s\<lparr>fd_packets_received := fd_packets_received s + 1\<rparr>))
              else s\<lparr>nt_watch := watchlist_note_dropped (nt_watch s)\<rparr>
         else case src of
           None \<Rightarrow> s
         | Some m \<Rightarrow>
             let (_, w, hk) = watchlist_strike now (take 6 m) (nt_watch s, nt_ids s)
             in s\<lparr>nt_watch := w, nt_ids := hk\<rparr>)"

text \<open>The handlers the IPv4 components register: ARP and IPv4.\<close>

definition eth_directory ::
  "('s, 'a) mailroom_scheme ip_directory \<Rightarrow> u32 \<Rightarrow> ('s, 'a) mailroom_scheme directory" where
  "eth_directory ips now = [(ETHERTYPE_ARP, rolodex_handle now), (ETHERTYPE_IPV4, compass_handle ips now)]"

section \<open>What reaches a handler\<close>

definition frame_admitted :: "u32 \<Rightarrow> bytes \<Rightarrow> u16 \<Rightarrow> ('s, 'a) mailroom_scheme \<Rightarrow> bool" where
  "frame_admitted now frame len s \<longleftrightarrow>
     14 \<le> len \<and> len \<le> 1518 \<and> (mac_equal frame (fd_mac s) \<or> frame ! 0 AND 1 = 1) \<and>
     \<not> fst (watchlist_is_flagged now (take 6 (drop 6 frame)) (nt_watch s)) \<and>
     be16 frame 12 \<ge> 0x0600 \<and> be16 frame 12 \<noteq> 0x8100"

lemma capture_net [simp]:
  fixes s :: "('s, 'a) mailroom_scheme"
  shows "fd_mac (netobserve_capture d f l s) = fd_mac s" "nt_watch (netobserve_capture d f l s) = nt_watch s"
    "nt_bouncer (netobserve_capture d f l s) = nt_bouncer s" "nt_ids (netobserve_capture d f l s) = nt_ids s"
    "book (netobserve_capture d f l s) = book s" "nt_postbox (netobserve_capture d f l s) = nt_postbox s"
    "echo_pings (netobserve_capture d f l s) = echo_pings s" "mr_delivered_count (netobserve_capture d f l s) = mr_delivered_count s"
  by (simp_all add: netobserve_capture_def Let_def echo_pings_def)

lemma deliver_blocked:
  fixes s :: "('s, 'a) mailroom_scheme"
  assumes "\<not> frame_admitted now frame len s"
  shows "frontdesk_deliver dir now frame len s = frontdesk_deliver dir' now frame len s \<and>
    mr_delivered_count (frontdesk_deliver dir now frame len s) = mr_delivered_count s \<and>
    book (frontdesk_deliver dir now frame len s) = book s \<and> nt_postbox (frontdesk_deliver dir now frame len s) = nt_postbox s \<and>
    echo_pings (frontdesk_deliver dir now frame len s) = echo_pings s"
proof (cases "bouncer_check frame len (fd_mac s) = BOUNCE_ACCEPT")
  case True
  then have "14 \<le> unat len" by (simp add: bouncer_accepts word_le_nat_alt)
  then have l: "6 \<le> len" "12 \<le> len" by (simp_all add: word_le_nat_alt)
  obtain flagged w where f: "watchlist_is_flagged now (take 6 (drop 6 frame)) (nt_watch s) = (flagged, w)" by fastforce
  show ?thesis
  proof (cases flagged)
    case flagged: True
    then show ?thesis using True l f by (simp add: frontdesk_deliver_def Let_def echo_pings_def) (simp flip: echo_pings_def)
  next
    case False
    then have "be16 frame ETHERTYPE_OFFSET < MIN_ETHERTYPE \<or> be16 frame ETHERTYPE_OFFSET = ETHERTYPE_VLAN"
      using assms True f by (auto simp: frame_admitted_def bouncer_accepts ETHERTYPE_OFFSET_def MIN_ETHERTYPE_def ETHERTYPE_VLAN_def not_le)
    then show ?thesis using True False l f by (simp add: frontdesk_deliver_def mailroom_deliver_def Let_def echo_pings_def) (simp flip: echo_pings_def)
  qed
next
  case False
  then show ?thesis
    by (auto simp: frontdesk_deliver_def Let_def echo_pings_def split: prod.split) (simp_all flip: echo_pings_def)
qed

definition mailroom_up :: "unit mailroom" where
  "mailroom_up = compass.extend compass_up (mailroom.fields 0 0 bouncer_boot watchlist_boot)"

section \<open>Properties\<close>

text \<open>C30. A frame of the wrong length, for another machine, from a flagged sender or of a legacy type reaches no
  protocol: the outcome does not depend on the handlers registered, nothing is delivered, learned
  or queued.\<close>

theorem frames_turned_away:
  fixes s :: "('s, 'a) mailroom_scheme"
  assumes "\<not> frame_admitted now frame len s"
  shows "frontdesk_deliver dir now frame len s = frontdesk_deliver dir' now frame len s \<and>
    mr_delivered_count (frontdesk_deliver dir now frame len s) = mr_delivered_count s \<and>
    book (frontdesk_deliver dir now frame len s) = book s \<and> nt_postbox (frontdesk_deliver dir now frame len s) = nt_postbox s \<and>
    echo_pings (frontdesk_deliver dir now frame len s) = echo_pings s"
  by (rule deliver_blocked [OF assms])

theorem frames_turned_away_witness:
  "book (frontdesk_deliver (eth_directory (ip_directory (\<lambda>_ _ _ _ s. s) 5) 5) 5 (replicate 13 0xFF) 13 mailroom_up) = book mailroom_up"
proof -
  have "\<not> 14 \<le> (13 :: u16)" by simp
  then have "\<not> frame_admitted 5 (replicate 13 0xFF) 13 mailroom_up" unfolding frame_admitted_def by blast
  from frames_turned_away [OF this] show ?thesis by blast
qed

end
