(* ===== verification/Why.thy ===== *)
theory Why
  imports Mailroom
begin

text \<open>
  Why a connection is held back, \<^verbatim>\<open>Networking/Why/why.c\<close>: a counter per connection and reason, and the
  decision to print at most one line every 100 ticks. \<^verbatim>\<open>why_report\<close> only prints.
\<close>

section \<open>Model\<close>

definition WHY_SAY_EVERY_TICKS :: u32 where "WHY_SAY_EVERY_TICKS = 100"

datatype why_reason_t = WHY_NONE | WHY_SEND_WAITING_ACK | WHY_CLOSE_WAITING_ACK | WHY_OUT_OF_ORDER
  | WHY_STALE_RETRANSMIT | WHY_RETRANSMIT_TIMEOUT | WHY_PEER_WINDOW_FULL

fun why_code :: "why_reason_t \<Rightarrow> nat" where
  "why_code WHY_NONE = 0"
| "why_code WHY_SEND_WAITING_ACK = 1"
| "why_code WHY_CLOSE_WAITING_ACK = 2"
| "why_code WHY_OUT_OF_ORDER = 3"
| "why_code WHY_STALE_RETRANSMIT = 4"
| "why_code WHY_RETRANSMIT_TIMEOUT = 5"
| "why_code WHY_PEER_WINDOW_FULL = 6"

definition WHY_COUNT :: nat where "WHY_COUNT = 7"

record 's why = "'s mailroom" +
  wy_counts :: "u32 list list"
  wy_last_said :: "u32 list list"

definition why_init :: "('s, 'a) why_scheme \<Rightarrow> ('s, 'a) why_scheme" where
  "why_init s = s\<lparr>wy_counts := replicate LOCKBOX_CAPACITY (replicate WHY_COUNT 0),
                  wy_last_said := replicate LOCKBOX_CAPACITY (replicate WHY_COUNT 0)\<rparr>"

definition why_note :: "u32 \<Rightarrow> nat \<Rightarrow> why_reason_t \<Rightarrow> ('s, 'a) why_scheme \<Rightarrow> bool \<times> ('s, 'a) why_scheme" where
  "why_note now conn_id reason s =
     (if conn_id \<ge> LOCKBOX_CAPACITY \<or> reason = WHY_NONE then (False, s)
      else
        let r = why_code reason; counts = wy_counts s ! conn_id; said = wy_last_said s ! conn_id;
            say = (counts ! r = 0 \<or> now - said ! r \<ge> WHY_SAY_EVERY_TICKS);
            s = s\<lparr>wy_counts := (wy_counts s)[conn_id := counts[r := counts ! r + 1]]\<rparr>
        in (say, if say then s\<lparr>wy_last_said := (wy_last_said s)[conn_id := said[r := now]]\<rparr> else s))"

definition why_count :: "nat \<Rightarrow> why_reason_t \<Rightarrow> ('s, 'a) why_scheme \<Rightarrow> u32" where
  "why_count conn_id reason s =
     (if conn_id \<ge> LOCKBOX_CAPACITY \<or> reason = WHY_NONE then 0 else wy_counts s ! conn_id ! why_code reason)"

definition why_top_reason :: "nat \<Rightarrow> ('s, 'a) why_scheme \<Rightarrow> why_reason_t" where
  "why_top_reason conn_id s =
     (if conn_id \<ge> LOCKBOX_CAPACITY then WHY_NONE
      else fold (\<lambda>r best. if wy_counts s ! conn_id ! why_code r > (if best = WHY_NONE then 0 else wy_counts s ! conn_id ! why_code best)
                         then r else best)
        [WHY_SEND_WAITING_ACK, WHY_CLOSE_WAITING_ACK, WHY_OUT_OF_ORDER, WHY_STALE_RETRANSMIT, WHY_RETRANSMIT_TIMEOUT, WHY_PEER_WINDOW_FULL]
        WHY_NONE)"

fun why_reason_text :: "why_reason_t \<Rightarrow> string" where
  "why_reason_text WHY_SEND_WAITING_ACK = ''waiting for the peer to acknowledge our last segment before sending more''"
| "why_reason_text WHY_CLOSE_WAITING_ACK = ''waiting for our data to be acknowledged before closing''"
| "why_reason_text WHY_OUT_OF_ORDER = ''segments arrived out of order (a packet ahead of it was lost or delayed)''"
| "why_reason_text WHY_STALE_RETRANSMIT = ''the peer resent data we already had (our ACK was late or lost)''"
| "why_reason_text WHY_RETRANSMIT_TIMEOUT = ''no ACK arrived in time, so we sent the segment again''"
| "why_reason_text WHY_PEER_WINDOW_FULL = ''the peer's receive window was full''"
| "why_reason_text WHY_NONE = ''nothing to explain''"

section \<open>Noting touches nothing else\<close>

lemma why_note_next [simp]: "why.more (snd (why_note now c r s)) = why.more s"
  "nt_lockbox (snd (why_note now c r s)) = nt_lockbox s"
  by (simp_all add: why_note_def Let_def)

end
