(* ===== verification/Scheduler.thy ===== *)
theory Scheduler
  imports Why
begin

text \<open>
  TCP retransmission, \<^verbatim>\<open>Networking/Scheduler/scheduler.c\<close>: up to four segments in flight per connection,
  the smoothed round-trip time, fast retransmit after three duplicate acknowledgements. The timer,
  \<^verbatim>\<open>scheduler_tick\<close>, resets connections through \<^verbatim>\<open>rapport.c\<close> and is in theory Rapport.
\<close>

section \<open>Model\<close>

definition RETRY_LIMIT :: u32 where "RETRY_LIMIT = 8"
definition SCHED_INITIAL_RTO :: u32 where "SCHED_INITIAL_RTO = 100"
definition SCHED_MIN_RTO :: u32 where "SCHED_MIN_RTO = 20"
definition SCHED_MAX_RTO :: u32 where "SCHED_MAX_RTO = 1000"
definition SCHED_DUP_ACK_THRESHOLD :: u32 where "SCHED_DUP_ACK_THRESHOLD = 3"
definition SCHED_MAX_FRAME :: u16 where "SCHED_MAX_FRAME = BAILIFF_MAX_FRAME"
definition SCHED_WINDOW :: nat where "SCHED_WINDOW = 4"

datatype packet_sched_state_t = PACKET_STATE_IDLE | PACKET_STATE_RETRY | PACKET_STATE_FAILURE | PACKET_STATE_DROPPED

record sched_segment_t =
  sg_seq :: u32
  sg_length :: u16
  sg_seq_len :: u16
  sg_start_timer :: u32
  sg_in_use :: bool
  sg_retransmitted :: bool
  sg_frame :: bytes

record packets_state_t =
  pk_seg :: "sched_segment_t list"
  pk_state :: packet_sched_state_t
  pk_retry_track :: u32
  pk_srtt :: u32
  pk_rttvar :: u32
  pk_rto :: u32
  pk_last_ack_seen :: u32
  pk_dup_ack_count :: u32

record 's sched = "'s why" +
  sd_conns :: "packets_state_t list"
  sd_retransmit_total :: u32
  sd_giveup_total :: u32

definition seq_before :: "u32 \<Rightarrow> u32 \<Rightarrow> bool" where
  "seq_before a b \<longleftrightarrow> sint (a - b) < 0"

definition resend :: "u32 \<Rightarrow> sched_segment_t \<Rightarrow> nat \<Rightarrow> ('s, 'a) sched_scheme \<Rightarrow> bool \<times> ('s, 'a) sched_scheme" where
  "resend now e conn_id s =
     (case bailiff_transmit now (sg_frame e) (sg_length e) s of
        (True, s) \<Rightarrow> (True, snd (why_note now conn_id WHY_RETRANSMIT_TIMEOUT (s\<lparr>sd_retransmit_total := sd_retransmit_total s + 1\<rparr>)))
      | (False, s) \<Rightarrow> (False, s))"

definition oldest :: "packets_state_t \<Rightarrow> nat option" where
  "oldest c = fold (\<lambda>i best. if sg_in_use (pk_seg c ! i) \<and>
        (case best of None \<Rightarrow> True | Some b \<Rightarrow> seq_before (sg_seq (pk_seg c ! i)) (sg_seq (pk_seg c ! b)))
      then Some i else best) [0..<SCHED_WINDOW] None"

definition clear_window :: "packets_state_t \<Rightarrow> packets_state_t" where
  "clear_window c = c\<lparr>pk_seg := map (\<lambda>e. e\<lparr>sg_in_use := False\<rparr>) (pk_seg c), pk_state := PACKET_STATE_IDLE,
     pk_retry_track := 0, pk_dup_ack_count := 0\<rparr>"

definition scheduler_track :: "u32 \<Rightarrow> nat \<Rightarrow> u32 \<Rightarrow> u16 \<Rightarrow> bytes \<Rightarrow> u16 \<Rightarrow> ('s, 'a) sched_scheme \<Rightarrow> bool \<times> ('s, 'a) sched_scheme" where
  "scheduler_track now conn_id seq seq_len frame len s =
     (if conn_id \<ge> LOCKBOX_CAPACITY \<or> len = 0 \<or> len > SCHED_MAX_FRAME then (False, s)
      else
        let c = sd_conns s ! conn_id
        in case first_idx (\<lambda>e. \<not> sg_in_use e) (pk_seg c) of
             None \<Rightarrow> (False, s)
           | Some i \<Rightarrow>
               let e = (pk_seg c ! i)\<lparr>sg_seq := seq, sg_length := len, sg_seq_len := seq_len,
                         sg_frame := mem_copy (sg_frame (pk_seg c ! i)) frame (unat len), sg_start_timer := now,
                         sg_retransmitted := False, sg_in_use := True\<rparr>;
                   c = c\<lparr>pk_seg := (pk_seg c)[i := e]\<rparr>;
                   c = (if pk_state c \<noteq> PACKET_STATE_RETRY
                        then c\<lparr>pk_state := PACKET_STATE_RETRY, pk_retry_track := 0, pk_dup_ack_count := 0\<rparr> else c);
                   c = (if pk_rto c = 0 then c\<lparr>pk_rto := SCHED_INITIAL_RTO\<rparr> else c)
               in (True, s\<lparr>sd_conns := (sd_conns s)[conn_id := c]\<rparr>))"

text \<open>The loop of \<^verbatim>\<open>scheduler_ack\<close> over the segments: which stay, the round-trip sample (of the first freed
  segment that was not retransmitted), and how many were freed.\<close>

definition seg_acked :: "u32 \<Rightarrow> sched_segment_t \<Rightarrow> bool" where
  "seg_acked acked_seq e \<longleftrightarrow> sg_in_use e \<and> \<not> seq_before acked_seq (sg_seq e + ucast (sg_seq_len e))"

fun ack_loop :: "u32 \<Rightarrow> u32 \<Rightarrow> sched_segment_t list \<Rightarrow> u32 option \<Rightarrow> nat \<Rightarrow> sched_segment_t list \<times> u32 option \<times> nat" where
  "ack_loop now acked_seq [] sample freed = ([], sample, freed)"
| "ack_loop now acked_seq (e # es) sample freed =
     (if \<not> seg_acked acked_seq e
      then (case ack_loop now acked_seq es sample freed of (es', r) \<Rightarrow> (e # es', r))
      else
        let sample = (if \<not> sg_retransmitted e \<and> sample = None then Some (now - sg_start_timer e) else sample)
        in case ack_loop now acked_seq es sample (freed + 1) of (es', r) \<Rightarrow> (e\<lparr>sg_in_use := False\<rparr> # es', r))"

definition rtt_update :: "u32 \<Rightarrow> packets_state_t \<Rightarrow> packets_state_t" where
  "rtt_update sample c =
     (let c = (if pk_srtt c = 0 then c\<lparr>pk_srtt := sample, pk_rttvar := sample div 2\<rparr>
               else let diff = (if sample > pk_srtt c then sample - pk_srtt c else pk_srtt c - sample)
                    in c\<lparr>pk_rttvar := pk_rttvar c - pk_rttvar c div 4 + diff div 4, pk_srtt := pk_srtt c - pk_srtt c div 8 + sample div 8\<rparr>);
          rto = pk_srtt c + 4 * pk_rttvar c;
          rto = (if rto < SCHED_MIN_RTO then SCHED_MIN_RTO else rto);
          rto = (if rto > SCHED_MAX_RTO then SCHED_MAX_RTO else rto)
      in c\<lparr>pk_rto := rto\<rparr>)"

definition scheduler_ack :: "u32 \<Rightarrow> nat \<Rightarrow> u32 \<Rightarrow> ('s, 'a) sched_scheme \<Rightarrow> ('s, 'a) sched_scheme" where
  "scheduler_ack now conn_id acked_seq s =
     (if conn_id \<ge> LOCKBOX_CAPACITY then s
      else
        let c = sd_conns s ! conn_id
        in if pk_state c \<noteq> PACKET_STATE_RETRY then s
           else
             let (segs, sample, freed) = ack_loop now acked_seq (pk_seg c) None 0; c = c\<lparr>pk_seg := segs\<rparr>
             in if freed > 0
                then
                  let c = (case sample of Some t \<Rightarrow> rtt_update t c | None \<Rightarrow> c);
                      c = c\<lparr>pk_retry_track := 0, pk_dup_ack_count := 0, pk_last_ack_seen := acked_seq\<rparr>;
                      c = (if oldest c = None then c\<lparr>pk_state := PACKET_STATE_IDLE\<rparr> else c)
                  in s\<lparr>sd_conns := (sd_conns s)[conn_id := c]\<rparr>
                else if acked_seq = pk_last_ack_seen c
                then
                  let c = c\<lparr>pk_dup_ack_count := pk_dup_ack_count c + 1\<rparr>
                  in if pk_dup_ack_count c \<ge> SCHED_DUP_ACK_THRESHOLD
                     then
                       let s = (case oldest c of Some i \<Rightarrow> snd (resend now (pk_seg c ! i) conn_id s) | None \<Rightarrow> s)
                       in s\<lparr>sd_conns := (sd_conns s)[conn_id := c\<lparr>pk_dup_ack_count := 0\<rparr>]\<rparr>
                     else s\<lparr>sd_conns := (sd_conns s)[conn_id := c]\<rparr>
                else s\<lparr>sd_conns := (sd_conns s)[conn_id := c\<lparr>pk_last_ack_seen := acked_seq, pk_dup_ack_count := 0\<rparr>]\<rparr>)"

definition scheduler_cancel :: "nat \<Rightarrow> ('s, 'a) sched_scheme \<Rightarrow> ('s, 'a) sched_scheme" where
  "scheduler_cancel conn_id s =
     (if conn_id \<ge> LOCKBOX_CAPACITY then s
      else s\<lparr>sd_conns := (sd_conns s)[conn_id := (clear_window (sd_conns s ! conn_id))\<lparr>pk_rto := 0, pk_srtt := 0, pk_rttvar := 0\<rparr>]\<rparr>)"

definition scheduler_bytes_in_flight :: "nat \<Rightarrow> ('s, 'a) sched_scheme \<Rightarrow> u16" where
  "scheduler_bytes_in_flight conn_id s =
     (if conn_id \<ge> LOCKBOX_CAPACITY then 0
      else let tot = fold (\<lambda>e t. if sg_in_use e then t + ucast (sg_seq_len e) else t) (pk_seg (sd_conns s ! conn_id)) (0 :: u32)
           in if tot > 0xFFFF then 0xFFFF else ucast tot)"

definition scheduler_free_slots :: "nat \<Rightarrow> ('s, 'a) sched_scheme \<Rightarrow> nat" where
  "scheduler_free_slots conn_id s =
     (if conn_id \<ge> LOCKBOX_CAPACITY then 0 else count_if (\<lambda>e. \<not> sg_in_use e) (pk_seg (sd_conns s ! conn_id)))"

definition scheduler_retransmit_count :: "('s, 'a) sched_scheme \<Rightarrow> u32" where
  "scheduler_retransmit_count s = sd_retransmit_total s"

definition scheduler_giveup_count :: "('s, 'a) sched_scheme \<Rightarrow> u32" where
  "scheduler_giveup_count s = sd_giveup_total s"

section \<open>What retransmission leaves alone\<close>

lemma bailiff_more_sched:
  fixes s t :: "('s, 'a) sched_scheme"
  assumes "bailiff.more s = bailiff.more t"
  shows "sched.more s = sched.more t" "nt_lockbox s = nt_lockbox t" "sd_conns s = sd_conns t"
  using assms by (cases s, cases t, simp)+

lemma why_note_sched [simp]:
  fixes s :: "('s, 'a) sched_scheme"
  shows "sched.more (snd (why_note now c r s)) = sched.more s" "sd_conns (snd (why_note now c r s)) = sd_conns s"
  by (simp_all add: why_note_def Let_def)

lemma resend_keeps [simp]:
  fixes s :: "('s, 'a) sched_scheme"
  shows "sched.more (snd (resend now e c s)) = sched.more s" "nt_lockbox (snd (resend now e c s)) = nt_lockbox s"
    "sd_conns (snd (resend now e c s)) = sd_conns s"
proof -
  obtain ok t where r: "bailiff_transmit now (sg_frame e) (sg_length e) s = (ok, t)" by fastforce
  have "bailiff.more t = bailiff.more s" using transmit_more [of now "sg_frame e" "sg_length e" s] by (simp add: r)
  note f = bailiff_more_sched [OF this]
  show "sched.more (snd (resend now e c s)) = sched.more s" "nt_lockbox (snd (resend now e c s)) = nt_lockbox s"
    "sd_conns (snd (resend now e c s)) = sd_conns s"
    using f by (cases ok; simp add: resend_def r)+
qed

lemma scheduler_ack_keeps [simp]:
  fixes s :: "('s, 'a) sched_scheme"
  shows "sched.more (scheduler_ack now c a s) = sched.more s" "nt_lockbox (scheduler_ack now c a s) = nt_lockbox s"
  by (simp_all add: scheduler_ack_def Let_def split: prod.split option.split)

end
