(* ===== verification/Rapport.thy ===== *)
theory Rapport
  imports Scheduler
begin

text \<open>
  The TCP state machine of a connection, \<^verbatim>\<open>Networking/IPv4/Conversation/rapport.c\<close>, and the
  retransmission timer \<^verbatim>\<open>scheduler_tick\<close> of \<^verbatim>\<open>Networking/Scheduler/scheduler.c\<close>, which resets a
  connection through it. Every table is a list with one element per socket.
\<close>

section \<open>Model\<close>

datatype conversation_state_t = CONV_CLOSED | CONV_LISTEN | CONV_SYN_SENT | CONV_SYN_RECEIVED | CONV_ESTABLISHED
  | CONV_FIN_WAIT | CONV_CLOSING | CONV_TIME_WAIT | CONV_FIN_WAIT_1 | CONV_FIN_WAIT_2 | CONV_CLOSE_WAIT | CONV_LAST_ACK

definition CONV_TIME_WAIT_TICKS :: u32 where "CONV_TIME_WAIT_TICKS = 400"

record 's rapport = "'s sched" +
  rp_status :: "conversation_state_t list"
  rp_expected_seq :: "u32 list"
  rp_our_isn_table :: "u32 list"
  rp_our_fin_seq :: "u32 list"
  rp_time_wait_started :: "u32 list"
  rp_peer_window :: "u16 list"
  rp_send_seq :: "u32 list"

definition set_status :: "nat \<Rightarrow> conversation_state_t \<Rightarrow> ('s, 'a) rapport_scheme \<Rightarrow> ('s, 'a) rapport_scheme" where
  "set_status conn_id st s = s\<lparr>rp_status := (rp_status s)[conn_id := st]\<rparr>"

definition enter_time_wait :: "u32 \<Rightarrow> nat \<Rightarrow> ('s, 'a) rapport_scheme \<Rightarrow> ('s, 'a) rapport_scheme" where
  "enter_time_wait now conn_id s =
     (set_status conn_id CONV_TIME_WAIT s)\<lparr>rp_time_wait_started := (rp_time_wait_started s)[conn_id := now]\<rparr>"

definition rapport_on_syn :: "nat \<Rightarrow> u32 \<Rightarrow> u32 \<Rightarrow> ('s, 'a) rapport_scheme \<Rightarrow> ('s, 'a) rapport_scheme" where
  "rapport_on_syn conn_id peer_isn our_isn s =
     (if conn_id \<ge> LOCKBOX_CAPACITY then s
      else (set_status conn_id CONV_SYN_RECEIVED s)
        \<lparr>rp_expected_seq := (rp_expected_seq s)[conn_id := peer_isn + 1],
         rp_our_isn_table := (rp_our_isn_table s)[conn_id := our_isn],
         rp_send_seq := (rp_send_seq s)[conn_id := our_isn + 1]\<rparr>)"

definition rapport_initiate_close :: "nat \<Rightarrow> u32 \<Rightarrow> ('s, 'a) rapport_scheme \<Rightarrow> ('s, 'a) rapport_scheme" where
  "rapport_initiate_close conn_id fin_seq s =
     (if conn_id \<ge> LOCKBOX_CAPACITY then s
      else
        let s = s\<lparr>rp_our_fin_seq := (rp_our_fin_seq s)[conn_id := fin_seq]\<rparr>
        in if rp_status s ! conn_id = CONV_ESTABLISHED then set_status conn_id CONV_FIN_WAIT_1 s
           else if rp_status s ! conn_id = CONV_CLOSE_WAIT then set_status conn_id CONV_LAST_ACK s
           else s)"

text \<open>The three statements that let go of a slot, shared by an acknowledged last FIN and a reset.\<close>

definition hang_up :: "nat \<Rightarrow> ('s, 'a) rapport_scheme \<Rightarrow> ('s, 'a) rapport_scheme" where
  "hang_up conn_id s =
     (let s = scheduler_cancel conn_id (set_status conn_id CONV_CLOSED s)
      in s\<lparr>nt_lockbox := lockbox_release conn_id (nt_lockbox s)\<rparr>)"

definition rapport_on_ack :: "u32 \<Rightarrow> nat \<Rightarrow> u32 \<Rightarrow> ('s, 'a) rapport_scheme \<Rightarrow> ('s, 'a) rapport_scheme" where
  "rapport_on_ack now conn_id ack_num s =
     (if conn_id \<ge> LOCKBOX_CAPACITY then s
      else
        let fin_heard = (ack_num \<ge> rp_our_fin_seq s ! conn_id + 1)
        in case rp_status s ! conn_id of
             CONV_SYN_RECEIVED \<Rightarrow>
               (if ack_num \<noteq> rp_our_isn_table s ! conn_id + 1 then s else set_status conn_id CONV_ESTABLISHED s)
           | CONV_FIN_WAIT_1 \<Rightarrow> (if fin_heard then set_status conn_id CONV_FIN_WAIT_2 s else s)
           | CONV_CLOSING \<Rightarrow> (if fin_heard then enter_time_wait now conn_id s else s)
           | CONV_LAST_ACK \<Rightarrow> (if fin_heard then hang_up conn_id s else s)
           | _ \<Rightarrow> s)"

definition skip_fin :: "nat \<Rightarrow> ('s, 'a) rapport_scheme \<Rightarrow> ('s, 'a) rapport_scheme" where
  "skip_fin conn_id s = s\<lparr>rp_expected_seq := (rp_expected_seq s)[conn_id := rp_expected_seq s ! conn_id + 1]\<rparr>"

definition rapport_on_fin :: "u32 \<Rightarrow> nat \<Rightarrow> ('s, 'a) rapport_scheme \<Rightarrow> ('s, 'a) rapport_scheme" where
  "rapport_on_fin now conn_id s =
     (if conn_id \<ge> LOCKBOX_CAPACITY then s
      else case rp_status s ! conn_id of
             CONV_ESTABLISHED \<Rightarrow> set_status conn_id CONV_CLOSE_WAIT (skip_fin conn_id s)
           | CONV_FIN_WAIT_1 \<Rightarrow> set_status conn_id CONV_CLOSING (skip_fin conn_id s)
           | CONV_FIN_WAIT_2 \<Rightarrow> enter_time_wait now conn_id (skip_fin conn_id s)
           | _ \<Rightarrow> s)"

definition rapport_on_rst :: "nat \<Rightarrow> ('s, 'a) rapport_scheme \<Rightarrow> ('s, 'a) rapport_scheme" where
  "rapport_on_rst conn_id s =
     (if conn_id \<ge> LOCKBOX_CAPACITY \<or> rp_status s ! conn_id = CONV_CLOSED then s else hang_up conn_id s)"

definition rapport_tick_slot :: "u32 \<Rightarrow> nat \<Rightarrow> ('s, 'a) rapport_scheme \<Rightarrow> ('s, 'a) rapport_scheme" where
  "rapport_tick_slot now i s =
     (if rp_status s ! i \<noteq> CONV_TIME_WAIT \<or> now - rp_time_wait_started s ! i < CONV_TIME_WAIT_TICKS then s
      else (set_status i CONV_CLOSED s)\<lparr>nt_lockbox := lockbox_release i (nt_lockbox s)\<rparr>)"

definition rapport_tick :: "u32 \<Rightarrow> ('s, 'a) rapport_scheme \<Rightarrow> ('s, 'a) rapport_scheme" where
  "rapport_tick now s = fold (rapport_tick_slot now) [0..<LOCKBOX_CAPACITY] s"

definition rapport_set_peer_window :: "nat \<Rightarrow> u16 \<Rightarrow> ('s, 'a) rapport_scheme \<Rightarrow> ('s, 'a) rapport_scheme" where
  "rapport_set_peer_window conn_id window s =
     (if conn_id \<ge> LOCKBOX_CAPACITY then s else s\<lparr>rp_peer_window := (rp_peer_window s)[conn_id := window]\<rparr>)"

definition rapport_get_peer_window :: "nat \<Rightarrow> ('s, 'a) rapport_scheme \<Rightarrow> u16" where
  "rapport_get_peer_window conn_id s = (if conn_id \<ge> LOCKBOX_CAPACITY then 0 else rp_peer_window s ! conn_id)"

definition rapport_initiate_connect :: "nat \<Rightarrow> u32 \<Rightarrow> ('s, 'a) rapport_scheme \<Rightarrow> ('s, 'a) rapport_scheme" where
  "rapport_initiate_connect conn_id our_isn s =
     (if conn_id \<ge> LOCKBOX_CAPACITY then s
      else (set_status conn_id CONV_SYN_SENT s)\<lparr>rp_our_isn_table := (rp_our_isn_table s)[conn_id := our_isn]\<rparr>)"

definition rapport_on_syn_ack :: "nat \<Rightarrow> u32 \<Rightarrow> u32 \<Rightarrow> ('s, 'a) rapport_scheme \<Rightarrow> bool \<times> ('s, 'a) rapport_scheme" where
  "rapport_on_syn_ack conn_id peer_isn ack_num s =
     (if conn_id \<ge> LOCKBOX_CAPACITY \<or> rp_status s ! conn_id \<noteq> CONV_SYN_SENT \<or> ack_num \<noteq> rp_our_isn_table s ! conn_id + 1
      then (False, s)
      else
        let s = s\<lparr>rp_expected_seq := (rp_expected_seq s)[conn_id := peer_isn + 1]\<rparr>;
            s = set_status conn_id CONV_ESTABLISHED s
        in (True, s\<lparr>rp_send_seq := (rp_send_seq s)[conn_id := rp_our_isn_table s ! conn_id + 1]\<rparr>))"

definition rapport_send_allowed :: "nat \<Rightarrow> u16 \<Rightarrow> ('s, 'a) rapport_scheme \<Rightarrow> bool" where
  "rapport_send_allowed conn_id len s \<longleftrightarrow>
     conn_id < LOCKBOX_CAPACITY \<and>
     (ucast (scheduler_bytes_in_flight conn_id s) + ucast len :: u32) \<le> ucast (rp_peer_window s ! conn_id)"

definition rapport_seq_expected :: "nat \<Rightarrow> u32 \<Rightarrow> ('s, 'a) rapport_scheme \<Rightarrow> bool" where
  "rapport_seq_expected conn_id seq s \<longleftrightarrow> conn_id < LOCKBOX_CAPACITY \<and> seq = rp_expected_seq s ! conn_id"

definition rapport_get_expected_seq :: "nat \<Rightarrow> ('s, 'a) rapport_scheme \<Rightarrow> u32" where
  "rapport_get_expected_seq conn_id s = (if conn_id \<ge> LOCKBOX_CAPACITY then 0 else rp_expected_seq s ! conn_id)"

definition rapport_get_send_seq :: "nat \<Rightarrow> ('s, 'a) rapport_scheme \<Rightarrow> u32" where
  "rapport_get_send_seq conn_id s = (if conn_id \<ge> LOCKBOX_CAPACITY then 0 else rp_send_seq s ! conn_id)"

definition rapport_advance_send_seq :: "nat \<Rightarrow> u16 \<Rightarrow> ('s, 'a) rapport_scheme \<Rightarrow> ('s, 'a) rapport_scheme" where
  "rapport_advance_send_seq conn_id amount s =
     (if conn_id \<ge> LOCKBOX_CAPACITY then s
      else s\<lparr>rp_send_seq := (rp_send_seq s)[conn_id := rp_send_seq s ! conn_id + ucast amount]\<rparr>)"

definition rapport_get_our_isn :: "nat \<Rightarrow> ('s, 'a) rapport_scheme \<Rightarrow> u32" where
  "rapport_get_our_isn conn_id s = (if conn_id \<ge> LOCKBOX_CAPACITY then 0 else rp_our_isn_table s ! conn_id)"

definition rapport_seq_is_stale_retransmit :: "nat \<Rightarrow> u32 \<Rightarrow> u16 \<Rightarrow> ('s, 'a) rapport_scheme \<Rightarrow> bool" where
  "rapport_seq_is_stale_retransmit conn_id seq data_len s \<longleftrightarrow>
     conn_id < LOCKBOX_CAPACITY \<and> seq < rp_expected_seq s ! conn_id \<and> seq + ucast data_len \<le> rp_expected_seq s ! conn_id"

definition rapport_advance_seq :: "nat \<Rightarrow> u16 \<Rightarrow> ('s, 'a) rapport_scheme \<Rightarrow> ('s, 'a) rapport_scheme" where
  "rapport_advance_seq conn_id amount s =
     (if conn_id \<ge> LOCKBOX_CAPACITY then s
      else s\<lparr>rp_expected_seq := (rp_expected_seq s)[conn_id := rp_expected_seq s ! conn_id + ucast amount]\<rparr>)"

definition rapport_get_state :: "nat \<Rightarrow> ('s, 'a) rapport_scheme \<Rightarrow> conversation_state_t" where
  "rapport_get_state conn_id s = (if conn_id \<ge> LOCKBOX_CAPACITY then CONV_CLOSED else rp_status s ! conn_id)"

fun rapport_state_string :: "conversation_state_t \<Rightarrow> string" where
  "rapport_state_string CONV_CLOSED = ''closed''"
| "rapport_state_string CONV_LISTEN = ''listening''"
| "rapport_state_string CONV_SYN_SENT = ''syn sent''"
| "rapport_state_string CONV_SYN_RECEIVED = ''said hi, waiting to hear back''"
| "rapport_state_string CONV_ESTABLISHED = ''mid-conversation''"
| "rapport_state_string CONV_FIN_WAIT = ''wrapping up''"
| "rapport_state_string CONV_FIN_WAIT_1 = ''said our goodbyes, waiting for a reply''"
| "rapport_state_string CONV_FIN_WAIT_2 = ''goodbye heard, waiting for theirs''"
| "rapport_state_string CONV_CLOSE_WAIT = ''they said goodbye, we haven't yet''"
| "rapport_state_string CONV_LAST_ACK = ''said our goodbyes second, waiting for a reply''"
| "rapport_state_string CONV_CLOSING = ''both said goodbye at once''"
| "rapport_state_string CONV_TIME_WAIT = ''wrapping up''"

subsection \<open>The retransmission timer\<close>

definition scheduler_tick_slot :: "u32 \<Rightarrow> nat \<Rightarrow> ('s, 'a) rapport_scheme \<Rightarrow> ('s, 'a) rapport_scheme" where
  "scheduler_tick_slot now i s =
     (let c = sd_conns s ! i
      in if pk_state c \<noteq> PACKET_STATE_RETRY then s
         else case oldest c of
           None \<Rightarrow> s\<lparr>sd_conns := (sd_conns s)[i := c\<lparr>pk_state := PACKET_STATE_IDLE\<rparr>]\<rparr>
         | Some k \<Rightarrow>
             if now - sg_start_timer (pk_seg c ! k) < pk_rto c then s
             else if pk_retry_track c \<ge> RETRY_LIMIT
             then rapport_on_rst i (s\<lparr>sd_conns := (sd_conns s)[i := (clear_window c)\<lparr>pk_state := PACKET_STATE_FAILURE\<rparr>],
                                     sd_giveup_total := sd_giveup_total s + 1\<rparr>)
             else
               let s = snd (resend now (pk_seg c ! k) i s);
                   c = c\<lparr>pk_seg := map (\<lambda>e. e\<lparr>sg_retransmitted := True\<rparr>) (pk_seg c)\<rparr>;
                   c = c\<lparr>pk_rto := if pk_rto c * 2 > SCHED_MAX_RTO then SCHED_MAX_RTO else pk_rto c * 2,
                          pk_retry_track := pk_retry_track c + 1\<rparr>;
                   c = c\<lparr>pk_seg := (pk_seg c)[k := (pk_seg c ! k)\<lparr>sg_start_timer := now\<rparr>]\<rparr>
               in s\<lparr>sd_conns := (sd_conns s)[i := c]\<rparr>)"

definition scheduler_tick :: "u32 \<Rightarrow> ('s, 'a) rapport_scheme \<Rightarrow> ('s, 'a) rapport_scheme" where
  "scheduler_tick now s = fold (scheduler_tick_slot now) [0..<LOCKBOX_CAPACITY] s"

end
