(* ===== verification/WayStation.thy ===== *)
theory WayStation
  imports Rapport Inbox
begin

text \<open>
  Segments that arrived ahead of a gap, \<^verbatim>\<open>Networking/WayStation/waystation.c\<close>: four per socket, held until
  the sequence number they start at is the one expected, then moved to the socket's inbox. The state
  adds the holding area and the inbox to the connection state.
\<close>

section \<open>Model\<close>

definition WAYSTATION_MAX_SEGMENT :: u16 where "WAYSTATION_MAX_SEGMENT = 1460"
definition WAYSTATION_MAX_PENDING :: nat where "WAYSTATION_MAX_PENDING = 4"

record held_segment_t =
  hs_seq :: u32
  hs_len :: u16
  hs_in_use :: bool
  hs_data :: bytes

record 's waystation = "'s rapport" +
  nt_inbox :: inbox
  ws_slots :: "held_segment_t list list"
  ws_seen_generation :: "u32 list"

definition ws_reset_if_stale :: "nat \<Rightarrow> ('s, 'a) waystation_scheme \<Rightarrow> ('s, 'a) waystation_scheme" where
  "ws_reset_if_stale conn_id s =
     (let gen = lockbox_get_generation conn_id (nt_lockbox s)
      in if ws_seen_generation s ! conn_id \<noteq> gen
         then s\<lparr>ws_slots := (ws_slots s)[conn_id := map (\<lambda>h. h\<lparr>hs_in_use := False\<rparr>) (ws_slots s ! conn_id)],
                ws_seen_generation := (ws_seen_generation s)[conn_id := gen]\<rparr>
         else s)"

definition waystation_hold :: "nat \<Rightarrow> u32 \<Rightarrow> bytes \<Rightarrow> u16 \<Rightarrow> ('s, 'a) waystation_scheme \<Rightarrow> bool \<times> ('s, 'a) waystation_scheme" where
  "waystation_hold conn_id seq payload len s =
     (if conn_id \<ge> LOCKBOX_CAPACITY \<or> len = 0 \<or> len > WAYSTATION_MAX_SEGMENT then (False, s)
      else
        let s = ws_reset_if_stale conn_id s; row = ws_slots s ! conn_id
        in if \<exists>h\<in>set row. hs_in_use h \<and> hs_seq h = seq then (True, s)
           else case first_idx (\<lambda>h. \<not> hs_in_use h) row of
             None \<Rightarrow> (False, s)
           | Some i \<Rightarrow>
               let h = (row ! i)\<lparr>hs_seq := seq, hs_len := len, hs_data := mem_copy (hs_data (row ! i)) payload (unat len), hs_in_use := True\<rparr>
               in (True, s\<lparr>ws_slots := (ws_slots s)[conn_id := row[i := h]]\<rparr>))"

text \<open>\<^verbatim>\<open>inbox_deposit\<close> on the state, which has the inbox and the socket table as two fields.\<close>

definition deposit :: "nat \<Rightarrow> bytes \<Rightarrow> u16 \<Rightarrow> ('s, 'a) waystation_scheme \<Rightarrow> bool \<times> ('s, 'a) waystation_scheme" where
  "deposit conn_id payload len s =
     (case inbox_deposit conn_id payload len (nt_inbox s, nt_lockbox s) of
        (ok, ib, lb) \<Rightarrow> (ok, s\<lparr>nt_inbox := ib, nt_lockbox := lb\<rparr>))"

definition release_held :: "nat \<Rightarrow> nat \<Rightarrow> ('s, 'a) waystation_scheme \<Rightarrow> ('s, 'a) waystation_scheme" where
  "release_held conn_id i s =
     s\<lparr>ws_slots := (ws_slots s)[conn_id := (ws_slots s ! conn_id)[i := (ws_slots s ! conn_id ! i)\<lparr>hs_in_use := False\<rparr>]]\<rparr>"

text \<open>The loop of \<^verbatim>\<open>waystation_drain\<close>. Each round clears the flag of one held segment of the row, so it ends.
  Its first test is the one on the connection number, against the number of rows.\<close>

lemma deposit_slots [simp]: "ws_slots (snd (deposit conn_id payload len s)) = ws_slots s"
  by (simp add: deposit_def split: prod.split)

lemma advance_slots [simp]: "ws_slots (rapport_advance_seq conn_id n s) = ws_slots s"
  by (simp add: rapport_advance_seq_def)

lemma release_held_count:
  assumes "first_idx (\<lambda>h. hs_in_use h \<and> P h) (ws_slots s ! conn_id) = Some i" "conn_id < length (ws_slots s)"
  shows "count_if hs_in_use (ws_slots (release_held conn_id i s) ! conn_id) < count_if hs_in_use (ws_slots s ! conn_id)"
proof -
  have i: "i < length (ws_slots s ! conn_id)" "hs_in_use (ws_slots s ! conn_id ! i)" using assms(1) by auto
  then show ?thesis
    using assms(2) count_if_pos [OF i(1), of hs_in_use] by (simp add: release_held_def count_if_clear)
qed

function ws_drain_loop :: "nat \<Rightarrow> nat \<Rightarrow> ('s, 'a) waystation_scheme \<Rightarrow> nat \<times> ('s, 'a) waystation_scheme" where
  "ws_drain_loop conn_id drained s =
     (if conn_id \<ge> length (ws_slots s) then (drained, s)
      else case first_idx (\<lambda>h. hs_in_use h \<and> hs_seq h = rapport_get_expected_seq conn_id s) (ws_slots s ! conn_id) of
        None \<Rightarrow> (drained, s)
      | Some i \<Rightarrow>
          let h = ws_slots s ! conn_id ! i; (ok, s') = deposit conn_id (hs_data h) (hs_len h) s
          in if \<not> ok then (drained, s')
             else ws_drain_loop conn_id (drained + 1) (release_held conn_id i (rapport_advance_seq conn_id (hs_len h) s')))"
  by pat_completeness auto
termination
proof (relation "measure (\<lambda>(conn_id, drained, s). count_if hs_in_use (ws_slots s ! conn_id))", goal_cases)
  case (2 conn_id drained s i h r ok s')
  have "ws_slots s' = ws_slots s" using 2(3-5) deposit_slots [of conn_id "hs_data h" "hs_len h" s] by (metis snd_conv)
  then show ?case
    using release_held_count [of _ "rapport_advance_seq conn_id (hs_len h) s'" conn_id i] 2(1,2) by simp
qed simp

declare ws_drain_loop.simps [simp del]

lemma ws_drain_loop_keeps:
  assumes dep: "\<And>t d l. P t \<Longrightarrow> P (snd (deposit c d l t))"
    and rel: "\<And>t l i. P t \<Longrightarrow> P (release_held c i (rapport_advance_seq c l t))"
  shows "P s \<Longrightarrow> P (snd (ws_drain_loop c n s))"
proof (induction "count_if hs_in_use (ws_slots s ! c)" arbitrary: n s rule: less_induct)
  case less
  show ?case
  proof (cases "c < length (ws_slots s)")
    case c: True
    show ?thesis
    proof (cases "first_idx (\<lambda>h. hs_in_use h \<and> hs_seq h = rapport_get_expected_seq c s) (ws_slots s ! c)")
      case None
      then show ?thesis using less.prems by (simp add: ws_drain_loop.simps)
    next
      case (Some i)
      let ?h = "ws_slots s ! c ! i"
      obtain ok t where d: "deposit c (hs_data ?h) (hs_len ?h) s = (ok, t)" by fastforce
      let ?u = "release_held c i (rapport_advance_seq c (hs_len ?h) t)"
      have t: "P t" "ws_slots t = ws_slots s"
        using dep [OF less.prems, of "hs_data ?h" "hs_len ?h"] deposit_slots [of c "hs_data ?h" "hs_len ?h" s] by (simp_all add: d)
      have "count_if hs_in_use (ws_slots ?u ! c) < count_if hs_in_use (ws_slots s ! c)"
        using release_held_count [of _ "rapport_advance_seq c (hs_len ?h) t" c i] Some c t(2) by simp
      then have "P (snd (ws_drain_loop c (n + 1) ?u))" by (rule less.hyps) (rule rel [OF t(1)])
      then show ?thesis using c Some d t(1) by (simp add: ws_drain_loop.simps [of c n s] Let_def)
    qed
  qed (use less.prems in \<open>simp add: ws_drain_loop.simps\<close>)
qed

definition waystation_drain :: "nat \<Rightarrow> ('s, 'a) waystation_scheme \<Rightarrow> nat \<times> ('s, 'a) waystation_scheme" where
  "waystation_drain conn_id s =
     (if conn_id \<ge> LOCKBOX_CAPACITY then (0, s) else ws_drain_loop conn_id 0 (ws_reset_if_stale conn_id s))"

definition held_bytes :: "held_segment_t list \<Rightarrow> u32" where
  "held_bytes row = fold (\<lambda>h t. if hs_in_use h then t + ucast (hs_len h) else t) row 0"

definition waystation_receive_window :: "nat \<Rightarrow> ('s, 'a) waystation_scheme \<Rightarrow> u16 \<times> ('s, 'a) waystation_scheme" where
  "waystation_receive_window conn_id s =
     (if conn_id \<ge> LOCKBOX_CAPACITY then (0, s)
      else
        let s = ws_reset_if_stale conn_id s;
            (avail, ib, lb) = inbox_available conn_id (nt_inbox s, nt_lockbox s);
            s = s\<lparr>nt_inbox := ib, nt_lockbox := lb\<rparr>;
            free_space = of_nat LOCKBOX_MAX_BUFFERED - of_nat avail :: u32;
            held = held_bytes (ws_slots s ! conn_id)
        in (if held \<ge> free_space then 0
            else let window = free_space - held in if window > 0xFFFF then 0xFFFF else ucast window, s))"

definition waystation_pending_count :: "nat \<Rightarrow> ('s, 'a) waystation_scheme \<Rightarrow> nat \<times> ('s, 'a) waystation_scheme" where
  "waystation_pending_count conn_id s =
     (if conn_id \<ge> LOCKBOX_CAPACITY then (0, s)
      else let s = ws_reset_if_stale conn_id s in (count_if hs_in_use (ws_slots s ! conn_id), s))"

section \<open>Reassembly\<close>

text \<open>The peer's bytes as a function of their offset from the sequence number \<open>base\<close>, and a segment that
  carries a piece of them.\<close>

definition carries :: "(nat \<Rightarrow> u8) \<Rightarrow> u32 \<Rightarrow> u32 \<Rightarrow> bytes \<Rightarrow> bool" where
  "carries stream base seq data \<longleftrightarrow> unat (seq - base) + length data < 2 ^ 32 \<and>
     data = map stream [unat (seq - base)..<unat (seq - base) + length data]"

definition rx_offset :: "u32 \<Rightarrow> nat \<Rightarrow> ('s, 'a) waystation_scheme \<Rightarrow> nat" where
  "rx_offset base c s = unat (rp_expected_seq s ! c - base)"

definition rx_stream :: "nat \<Rightarrow> ('s, 'a) waystation_scheme \<Rightarrow> bytes" where
  "rx_stream c s = inbox_bytes c (nt_inbox s, nt_lockbox s)"

definition held_ok :: "(nat \<Rightarrow> u8) \<Rightarrow> u32 \<Rightarrow> held_segment_t \<Rightarrow> bool" where
  "held_ok stream base h \<longleftrightarrow> (hs_in_use h \<longrightarrow> unat (hs_len h) \<le> length (hs_data h) \<and>
     carries stream base (hs_seq h) (take (unat (hs_len h)) (hs_data h)))"

text \<open>A socket in use whose held segments all carry pieces of the stream.\<close>

definition receiving :: "(nat \<Rightarrow> u8) \<Rightarrow> u32 \<Rightarrow> nat \<Rightarrow> ('s, 'a) waystation_scheme \<Rightarrow> bool" where
  "receiving stream base c s \<longleftrightarrow> open_inv c (nt_inbox s, nt_lockbox s) \<and> c < length (rp_expected_seq s) \<and>
     c < length (ws_slots s) \<and> (\<forall>h\<in>set (ws_slots s ! c). held_ok stream base h)"

text \<open>What a step of the receiver may do: append the next bytes of the stream, as many as the expected
  sequence number advances.\<close>

definition progress :: "(nat \<Rightarrow> u8) \<Rightarrow> u32 \<Rightarrow> nat \<Rightarrow> ('s, 'a) waystation_scheme \<Rightarrow> ('s, 'a) waystation_scheme \<Rightarrow> bool" where
  "progress stream base c s s' \<longleftrightarrow> receiving stream base c s' \<and> rx_offset base c s \<le> rx_offset base c s' \<and>
     rx_stream c s' = rx_stream c s @ map stream [rx_offset base c s..<rx_offset base c s']"

lemma progress_receiving: "progress f b c s s' \<Longrightarrow> receiving f b c s'"
  by (simp add: progress_def)

lemma upt_append: "i \<le> j \<Longrightarrow> j \<le> k \<Longrightarrow> [i..<j] @ [j..<k] = [i..<k]"
  using upt_add_eq_append [of i j "k - j"] by simp

lemma progress_trans [trans]: "progress f b c s t \<Longrightarrow> progress f b c t u \<Longrightarrow> progress f b c s u"
  using upt_append [of "rx_offset b c s" "rx_offset b c t" "rx_offset b c u"]
  by (simp add: progress_def flip: map_append)

lemma progress_same:
  assumes "receiving f b c s" "nt_inbox s' = nt_inbox s" "nt_lockbox s' = nt_lockbox s" "rp_expected_seq s' = rp_expected_seq s"
    "ws_slots s' = ws_slots s"
  shows "progress f b c s s'"
  using assms by (simp add: progress_def receiving_def rx_offset_def rx_stream_def)

lemma inbox_deposit_take: "inbox_deposit k (take (unat len) p) len st = inbox_deposit k p len st"
  by (simp add: inbox_deposit_def Let_def split: prod.split)

lemma deposit_progress:
  assumes r: "receiving f b c s" and len: "unat len \<le> length data" and car: "carries f b (rp_expected_seq s ! c) (take (unat len) data)"
    and d: "deposit c data len s = (ok, t)"
  shows "if ok then progress f b c s (rapport_advance_seq c len t) else progress f b c s t"
proof -
  obtain ib lb where st: "nt_inbox s = ib" "nt_lockbox s = lb" by simp
  have inv: "inbox_inv (ib, lb)" and c: "c < 64" and use: "in_use (table lb ! c)"
    using r by (simp_all add: receiving_def open_inv_def st LOCKBOX_CAPACITY_def)
  obtain ib' lb' where run: "inbox_deposit c data len (ib, lb) = (ok, ib', lb')" and t: "t = s\<lparr>nt_inbox := ib', nt_lockbox := lb'\<rparr>"
    using d by (auto simp: deposit_def st split: prod.splits)
  have sp: "inbox_inv (ib', lb')" "inbox_bytes c (ib', lb') = inbox_bytes c (ib, lb) @ (if ok then take (unat len) data else [])"
    "in_use (table lb' ! c)"
    using inbox_deposit_spec [OF inv c, of "take (unat len) data" len] len use by (simp_all add: inbox_deposit_take run)
  let ?e = "rp_expected_seq s ! c"
  have rx: "rx_stream c s = inbox_bytes c (ib, lb)" "rx_offset b c s = unat (?e - b)" by (simp_all add: rx_stream_def rx_offset_def st)
  show ?thesis
  proof (cases ok)
    case True
    let ?u = "rapport_advance_seq c len t"
    have l: "unat (ucast len :: u32) = unat len" using unsigned_less [of len] by (simp add: unsigned_ucast_eq take_bit_eq_mod)
    have "unat (?e - b) + unat len < 2 ^ 32" using car len by (simp add: carries_def)
    then have "unat ((?e - b) + ucast len) = unat (?e - b) + unat len" using l by (subst unat_add_no_wrap) simp_all
    then have e: "rx_offset b c ?u = unat (?e - b) + unat len"
      using r c by (simp add: rx_offset_def rapport_advance_seq_def t receiving_def LOCKBOX_CAPACITY_def diff_add_eq)
    have "take (unat len) data = map f [unat (?e - b)..<unat (?e - b) + unat len]"
      using car len unfolding carries_def by (simp add: min_absorb2)
    then have "rx_stream c ?u = rx_stream c s @ map f [rx_offset b c s..<rx_offset b c ?u]"
      using sp(2) True by (simp add: rx e) (simp add: rx_stream_def rapport_advance_seq_def t)
    moreover have "receiving f b c ?u"
      using r sp c by (simp add: receiving_def open_inv_def rapport_advance_seq_def t)
    ultimately show ?thesis using True e rx(2) by (simp add: progress_def)
  next
    case False
    have "receiving f b c t" using r sp by (simp add: receiving_def open_inv_def t)
    then show ?thesis using False sp(2) by (simp add: progress_def rx_offset_def rx_stream_def t st)
  qed
qed

lemma release_progress:
  assumes "receiving f b c s"
  shows "progress f b c s (release_held c i s)"
proof -
  have "held_ok f b ((ws_slots s ! c ! i)\<lparr>hs_in_use := False\<rparr>)" by (simp add: held_ok_def)
  then have "receiving f b c (release_held c i s)"
    using assms by (auto simp: receiving_def release_held_def dest: set_update_subset_insert [THEN subsetD])
  then show ?thesis by (simp add: progress_def rx_offset_def rx_stream_def release_held_def)
qed

lemma reset_progress:
  assumes "receiving f b c s"
  shows "progress f b c s (ws_reset_if_stale c s)"
proof -
  have "receiving f b c (ws_reset_if_stale c s)"
    using assms by (auto simp: receiving_def ws_reset_if_stale_def Let_def held_ok_def)
  then show ?thesis by (simp add: progress_def rx_offset_def rx_stream_def ws_reset_if_stale_def Let_def)
qed

lemma drain_progress: "receiving f b c s \<Longrightarrow> progress f b c s (snd (ws_drain_loop c n s))"
proof (induction c n s rule: ws_drain_loop.induct)
  case (1 c n s)
  have c: "c < length (ws_slots s)" "c < LOCKBOX_CAPACITY" using 1(2) by (simp_all add: receiving_def open_inv_def)
  show ?case
  proof (cases "first_idx (\<lambda>h. hs_in_use h \<and> hs_seq h = rapport_get_expected_seq c s) (ws_slots s ! c)")
    case None
    then show ?thesis using 1(2) progress_same [OF 1(2)] by (simp add: ws_drain_loop.simps)
  next
    case (Some i)
    let ?h = "ws_slots s ! c ! i"
    obtain ok t where d: "deposit c (hs_data ?h) (hs_len ?h) s = (ok, t)" by fastforce
    have i: "i < length (ws_slots s ! c)" "hs_in_use ?h" "hs_seq ?h = rp_expected_seq s ! c"
      using Some c(2) by (auto simp: rapport_get_expected_seq_def)
    then have "held_ok f b ?h" using 1(2) by (simp add: receiving_def)
    then have p: "if ok then progress f b c s (rapport_advance_seq c (hs_len ?h) t) else progress f b c s t"
      using i by (intro deposit_progress [OF 1(2) _ _ d]) (simp_all add: held_ok_def)
    show ?thesis
    proof (cases ok)
      case True
      let ?u = "release_held c i (rapport_advance_seq c (hs_len ?h) t)"
      have v: "progress f b c s (rapport_advance_seq c (hs_len ?h) t)" using p True by simp
      have "progress f b c s ?u" by (rule progress_trans [OF v release_progress [OF progress_receiving [OF v]]])
      moreover have "progress f b c ?u (snd (ws_drain_loop c (n + 1) ?u))"
        using calculation 1(1) [OF _ Some refl, of "(ok, t)" ok t] c(1) d True by (auto dest: progress_receiving)
      ultimately have "progress f b c s (snd (ws_drain_loop c (n + 1) ?u))" by (rule progress_trans)
      then show ?thesis using c(1) Some d True by (simp add: ws_drain_loop.simps [of c n s] Let_def)
    next
      case False
      then show ?thesis using c(1) Some d p by (simp add: ws_drain_loop.simps [of c n s] Let_def)
    qed
  qed
qed

lemma waystation_drain_progress:
  assumes "receiving f b c s"
  shows "progress f b c s (snd (waystation_drain c s))"
proof -
  have r: "progress f b c s (ws_reset_if_stale c s)" by (rule reset_progress [OF assms])
  then have "progress f b c (ws_reset_if_stale c s) (snd (ws_drain_loop c 0 (ws_reset_if_stale c s)))"
    by (intro drain_progress progress_receiving)
  with r have "progress f b c s (snd (ws_drain_loop c 0 (ws_reset_if_stale c s)))" by (rule progress_trans)
  then show ?thesis using assms by (simp add: waystation_drain_def receiving_def open_inv_def)
qed

lemma waystation_hold_progress:
  assumes r: "receiving f b c s" and len: "unat len \<le> length data" and car: "carries f b seq (take (unat len) data)"
  shows "progress f b c s (snd (waystation_hold c seq data len s))"
proof -
  let ?s = "ws_reset_if_stale c s"
  have p: "progress f b c s ?s" by (rule reset_progress [OF r])
  then have r': "receiving f b c ?s" by (simp add: progress_def)
  define put where "put i = ?s\<lparr>ws_slots := (ws_slots ?s)[c := (ws_slots ?s ! c)[i := (ws_slots ?s ! c ! i)
    \<lparr>hs_seq := seq, hs_len := len, hs_data := mem_copy (hs_data (ws_slots ?s ! c ! i)) data (unat len), hs_in_use := True\<rparr>]]\<rparr>" for i
  have "receiving f b c (put i)" for i
  proof -
    have "unat len \<le> length (mem_copy d data (unat len))" for d using len by (simp add: mem_copy_def)
    then show ?thesis using r' len car
      by (auto simp: receiving_def put_def held_ok_def dest!: set_update_subset_insert [THEN subsetD])
  qed
  then have "progress f b c ?s (put i)" for i by (simp add: progress_def rx_offset_def rx_stream_def put_def)
  then have q: "progress f b c s (put i)" for i by (rule progress_trans [OF p])
  have "snd (waystation_hold c seq data len s) \<in> {s, ?s} \<union> range put"
    by (auto simp: waystation_hold_def Let_def put_def split: option.split)
  then show ?thesis using p q progress_same [OF r, of s] by auto
qed

end
