(* ===== verification/SynCookie.thy ===== *)
theory SynCookie
  imports LockBox Wire
begin

text \<open>
  Initial sequence numbers, \<^verbatim>\<open>Networking/Lottery/lottery.c\<close>, and the stateless handshake cookies,
  \<^verbatim>\<open>Networking/SynCookie/syncookie.c\<close>, whose secret is drawn from the former on first use.
\<close>

section \<open>Model\<close>

record lottery =
  boot_secret :: u32
  call_counter :: u32

definition mix32 :: "u32 \<Rightarrow> u32" where
  "mix32 x =
     (let x = x XOR drop_bit 16 x; x = x * 0x85ebca6b; x = x XOR drop_bit 13 x; x = x * 0xc2b2ae35
      in x XOR drop_bit 16 x)"

definition lottery_init :: "u32 \<Rightarrow> 'a lottery_scheme \<Rightarrow> 'a lottery_scheme" where
  "lottery_init now s = s\<lparr>boot_secret := mix32 (now XOR 0x9E3779B9), call_counter := 0\<rparr>"

definition lottery_draw_isn :: "u32 \<Rightarrow> bytes \<Rightarrow> u16 \<Rightarrow> bytes \<Rightarrow> u16 \<Rightarrow> 'a lottery_scheme \<Rightarrow> u32 \<times> 'a lottery_scheme" where
  "lottery_draw_isn now lip lport rip rport s =
     (let h = boot_secret s;
          h = mix32 (h XOR mix32 (be_ipv4 lip 0));
          h = mix32 (h XOR mix32 (be_ipv4 rip 0));
          h = mix32 (h XOR mix32 (push_bit 16 (ucast lport) OR ucast rport));
          h = mix32 (h XOR mix32 now);
          h = mix32 (h XOR mix32 (call_counter s))
      in (h, s\<lparr>call_counter := call_counter s + 1\<rparr>))"

definition SYNCOOKIE_LOAD_NUM :: nat where "SYNCOOKIE_LOAD_NUM = 3"
definition SYNCOOKIE_LOAD_DEN :: nat where "SYNCOOKIE_LOAD_DEN = 4"
definition TIME_BUCKET_SHIFT :: nat where "TIME_BUCKET_SHIFT = 5"

record syncookie = lottery +
  sc_secret :: u32
  sc_secret_ready :: bool

definition syncookie_boot :: syncookie where
  "syncookie_boot = \<lparr>boot_secret = 0, call_counter = 0, sc_secret = 0, sc_secret_ready = False\<rparr>"

definition ensure_secret :: "u32 \<Rightarrow> 'a syncookie_scheme \<Rightarrow> 'a syncookie_scheme" where
  "ensure_secret now s =
     (if sc_secret_ready s then s
      else let (d, s) = lottery_draw_isn now [10, 0, 2, 15] 12345 [1, 2, 3, 4] 54321 s
           in s\<lparr>sc_secret := d XOR now, sc_secret_ready := True\<rparr>)"

definition sc_mix :: "u32 \<Rightarrow> u32 \<Rightarrow> u32 \<Rightarrow> u32 \<Rightarrow> u32 \<Rightarrow> u32" where
  "sc_mix secret a b c d =
     (let h = secret; h = (h XOR a) * 0x9E3779B1; h = (h XOR b) * 0x85EBCA77;
          h = (h XOR c) * 0xC2B2AE3D; h = (h XOR d) * 0x27D4EB2F
      in h XOR drop_bit 15 h)"

definition sc_compute :: "u32 \<Rightarrow> bytes \<Rightarrow> u16 \<Rightarrow> bytes \<Rightarrow> u16 \<Rightarrow> u32 \<Rightarrow> 'a syncookie_scheme \<Rightarrow> u32 \<times> 'a syncookie_scheme" where
  "sc_compute now src_ip src_port dst_ip dst_port time_bucket s =
     (let s = ensure_secret now s
      in (sc_mix (sc_secret s) (be_ipv4 src_ip 0) (be_ipv4 dst_ip 0) (push_bit 16 (ucast src_port) OR ucast dst_port) time_bucket, s))"

definition syncookie_should_activate :: "lockbox \<Rightarrow> bool" where
  "syncookie_should_activate lb \<longleftrightarrow> lockbox_active_count lb * SYNCOOKIE_LOAD_DEN \<ge> LOCKBOX_CAPACITY * SYNCOOKIE_LOAD_NUM"

definition syncookie_generate :: "u32 \<Rightarrow> bytes \<Rightarrow> u16 \<Rightarrow> bytes \<Rightarrow> u16 \<Rightarrow> 'a syncookie_scheme \<Rightarrow> u32 \<times> 'a syncookie_scheme" where
  "syncookie_generate now src_ip src_port dst_ip dst_port s =
     sc_compute now src_ip src_port dst_ip dst_port (drop_bit TIME_BUCKET_SHIFT now) s"

definition syncookie_validate :: "u32 \<Rightarrow> bytes \<Rightarrow> u16 \<Rightarrow> bytes \<Rightarrow> u16 \<Rightarrow> u32 \<Rightarrow> 'a syncookie_scheme \<Rightarrow> bool \<times> 'a syncookie_scheme" where
  "syncookie_validate now src_ip src_port dst_ip dst_port ack_num s =
     (let bucket = drop_bit TIME_BUCKET_SHIFT now; expected_seq = ack_num - 1;
          (c, s) = sc_compute now src_ip src_port dst_ip dst_port bucket s
      in if expected_seq = c then (True, s)
         else if bucket > 0
         then let (c, s) = sc_compute now src_ip src_port dst_ip dst_port (bucket - 1) s in (expected_seq = c, s)
         else (False, s))"

section \<open>The mixing function is a bijection\<close>

lemma xorshift16_inj: "inj (\<lambda>x :: u32. x XOR drop_bit 16 x)"
proof (rule inj_on_inverseI [where g = "\<lambda>y. y XOR drop_bit 16 y"])
  fix x :: u32
  show "(x XOR drop_bit 16 x) XOR drop_bit 16 (x XOR drop_bit 16 x) = x"
    by (rule bit_word_eqI) (auto simp: bit_simps dest: bit_imp_le_length)
qed

lemma xorshift13_inj: "inj (\<lambda>x :: u32. x XOR drop_bit 13 x)"
proof (rule inj_on_inverseI [where g = "\<lambda>y. y XOR drop_bit 13 y XOR drop_bit 26 y"])
  fix x :: u32
  show "(x XOR drop_bit 13 x) XOR drop_bit 13 (x XOR drop_bit 13 x) XOR drop_bit 26 (x XOR drop_bit 13 x) = x"
    by (rule bit_word_eqI) (auto simp: bit_simps dest: bit_imp_le_length)
qed

lemma mult_inv_inj:
  fixes a b :: u32
  assumes "a * b = 1"
  shows "inj (\<lambda>x. x * a)"
  by (rule inj_on_inverseI [where g = "\<lambda>y. y * b"]) (simp add: mult.assoc assms)

lemma mix32_inj: "inj mix32"
proof -
  have m: "inj (\<lambda>x :: u32. x * 0x85ebca6b)" "inj (\<lambda>x :: u32. x * 0xc2b2ae35)"
    by (rule mult_inv_inj [where b = "0xa5cb9243"], simp, rule mult_inv_inj [where b = "0x7ed1b41d"], simp)
  have eq: "mix32 = (\<lambda>x. x XOR drop_bit 16 x) \<circ> (\<lambda>x. x * 0xc2b2ae35) \<circ> (\<lambda>x. x XOR drop_bit 13 x) \<circ> (\<lambda>x. x * 0x85ebca6b) \<circ> (\<lambda>x. x XOR drop_bit 16 x)"
    by (simp add: mix32_def Let_def fun_eq_iff)
  show ?thesis unfolding eq by (intro inj_compose m xorshift16_inj xorshift13_inj)
qed

text \<open>The cookie is a bijection of the time bucket, the other inputs being fixed.\<close>

lemma xorshift15_inj: "inj (\<lambda>x :: u32. x XOR drop_bit 15 x)"
proof (rule inj_on_inverseI [where g = "\<lambda>y. y XOR drop_bit 15 y XOR drop_bit 30 y"])
  fix x :: u32
  show "(x XOR drop_bit 15 x) XOR drop_bit 15 (x XOR drop_bit 15 x) XOR drop_bit 30 (x XOR drop_bit 15 x) = x"
    by (rule bit_word_eqI) (auto simp: bit_simps dest: bit_imp_le_length)
qed

lemma xor_cancel: "a XOR b = a XOR c \<longleftrightarrow> b = c" for a b c :: u32
  by (metis xor.left_neutral xor.assoc xor_self_eq)

lemma sc_mix_bucket: "sc_mix k a b c d = sc_mix k a b c d' \<longleftrightarrow> d = d'"
proof -
  have m: "inj (\<lambda>x :: u32. x * 0x27D4EB2F)" by (rule mult_inv_inj [where b = "0xa0fe3bcf"]) simp
  show ?thesis unfolding sc_mix_def Let_def inj_eq [OF xorshift15_inj] inj_eq [OF m] xor_cancel ..
qed

lemma compute_ready:
  "fst (sc_compute now sip sp dip dp d s) =
     sc_mix (sc_secret (ensure_secret now s)) (be_ipv4 sip 0) (be_ipv4 dip 0) (push_bit 16 (ucast sp) OR ucast dp) d"
  "snd (sc_compute now sip sp dip dp d s) = ensure_secret now s"
  "sc_secret_ready (ensure_secret now s)" "sc_secret_ready s \<Longrightarrow> ensure_secret now s = s"
  by (simp_all add: sc_compute_def ensure_secret_def Let_def split: prod.split)

lemma validate_ready:
  assumes "sc_secret_ready s"
  shows "fst (syncookie_validate now sip sp dip dp ack s) \<longleftrightarrow>
    ack - 1 = fst (sc_compute now sip sp dip dp (drop_bit 5 now) s) \<or>
    drop_bit 5 now > 0 \<and> ack - 1 = fst (sc_compute now sip sp dip dp (drop_bit 5 now - 1) s)"
proof -
  have c: "snd (sc_compute now sip sp dip dp d s) = s" for d using assms by (simp add: compute_ready)
  show ?thesis
    unfolding syncookie_validate_def Let_def TIME_BUCKET_SHIFT_def by (auto simp: split_beta c)
qed

lemma bucket_less: "unat (drop_bit 5 (t :: u32)) < 2 ^ 27"
proof -
  have "unat t < 2 ^ 32" using unsigned_less [of t] by simp
  then show ?thesis by (simp add: drop_bit_eq_div unat_div)
qed

lemma bucket_next: "drop_bit 5 (t' :: u32) > 0 \<and> drop_bit 5 t' - 1 = drop_bit 5 t \<longleftrightarrow> drop_bit 5 t' = drop_bit 5 t + 1"
proof -
  have "unat (drop_bit 5 t + 1) = unat (drop_bit 5 t) + 1"
    using bucket_less [of t] by (simp add: unat_word_ariths)
  then have "0 < drop_bit 5 t + 1" by (simp add: word_less_nat_alt)
  then show ?thesis by (metis add_diff_cancel_right' diff_add_cancel)
qed

section \<open>Properties\<close>

text \<open>C29. A cookie sent at tick \<open>t\<close> is accepted in the acknowledgement of the same connection at tick \<open>t'\<close>
  exactly when \<open>t'\<close> is in the same 32-tick bucket or in the next one, whatever cookies were made and
  checked in between.\<close>

theorem syncookie_lifetime:
  assumes "syncookie_generate t sip sp dip dp s = (cookie, s1)" "sc_secret s2 = sc_secret s1" "sc_secret_ready s2"
  shows "fst (syncookie_validate t' sip sp dip dp (cookie + 1) s2) \<longleftrightarrow>
    drop_bit 5 t' = drop_bit 5 t \<or> drop_bit 5 t' = drop_bit 5 t + 1"
proof -
  have g: "cookie = sc_mix (sc_secret s1) (be_ipv4 sip 0) (be_ipv4 dip 0) (push_bit 16 (ucast sp) OR ucast dp) (drop_bit 5 t)"
    using assms(1) compute_ready(1,2) [of t sip sp dip dp "drop_bit 5 t" s] by (simp add: syncookie_generate_def TIME_BUCKET_SHIFT_def)
  show ?thesis
    unfolding validate_ready [OF assms(3)] compute_ready(1) compute_ready(4) [OF assms(3)] g assms(2)
    using bucket_next [of t' t] by (auto simp: sc_mix_bucket)
qed

theorem syncookie_lifetime_witness:
  "let (c, s) = syncookie_generate 31 [10, 0, 2, 2] 4000 [10, 0, 2, 15] 80 syncookie_boot
   in fst (syncookie_validate 63 [10, 0, 2, 2] 4000 [10, 0, 2, 15] 80 (c + 1) s) \<and>
      \<not> fst (syncookie_validate 64 [10, 0, 2, 2] 4000 [10, 0, 2, 15] 80 (c + 1) s)"
proof -
  obtain c s where g: "syncookie_generate 31 [10, 0, 2, 2] 4000 [10, 0, 2, 15] 80 syncookie_boot = (c, s)" by (metis surj_pair)
  then have "sc_secret_ready s" using compute_ready(2,3) by (metis syncookie_generate_def snd_conv)
  then show ?thesis using syncookie_lifetime [OF g refl] g by simp
qed

text \<open>Two initial sequence numbers drawn since the same boot for the same endpoints at the same tick are
  equal only if the draw counter had the same value: within 2 to the 32 draws none repeats.\<close>

theorem lottery_draws_distinct:
  assumes "boot_secret s = boot_secret s'"
  shows "fst (lottery_draw_isn now lip lport rip rport s) = fst (lottery_draw_isn now lip lport rip rport s') \<longleftrightarrow>
    call_counter s = call_counter s'"
proof -
  show ?thesis using assms by (simp add: lottery_draw_isn_def Let_def inj_eq [OF mix32_inj] xor_cancel)
qed

theorem lottery_draws_distinct_witness:
  "let s = lottery_init 5 syncookie_boot; (a, s') = lottery_draw_isn 9 [10, 0, 2, 15] 80 [10, 0, 2, 2] 4000 s
   in a \<noteq> fst (lottery_draw_isn 9 [10, 0, 2, 15] 80 [10, 0, 2, 2] 4000 s')"
proof -
  define s where "s = lottery_init 5 syncookie_boot"
  have n: "snd (lottery_draw_isn 9 [10, 0, 2, 15] 80 [10, 0, 2, 2] 4000 s) = s\<lparr>call_counter := call_counter s + 1\<rparr>"
    by (simp add: lottery_draw_isn_def Let_def)
  have "boot_secret s = boot_secret (s\<lparr>call_counter := call_counter s + 1\<rparr>)" by simp
  from lottery_draws_distinct [OF this, of 9 "[10, 0, 2, 15]" 80 "[10, 0, 2, 2]" 4000]
  show ?thesis by (simp add: Let_def split_beta n flip: s_def)
qed

end
