(* ===== verification/Conversation.thy ===== *)
theory Conversation
  imports WayStation SynCookie Checksum
begin

text \<open>
  TCP, \<^verbatim>\<open>Networking/IPv4/Conversation/conversation.c\<close>: checking a segment, opening a connection (with a
  slot, or with a cookie under load), receiving in and out of order, and framing what is sent. The state
  adds the counters, the static frame buffer that \<^verbatim>\<open>conversation_dispatch\<close> fills and others read, and the
  generator of initial sequence numbers and cookies. The static buffer of \<^verbatim>\<open>send_cookie_syn_ack\<close> is written
  in full before each use, so it is a local value here.
\<close>

section \<open>Model\<close>

definition TCP_MAX_PAYLOAD :: u16 where "TCP_MAX_PAYLOAD = 1460"
definition TCP_MIN_HEADER :: u16 where "TCP_MIN_HEADER = 20"
definition FLAG_FIN :: u8 where "FLAG_FIN = 0x1"
definition FLAG_SYN :: u8 where "FLAG_SYN = 0x2"
definition FLAG_RST :: u8 where "FLAG_RST = 0x4"
definition FLAG_ACK :: u8 where "FLAG_ACK = 0x10"

datatype tcp_verdict_t = TCP_ACCEPT | TCP_REJECT_TOO_SHORT | TCP_REJECT_BAD_HEADER_LENGTH | TCP_REJECT_LENGTH_MISMATCH
  | TCP_REJECT_BAD_CHECKSUM | TCP_REJECT_NONSENSE_FLAGS

record 's conversation = "'s waystation" +
  cv_accepted :: u32
  cv_rejected :: u32
  cv_last_dispatched_frame :: bytes
  cv_last_dispatched_len :: u16
  nt_cookies :: syncookie

abbreviation has_flag :: "u8 \<Rightarrow> u8 \<Rightarrow> bool" where
  "has_flag flags f \<equiv> flags AND f \<noteq> 0"

definition tcp_checksum_ok :: "bytes \<Rightarrow> u16 \<Rightarrow> bytes \<Rightarrow> bytes \<Rightarrow> bool" where
  "tcp_checksum_ok tcp tcp_len sip dip \<longleftrightarrow> inet_ok (pseudo_sum sip dip 6 tcp_len) (take (unat tcp_len) tcp)"

definition flag_make_sense :: "u8 \<Rightarrow> bool" where
  "flag_make_sense flags \<longleftrightarrow> \<not> (has_flag flags FLAG_SYN \<and> has_flag flags FLAG_FIN) \<and> flags \<noteq> 0"

text \<open>The four bytes of a 32-bit value, and a segment with the 20-byte header the senders write: checksum
  field 0 first, then patched in.\<close>

definition put32 :: "u32 \<Rightarrow> bytes" where
  "put32 x = [ucast (drop_bit 24 x), ucast (drop_bit 16 x), ucast (drop_bit 8 x), ucast x]"

definition tcp_segment :: "bytes \<Rightarrow> bytes \<Rightarrow> u16 \<Rightarrow> u16 \<Rightarrow> u32 \<Rightarrow> u32 \<Rightarrow> u8 \<Rightarrow> u16 \<Rightarrow> bytes \<Rightarrow> u16 \<Rightarrow> bytes" where
  "tcp_segment ip dest_ip sport dport seq ack flags window payload payload_len =
     (let front = put16 sport @ put16 dport @ put32 seq @ put32 ack @ [push_bit 4 5, flags] @ put16 window;
          rest = [0, 0] @ take (unat payload_len) payload
      in front @ put16 (inet_checksum (pseudo_sum ip dest_ip 6 (TCP_MIN_HEADER + payload_len)) (front @ put16 0 @ rest)) @ rest)"

definition tcp_frame :: "bytes \<Rightarrow> bytes \<Rightarrow> bytes \<Rightarrow> bytes \<Rightarrow> bytes \<Rightarrow> u16 \<Rightarrow> bytes" where
  "tcp_frame dest_mac our_mac ip dest_ip segment payload_len =
     take 6 dest_mac @ take 6 our_mac @ [0x08, 0x00] @ ipv4_header (20 + 20 + payload_len) 6 ip dest_ip @ segment"

definition send_cookie_syn_ack ::
  "u32 \<Rightarrow> bytes \<Rightarrow> u16 \<Rightarrow> bytes \<Rightarrow> u16 \<Rightarrow> u32 \<Rightarrow> u32 \<Rightarrow> bytes \<Rightarrow> ('s, 'a) conversation_scheme \<Rightarrow> ('s, 'a) conversation_scheme" where
  "send_cookie_syn_ack now peer_ip peer_port ip our_port cookie_isn peer_isn our_mac s =
     (case rolodex_lookup peer_ip s of
        None \<Rightarrow> s
      | Some dest_mac \<Rightarrow>
          snd (bailiff_transmit now (tcp_frame dest_mac our_mac ip peer_ip
            (tcp_segment ip peer_ip our_port peer_port cookie_isn (peer_isn + 1) (FLAG_SYN OR FLAG_ACK)
              (of_nat LOCKBOX_MAX_BUFFERED) [] 0) 0) 54 s))"

definition data_offset :: "bytes \<Rightarrow> u8" where
  "data_offset payload = drop_bit 4 (payload ! 12) AND 0x0F"

definition tcp_header_len :: "bytes \<Rightarrow> u16" where
  "tcp_header_len payload = ucast (data_offset payload) * 4"

definition conversation_check :: "bytes \<Rightarrow> u16 \<Rightarrow> bytes \<Rightarrow> bytes \<Rightarrow> tcp_verdict_t" where
  "conversation_check payload len sip dip =
     (if len < TCP_MIN_HEADER then TCP_REJECT_TOO_SHORT
      else if data_offset payload < 5 \<or> tcp_header_len payload > len then TCP_REJECT_BAD_HEADER_LENGTH
      else if \<not> flag_make_sense (payload ! 13) then TCP_REJECT_NONSENSE_FLAGS
      else if \<not> tcp_checksum_ok payload len sip dip then TCP_REJECT_BAD_CHECKSUM
      else TCP_ACCEPT)"

subsection \<open>Sending\<close>

text \<open>The number of the pass, if one is granted.\<close>

definition conversation_dispatch ::
  "u32 \<Rightarrow> nat \<Rightarrow> u8 \<Rightarrow> u32 \<Rightarrow> u32 \<Rightarrow> bytes \<Rightarrow> u16 \<Rightarrow> bytes \<Rightarrow> bytes \<Rightarrow> ('s, 'a) conversation_scheme \<Rightarrow>
   u32 option \<times> ('s, 'a) conversation_scheme" where
  "conversation_dispatch now conn_id flags seq ack payload payload_len our_mac ip s =
     (if payload_len > TCP_MAX_PAYLOAD \<or> \<not> flag_make_sense flags then (None, s)
      else case lockbox_get_tuple conn_id (nt_lockbox s) of
        None \<Rightarrow> (None, s)
      | Some (lport, rip, rport) \<Rightarrow>
          (case atlas_lookup rip (replicate 4 0) (nt_atlas s) of
             (False, _) \<Rightarrow> (None, s)
           | (True, next_hop) \<Rightarrow>
               let known_mac = rolodex_lookup next_hop s;
                   dest_mac = (case known_mac of Some m \<Rightarrow> m | None \<Rightarrow> replicate 6 0);
                   (recv_window, s) = waystation_receive_window conn_id s;
                   segment = tcp_segment ip rip lport rport seq ack flags recv_window payload payload_len;
                   frame = tcp_frame dest_mac our_mac ip rip segment payload_len;
                   len = 14 + (20 + 20 + payload_len);
                   s = s\<lparr>cv_last_dispatched_frame := mem_copy (cv_last_dispatched_frame s) frame (unat len),
                         cv_last_dispatched_len := len\<rparr>
               in if known_mac = None
                  then (None, snd (foyer_queue now next_hop our_mac (cv_last_dispatched_frame s) len s))
                  else bailiff_request_pass now (cv_last_dispatched_frame s) len s))"

definition track_last :: "u32 \<Rightarrow> nat \<Rightarrow> u32 \<Rightarrow> u16 \<Rightarrow> ('s, 'a) conversation_scheme \<Rightarrow> ('s, 'a) conversation_scheme" where
  "track_last now conn_id seq seq_len s =
     snd (scheduler_track now conn_id seq seq_len (cv_last_dispatched_frame s) (cv_last_dispatched_len s) s)"

definition conversation_dispatch_syn_ack ::
  "u32 \<Rightarrow> nat \<Rightarrow> bytes \<Rightarrow> bytes \<Rightarrow> ('s, 'a) conversation_scheme \<Rightarrow> u32 option \<times> ('s, 'a) conversation_scheme" where
  "conversation_dispatch_syn_ack now conn_id our_mac ip s =
     (let isn = rapport_get_our_isn conn_id s
      in case conversation_dispatch now conn_id (FLAG_SYN OR FLAG_ACK) isn (rapport_get_expected_seq conn_id s) [] 0 our_mac ip s of
           (None, s) \<Rightarrow> (None, s)
         | (Some pid, s) \<Rightarrow> (Some pid, track_last now conn_id isn 1 s))"

definition conversation_dispatch_data ::
  "u32 \<Rightarrow> nat \<Rightarrow> bytes \<Rightarrow> u16 \<Rightarrow> bytes \<Rightarrow> bytes \<Rightarrow> ('s, 'a) conversation_scheme \<Rightarrow> u32 option \<times> ('s, 'a) conversation_scheme" where
  "conversation_dispatch_data now conn_id data len our_mac ip s =
     (if len = 0 \<or> len > TCP_MAX_PAYLOAD \<or> rapport_get_state conn_id s \<noteq> CONV_ESTABLISHED then (None, s)
      else if scheduler_free_slots conn_id s = 0 then (None, snd (why_note now conn_id WHY_SEND_WAITING_ACK s))
      else if \<not> rapport_send_allowed conn_id len s then (None, snd (why_note now conn_id WHY_PEER_WINDOW_FULL s))
      else
        let seq = rapport_get_send_seq conn_id s
        in case conversation_dispatch now conn_id FLAG_ACK seq (rapport_get_expected_seq conn_id s) data len our_mac ip s of
             (None, s) \<Rightarrow> (None, s)
           | (Some pid, s) \<Rightarrow> (Some pid, rapport_advance_send_seq conn_id len (track_last now conn_id seq len s)))"

definition conversation_dispatch_syn ::
  "u32 \<Rightarrow> nat \<Rightarrow> u32 \<Rightarrow> bytes \<Rightarrow> bytes \<Rightarrow> ('s, 'a) conversation_scheme \<Rightarrow> u32 option \<times> ('s, 'a) conversation_scheme" where
  "conversation_dispatch_syn now conn_id our_isn our_mac ip s =
     (case conversation_dispatch now conn_id FLAG_SYN our_isn 0 [] 0 our_mac ip s of
        (None, s) \<Rightarrow> (None, s)
      | (Some pid, s) \<Rightarrow> (Some pid, track_last now conn_id our_isn 1 s))"

definition conversation_dispatch_fin ::
  "u32 \<Rightarrow> nat \<Rightarrow> bytes \<Rightarrow> bytes \<Rightarrow> ('s, 'a) conversation_scheme \<Rightarrow> u32 option \<times> ('s, 'a) conversation_scheme" where
  "conversation_dispatch_fin now conn_id our_mac ip s =
     (if rapport_get_state conn_id s \<noteq> CONV_ESTABLISHED \<and> rapport_get_state conn_id s \<noteq> CONV_CLOSE_WAIT then (None, s)
      else if scheduler_bytes_in_flight conn_id s > 0 then (None, snd (why_note now conn_id WHY_CLOSE_WAITING_ACK s))
      else
        let seq = rapport_get_send_seq conn_id s
        in case conversation_dispatch now conn_id (FLAG_FIN OR FLAG_ACK) seq (rapport_get_expected_seq conn_id s) [] 0 our_mac ip s of
             (None, s) \<Rightarrow> (None, s)
           | (Some pid, s) \<Rightarrow>
               (Some pid, rapport_initiate_close conn_id seq (rapport_advance_send_seq conn_id 1 (track_last now conn_id seq 1 s))))"

definition conversation_dispatch_ack ::
  "u32 \<Rightarrow> nat \<Rightarrow> bytes \<Rightarrow> bytes \<Rightarrow> ('s, 'a) conversation_scheme \<Rightarrow> u32 option \<times> ('s, 'a) conversation_scheme" where
  "conversation_dispatch_ack now conn_id our_mac ip s =
     conversation_dispatch now conn_id FLAG_ACK (rapport_get_our_isn conn_id s) (rapport_get_expected_seq conn_id s) [] 0 our_mac ip s"

text \<open>Presenting the pass of the frame just built, as every caller of the functions above does.\<close>

definition present_last :: "u32 \<Rightarrow> u32 \<Rightarrow> ('s, 'a) conversation_scheme \<Rightarrow> bool \<times> ('s, 'a) conversation_scheme" where
  "present_last now pid s = bailiff_present_pass now pid (cv_last_dispatched_frame s) (cv_last_dispatched_len s) s"

subsection \<open>Receiving\<close>

definition conversation_syn ::
  "u32 \<Rightarrow> u32 \<Rightarrow> bytes \<Rightarrow> u16 \<Rightarrow> bytes \<Rightarrow> u16 \<Rightarrow> ('s, 'a) conversation_scheme \<Rightarrow> ('s, 'a) conversation_scheme" where
  "conversation_syn now seq sip sport dip dport s =
     (let (banned, se, g, hk) = sentry_observe now sip dport (nt_sentry s, nt_guests s, nt_ids s);
          s = s\<lparr>nt_sentry := se, nt_guests := g, nt_ids := hk\<rparr>; our_mac = take 6 (fd_mac s)
      in if banned then s
         else if syncookie_should_activate (nt_lockbox s)
         then
           let (cookie_isn, ck) = syncookie_generate now sip sport dip dport (nt_cookies s)
           in send_cookie_syn_ack now sip sport dip dport cookie_isn seq our_mac (s\<lparr>nt_cookies := ck\<rparr>)
         else
           case lockbox_claim dport sip sport 6 (nt_lockbox s) of
             (_, None, lb) \<Rightarrow> s\<lparr>nt_lockbox := lb\<rparr>
           | (_, Some conn_id, lb) \<Rightarrow>
               let s = s\<lparr>nt_lockbox := lb\<rparr>;
                   (our_isn, ck) = lottery_draw_isn now dip dport sip sport (nt_cookies s);
                   s = rapport_on_syn conn_id seq our_isn (s\<lparr>nt_cookies := ck\<rparr>)
               in case conversation_dispatch_syn_ack now conn_id our_mac dip s of
                    (None, s) \<Rightarrow> s
                  | (Some pid, s) \<Rightarrow> snd (present_last now pid s))"

text \<open>A segment with no connection: the slot a valid cookie is given, if any.\<close>

definition conversation_cookie ::
  "u32 \<Rightarrow> bytes \<Rightarrow> bytes \<Rightarrow> u16 \<Rightarrow> bytes \<Rightarrow> u16 \<Rightarrow> ('s, 'a) conversation_scheme \<Rightarrow> nat option \<times> ('s, 'a) conversation_scheme" where
  "conversation_cookie now payload sip sport dip dport s =
     (if \<not> (has_flag (payload ! 13) FLAG_ACK \<and> \<not> has_flag (payload ! 13) FLAG_SYN) then (None, s)
      else
        let ack_num = be_ipv4 payload 8;
            (valid, ck) = syncookie_validate now sip sport dip dport ack_num (nt_cookies s);
            s = s\<lparr>nt_cookies := ck\<rparr>
        in if \<not> valid then (None, s)
           else case lockbox_claim dport sip sport 6 (nt_lockbox s) of
             (_, None, lb) \<Rightarrow> (None, s\<lparr>nt_lockbox := lb\<rparr>)
           | (_, Some conn_id, lb) \<Rightarrow>
               (Some conn_id, rapport_on_ack now conn_id ack_num
                 (rapport_on_syn conn_id (be_ipv4 payload 4 - 1) (ack_num - 1) (s\<lparr>nt_lockbox := lb\<rparr>))))"

definition conversation_early ::
  "u32 \<Rightarrow> nat \<Rightarrow> bytes \<Rightarrow> u16 \<Rightarrow> ('s, 'a) conversation_scheme \<Rightarrow> ('s, 'a) conversation_scheme" where
  "conversation_early now conn_id payload len s =
     (let seq = be_ipv4 payload 4; probe_len = len - tcp_header_len payload; early_ack = be_ipv4 payload 8;
          s = (if has_flag (payload ! 13) FLAG_ACK \<and> early_ack \<le> rapport_get_send_seq conn_id s
               then scheduler_ack now conn_id early_ack s else s)
      in if rapport_seq_is_stale_retransmit conn_id seq probe_len s then snd (why_note now conn_id WHY_STALE_RETRANSMIT s)
         else
           let s = snd (why_note now conn_id WHY_OUT_OF_ORDER s)
           in if probe_len > 0
              then snd (waystation_hold conn_id seq (drop (unat (tcp_header_len payload)) payload) probe_len s)
              else s)"

definition conversation_in_order ::
  "u32 \<Rightarrow> nat \<Rightarrow> bytes \<Rightarrow> u16 \<Rightarrow> ('s, 'a) conversation_scheme \<Rightarrow> ('s, 'a) conversation_scheme" where
  "conversation_in_order now conn_id payload len s =
     (let flags = payload ! 13; ack_num = be_ipv4 payload 8; data_len = len - tcp_header_len payload
      in if has_flag flags FLAG_RST then rapport_on_rst conn_id s
         else
           let s = (if has_flag flags FLAG_ACK then scheduler_ack now conn_id ack_num (rapport_on_ack now conn_id ack_num s) else s);
               (taken, s) = (if data_len > 0 then deposit conn_id (drop (unat (tcp_header_len payload)) payload) data_len s else (False, s));
               s = (if taken then snd (waystation_drain conn_id (rapport_advance_seq conn_id data_len s)) else s)
           in if has_flag flags FLAG_FIN then rapport_on_fin now conn_id s else s)"

definition conversation_segment ::
  "u32 \<Rightarrow> nat \<Rightarrow> bytes \<Rightarrow> u16 \<Rightarrow> ('s, 'a) conversation_scheme \<Rightarrow> ('s, 'a) conversation_scheme" where
  "conversation_segment now conn_id payload len s =
     (let s = rapport_set_peer_window conn_id (be16 payload 14) s
      in if \<not> rapport_seq_expected conn_id (be_ipv4 payload 4) s then conversation_early now conn_id payload len s
         else conversation_in_order now conn_id payload len s)"

definition conversation_handle ::
  "u32 \<Rightarrow> bytes \<Rightarrow> u16 \<Rightarrow> bytes \<Rightarrow> bytes \<Rightarrow> ('s, 'a) conversation_scheme \<Rightarrow> ('s, 'a) conversation_scheme" where
  "conversation_handle now payload len sip dip s =
     (if conversation_check payload len sip dip \<noteq> TCP_ACCEPT then s\<lparr>cv_rejected := cv_rejected s + 1\<rparr>
      else
        let s = s\<lparr>cv_accepted := cv_accepted s + 1\<rparr>; sport = be16 payload 0; dport = be16 payload 2; flags = payload ! 13
        in if \<not> menu_is_open dport 6 (nt_menu s) then s
           else if lockbox_find_listener dport 6 (nt_lockbox s) = LOCKBOX_CAPACITY then s
           else
             let seq = be_ipv4 payload 4; existing_conn = lockbox_find_connection dport sip sport 6 (nt_lockbox s)
             in if existing_conn \<noteq> LOCKBOX_CAPACITY \<and> rapport_get_state existing_conn s = CONV_SYN_SENT
                then if has_flag flags FLAG_RST then rapport_on_rst existing_conn s
                     else if has_flag flags FLAG_SYN \<and> has_flag flags FLAG_ACK
                     then snd (rapport_on_syn_ack existing_conn seq (be_ipv4 payload 8) s)
                     else s
                else if has_flag flags FLAG_SYN then conversation_syn now seq sip sport dip dport s
                else
                  case (if existing_conn = LOCKBOX_CAPACITY then conversation_cookie now payload sip sport dip dport s
                        else (Some existing_conn, s)) of
                    (None, s) \<Rightarrow> s
                  | (Some conn_id, s) \<Rightarrow> conversation_segment now conn_id payload len s)"

definition tcp_accepted_count :: "('s, 'a) conversation_scheme \<Rightarrow> u32" where
  "tcp_accepted_count s = cv_accepted s"

definition tcp_rejected_count :: "('s, 'a) conversation_scheme \<Rightarrow> u32" where
  "tcp_rejected_count s = cv_rejected s"

fun tcp_verdict_string :: "tcp_verdict_t \<Rightarrow> string" where
  "tcp_verdict_string TCP_ACCEPT = ''ACCEPT''"
| "tcp_verdict_string TCP_REJECT_TOO_SHORT = ''REJECT (too short)''"
| "tcp_verdict_string TCP_REJECT_BAD_HEADER_LENGTH = ''REJECT (bad header length)''"
| "tcp_verdict_string TCP_REJECT_LENGTH_MISMATCH = ''REJECT (length lied)''"
| "tcp_verdict_string TCP_REJECT_BAD_CHECKSUM = ''REJECT (checksum failed)''"
| "tcp_verdict_string TCP_REJECT_NONSENSE_FLAGS = ''REJECT (nonsense flag combination)''"

section \<open>Receiving data on an open connection\<close>

lemma sched_more_fields:
  fixes s t :: "('s, 'a) waystation_scheme"
  assumes "sched.more s = sched.more t"
  shows "rp_status s = rp_status t" "rp_expected_seq s = rp_expected_seq t" "rp_send_seq s = rp_send_seq t"
    "nt_inbox s = nt_inbox t" "ws_slots s = ws_slots t"
  using assms by (cases s, cases t, simp)+

lemmas ack_fields [simp] = sched_more_fields [OF scheduler_ack_keeps(1)]

lemmas note_fields [simp] = sched_more_fields [OF why_note_sched(1)]

lemma deposit_status [simp]: "rp_status (snd (deposit c d n s)) = rp_status s"
  by (simp add: deposit_def split: prod.split)

lemma ws_drain_loop_status [simp]: "rp_status (snd (ws_drain_loop c n s)) = rp_status s"
  by (rule ws_drain_loop_keeps [of "\<lambda>t. rp_status t = rp_status s"]) (simp_all add: release_held_def rapport_advance_seq_def)

lemma drain_status [simp]: "rp_status (snd (waystation_drain c s)) = rp_status s"
  by (simp add: waystation_drain_def ws_reset_if_stale_def Let_def)

lemma hold_status [simp]: "rp_status (snd (waystation_hold c q d n s)) = rp_status s"
  by (simp add: waystation_hold_def ws_reset_if_stale_def Let_def split: option.split)

text \<open>A segment with neither RST nor FIN that carries a piece of the peer's stream.\<close>

definition data_segment :: "(nat \<Rightarrow> u8) \<Rightarrow> u32 \<Rightarrow> bytes \<Rightarrow> u16 \<Rightarrow> bool" where
  "data_segment stream base payload len \<longleftrightarrow>
     \<not> has_flag (payload ! 13) FLAG_RST \<and> \<not> has_flag (payload ! 13) FLAG_FIN \<and>
     tcp_header_len payload \<le> len \<and> unat len \<le> length payload \<and>
     carries stream base (be_ipv4 payload 4)
       (take (unat (len - tcp_header_len payload)) (drop (unat (tcp_header_len payload)) payload))"

definition established :: "(nat \<Rightarrow> u8) \<Rightarrow> u32 \<Rightarrow> nat \<Rightarrow> ('s, 'a) conversation_scheme \<Rightarrow> bool" where
  "established stream base c s \<longleftrightarrow> receiving stream base c s \<and> rp_status s ! c = CONV_ESTABLISHED"

lemma data_segment_len:
  assumes "data_segment f b p len"
  shows "unat (len - tcp_header_len p) \<le> length (drop (unat (tcp_header_len p)) p)"
  using assms diff_le_mono [of "unat len" "length p"] by (simp add: data_segment_def unat_sub)

lemma early_progress:
  assumes "receiving f b c s" "data_segment f b p len"
  shows "progress f b c s (conversation_early now c p len s)" "rp_status (conversation_early now c p len s) = rp_status s"
proof -
  define t where "t = (if has_flag (p ! 13) FLAG_ACK \<and> be_ipv4 p 8 \<le> rapport_get_send_seq c s then scheduler_ack now c (be_ipv4 p 8) s else s)"
  have t: "progress f b c s (snd (why_note now c r t))" for r by (rule progress_same [OF assms(1)]) (simp_all add: t_def)
  have st: "rp_status (snd (why_note now c r t)) = rp_status s" for r by (simp add: t_def)
  have h: "progress f b c s (snd (waystation_hold c (be_ipv4 p 4) (drop (unat (tcp_header_len p)) p) (len - tcp_header_len p) (snd (why_note now c r t))))" for r
    using assms(2) data_segment_len [OF assms(2)]
    by (intro progress_trans [OF t waystation_hold_progress] progress_receiving [OF t]) (simp_all add: data_segment_def)
  show "progress f b c s (conversation_early now c p len s)" "rp_status (conversation_early now c p len s) = rp_status s"
    unfolding conversation_early_def Let_def t_def [symmetric] using t h st by simp_all
qed

lemma in_order_progress:
  assumes e: "established f b c s" and seg: "data_segment f b p len" and q: "be_ipv4 p 4 = rp_expected_seq s ! c"
  shows "progress f b c s (conversation_in_order now c p len s)" "rp_status (conversation_in_order now c p len s) = rp_status s"
proof -
  let ?n = "len - tcp_header_len p" and ?d = "drop (unat (tcp_header_len p)) p"
  define t where "t = (if has_flag (p ! 13) FLAG_ACK then scheduler_ack now c (be_ipv4 p 8) (rapport_on_ack now c (be_ipv4 p 8) s) else s)"
  have noop: "rapport_on_ack now c a s = s" for a using e by (simp add: rapport_on_ack_def established_def)
  have r: "receiving f b c s" using e by (simp add: established_def)
  have t: "progress f b c s t" "rp_status t = rp_status s" "rp_expected_seq t = rp_expected_seq s"
    by (rule progress_same [OF r]; simp add: t_def noop) (simp_all add: t_def noop)
  obtain ok u where d: "deposit c ?d ?n t = (ok, u)" by fastforce
  have u: "rp_status u = rp_status s" using deposit_status [of c ?d ?n t] t(2) by (simp add: d)
  have p: "if ok then progress f b c t (rapport_advance_seq c ?n u) else progress f b c t u"
    using seg data_segment_len [OF seg] q t(3) by (intro deposit_progress [OF progress_receiving [OF t(1)] _ _ d]) (simp_all add: data_segment_def)
  have v: "ok \<Longrightarrow> progress f b c s (snd (waystation_drain c (rapport_advance_seq c ?n u)))"
    using p t(1) by (auto intro: progress_trans waystation_drain_progress progress_receiving)
  have w: "\<not> ok \<Longrightarrow> progress f b c s u" using p t(1) by (auto intro: progress_trans)
  have eq: "conversation_in_order now c p len s =
      (if ?n > 0 then if ok then snd (waystation_drain c (rapport_advance_seq c ?n u)) else u else t)"
    using seg unfolding conversation_in_order_def data_segment_def Let_def t_def [symmetric] by (simp add: d)
  show "progress f b c s (conversation_in_order now c p len s)" "rp_status (conversation_in_order now c p len s) = rp_status s"
    unfolding eq using t v w u by (simp_all add: rapport_advance_seq_def)
qed

lemma segment_progress:
  assumes e: "established f b c s" and seg: "data_segment f b p len"
  shows "progress f b c s (conversation_segment now c p len s) \<and> established f b c (conversation_segment now c p len s)"
proof -
  let ?s = "rapport_set_peer_window c (be16 p 14) s"
  have r: "receiving f b c s" using e by (simp add: established_def)
  have s: "progress f b c s ?s" "rp_status ?s = rp_status s"
    by (rule progress_same [OF r]; simp add: rapport_set_peer_window_def) (simp add: rapport_set_peer_window_def)
  then have e': "established f b c ?s" using e by (simp add: established_def progress_receiving [OF s(1)])
  have "progress f b c ?s (conversation_segment now c p len s) \<and> rp_status (conversation_segment now c p len s) = rp_status ?s"
    using early_progress [OF progress_receiving [OF s(1)] seg] in_order_progress [OF e' seg]
    by (auto simp: conversation_segment_def Let_def rapport_seq_expected_def)
  then show ?thesis using e s by (auto simp: established_def intro: progress_trans dest: progress_receiving)
qed

definition run_segments :: "nat \<Rightarrow> (u32 \<times> bytes \<times> u16) list \<Rightarrow> ('s, 'a) conversation_scheme \<Rightarrow> ('s, 'a) conversation_scheme" where
  "run_segments c segs s = fold (\<lambda>(now, p, len) s. conversation_segment now c p len s) segs s"

lemma run_progress:
  "established f b c s \<Longrightarrow> \<forall>(now, p, len)\<in>set segs. data_segment f b p len \<Longrightarrow>
   progress f b c s (run_segments c segs s) \<and> established f b c (run_segments c segs s)"
proof (induction segs arbitrary: s)
  case Nil
  then show ?case using progress_same [of f b c s s] by (simp add: run_segments_def established_def)
next
  case (Cons x segs)
  obtain now p len where x: "x = (now, p, len)" by (cases x)
  have h: "progress f b c s (conversation_segment now c p len s)" "established f b c (conversation_segment now c p len s)"
    using segment_progress [OF Cons.prems(1), of p len now] Cons.prems(2) by (simp_all add: x)
  then show ?case using Cons.IH [OF h(2)] Cons.prems(2) by (auto simp: run_segments_def x intro: progress_trans)
qed

lemma in_order_delivers:
  assumes e: "established f b c s" and seg: "data_segment f b p len" and q: "be_ipv4 p 4 = rp_expected_seq s ! c"
    and n: "0 < len - tcp_header_len p" and room: "length (rx_stream c s) + unat (len - tcp_header_len p) \<le> LOCKBOX_MAX_BUFFERED"
  shows "rx_offset b c s + unat (len - tcp_header_len p) \<le> rx_offset b c (conversation_segment now c p len s)"
proof -
  let ?n = "len - tcp_header_len p" and ?d = "drop (unat (tcp_header_len p)) p"
  define s1 where "s1 = rapport_set_peer_window c (be16 p 14) s"
  define t where "t = (if has_flag (p ! 13) FLAG_ACK then scheduler_ack now c (be_ipv4 p 8) (rapport_on_ack now c (be_ipv4 p 8) s1) else s1)"
  have s1: "rp_status s1 = rp_status s" "rp_expected_seq s1 = rp_expected_seq s" "nt_inbox s1 = nt_inbox s"
    "nt_lockbox s1 = nt_lockbox s" "ws_slots s1 = ws_slots s" by (simp_all add: s1_def rapport_set_peer_window_def)
  have noop: "rapport_on_ack now c a s1 = s1" for a using e s1 by (simp add: rapport_on_ack_def established_def)
  have t: "rp_expected_seq t = rp_expected_seq s" "nt_inbox t = nt_inbox s" "nt_lockbox t = nt_lockbox s" "ws_slots t = ws_slots s"
    by (simp_all add: t_def noop s1)
  have c: "c < 64" "inbox_inv (nt_inbox s, nt_lockbox s)" "in_use (table (nt_lockbox s) ! c)" "c < length (rp_expected_seq s)"
    using e by (simp_all add: established_def receiving_def open_inv_def LOCKBOX_CAPACITY_def)
  have r: "receiving f b c t" using e t by (simp add: established_def receiving_def)
  obtain ok u where d: "deposit c ?d ?n t = (ok, u)" by fastforce
  have "fst (inbox_deposit c ?d ?n (nt_inbox s, nt_lockbox s))"
    using inbox_deposit_spec [OF c(2,1), of "take (unat ?n) ?d" ?n] c(3) room data_segment_len [OF seg]
    by (auto simp: inbox_deposit_take rx_stream_def LOCKBOX_MAX_BUFFERED_def split: prod.splits)
  then have ok: ok using d t by (auto simp: deposit_def split: prod.splits)
  let ?v = "rapport_advance_seq c ?n u"
  have p: "progress f b c t ?v"
    using deposit_progress [OF r _ _ d] ok seg data_segment_len [OF seg] q t(1) by (simp add: data_segment_def)
  then have dr: "progress f b c ?v (snd (waystation_drain c ?v))" by (intro waystation_drain_progress progress_receiving)
  have "length (rx_stream c ?v) = length (rx_stream c t) + (rx_offset b c ?v - rx_offset b c t)" using p by (simp add: progress_def)
  moreover have "rx_stream c ?v = rx_stream c t @ take (unat ?n) ?d"
    using inbox_deposit_spec [OF c(2,1), of "take (unat ?n) ?d" ?n] d t ok data_segment_len [OF seg]
    by (auto simp: inbox_deposit_take rx_stream_def deposit_def rapport_advance_seq_def split: prod.splits)
  ultimately have "rx_offset b c ?v = rx_offset b c s + unat ?n"
    using p data_segment_len [OF seg] t(1) by (simp add: progress_def rx_offset_def min_absorb2)
  moreover have "conversation_segment now c p len s = snd (waystation_drain c ?v)"
    using seg n q d ok s1(2) c(1)
    unfolding conversation_segment_def conversation_in_order_def data_segment_def Let_def s1_def [symmetric] t_def [symmetric]
    by (simp add: rapport_seq_expected_def LOCKBOX_CAPACITY_def)
  ultimately show ?thesis using dr by (simp add: progress_def)
qed

text \<open>A machine after start-up, and one with an open connection in slot 0, for the examples.\<close>

definition conversation_up :: "unit conversation" where
  "conversation_up = waystation.extend (rapport.extend (sched.extend (why.extend (mailroom.extend mailroom_up
     (why.fields (replicate 64 (replicate 7 0)) (replicate 64 (replicate 7 0))))
     (sched.fields (replicate 64 \<lparr>pk_seg = replicate 4 \<lparr>sg_seq = 0, sg_length = 0, sg_seq_len = 0, sg_start_timer = 0, sg_in_use = False,
        sg_retransmitted = False, sg_frame = replicate 1600 0\<rparr>, pk_state = PACKET_STATE_IDLE, pk_retry_track = 0, pk_srtt = 0, pk_rttvar = 0,
        pk_rto = 0, pk_last_ack_seen = 0, pk_dup_ack_count = 0\<rparr>) 0 0))
     (rapport.fields (replicate 64 CONV_CLOSED) (replicate 64 0) (replicate 64 0) (replicate 64 0) (replicate 64 0) (replicate 64 0) (replicate 64 0)))
     (waystation.fields inbox_boot (replicate 64 (replicate 4 \<lparr>hs_seq = 0, hs_len = 0, hs_in_use = False, hs_data = replicate 1460 0\<rparr>)) (replicate 64 0)))
     (conversation.fields 0 0 (replicate 1514 0) 0 syncookie_boot)"

definition conversation_open :: "unit conversation" where
  "conversation_open = conversation_up\<lparr>nt_lockbox := claimed 0 80 [10, 0, 0, 2] 4000 6 lockbox_boot,
     rp_status := replicate 64 CONV_ESTABLISHED, rp_expected_seq := replicate 64 1001\<rparr>"

lemma conversation_up_fields [simp]:
  "nt_inbox conversation_up = inbox_boot" "rp_expected_seq conversation_up = replicate 64 0"
  "ws_slots conversation_up = replicate 64 (replicate 4 \<lparr>hs_seq = 0, hs_len = 0, hs_in_use = False, hs_data = replicate 1460 0\<rparr>)"
  by (simp_all add: conversation_up_def conversation.defs waystation.defs rapport.defs sched.defs)

lemma conversation_open_established: "established f 1001 0 conversation_open" "rx_stream 0 conversation_open = []"
proof -
  have c: "lockbox_claim 80 [10, 0, 0, 2] 4000 6 lockbox_boot = (LOCKBOX_OK, Some 0, claimed 0 80 [10, 0, 0, 2] 4000 6 lockbox_boot)"
    by (rule claim_boot)
  have g: "seen_generation (inbox_boot ! 0) \<noteq> lockbox_get_generation 0 lockbox_boot + 1"
    by (simp add: inbox_boot_def lockbox_boot_def lockbox_get_generation_def LOCKBOX_CAPACITY_def)
  note o = inbox_claim_empties [OF inbox_inv_boot c, simplified, OF g]
  show "established f 1001 0 conversation_open" "rx_stream 0 conversation_open = []"
    using o by (simp_all add: established_def receiving_def conversation_open_def held_ok_def rx_stream_def)
qed

section \<open>Properties\<close>

text \<open>C2. Reassembly: whatever segments of the peer's stream arrive on an open connection, in whatever order and however
  often, what the application can read grows by exactly the next bytes of the stream, without gap,
  repetition or reordering, as many as the expected sequence number advances.\<close>

theorem tcp_stream:
  fixes s :: "('s, 'a) conversation_scheme"
  assumes "established stream base c s" "\<forall>(now, p, len)\<in>set segs. data_segment stream base p len"
  shows "rx_offset base c s \<le> rx_offset base c (run_segments c segs s) \<and>
    rx_stream c (run_segments c segs s) = rx_stream c s @ map stream [rx_offset base c s..<rx_offset base c (run_segments c segs s)]"
  using run_progress [OF assms] by (simp add: progress_def)

text \<open>C12. Delivery: a segment at the expected sequence number whose data fits the inbox is readable at once, followed by
  whatever held segments it makes contiguous.\<close>

theorem tcp_delivers:
  fixes s :: "('s, 'a) conversation_scheme"
  assumes "established stream base c s" "data_segment stream base p len" "be_ipv4 p 4 = rp_expected_seq s ! c"
    "0 < len - tcp_header_len p" "length (rx_stream c s) + unat (len - tcp_header_len p) \<le> LOCKBOX_MAX_BUFFERED"
  shows "\<exists>rest. rx_stream c (conversation_segment now c p len s) =
    rx_stream c s @ take (unat (len - tcp_header_len p)) (drop (unat (tcp_header_len p)) p) @ rest"
proof -
  let ?s = "conversation_segment now c p len s" and ?o = "rx_offset base c s" and ?n = "unat (len - tcp_header_len p)"
  have "progress stream base c s ?s" using segment_progress [OF assms(1,2)] by blast
  then have "rx_stream c ?s = rx_stream c s @ map stream [?o..<rx_offset base c ?s]" by (simp add: progress_def)
  moreover have "[?o..<rx_offset base c ?s] = [?o..<?o + ?n] @ [?o + ?n..<rx_offset base c ?s]"
    using in_order_delivers [OF assms] by (intro upt_append [symmetric]) simp_all
  moreover have "take ?n (drop (unat (tcp_header_len p)) p) = map stream [?o..<?o + ?n]"
    using assms(2,3) data_segment_len [OF assms(2)] by (simp add: data_segment_def carries_def rx_offset_def min_absorb2)
  ultimately show ?thesis by simp
qed

definition demo_segment :: "u8 \<Rightarrow> bytes \<Rightarrow> bytes" where
  "demo_segment lo data = [0x0F, 0xA0, 0, 80, 0, 0, 3, lo, 0, 0, 0, 0, 0x50, 0x10, 1, 0, 0, 0, 0, 0] @ data"

lemma demo_segment_parts:
  "be_ipv4 (demo_segment 0xE9 d) 4 = 1001" "be_ipv4 (demo_segment 0xEC d) 4 = 1004" "tcp_header_len (demo_segment lo d) = 20"
  "demo_segment lo d ! 13 = 0x10" "drop 20 (demo_segment lo d) = d" "length (demo_segment lo d) = 20 + length d"
  by (simp_all add: demo_segment_def be_ipv4_def tcp_header_len_def data_offset_def)

lemma demo_segments:
  "data_segment of_nat 1001 (demo_segment 0xE9 [0, 1, 2]) 23" "data_segment of_nat 1001 (demo_segment 0xEC [3, 4]) 22"
  by (simp_all add: data_segment_def demo_segment_parts carries_def FLAG_RST_def FLAG_FIN_def upt_rec)

theorem tcp_stream_witness:
  "rx_stream 0 (run_segments 0 [(7, demo_segment 0xEC [3, 4], 22), (8, demo_segment 0xE9 [0, 1, 2], 23)] conversation_open) =
   map of_nat [0..<rx_offset 1001 0 (run_segments 0 [(7, demo_segment 0xEC [3, 4], 22), (8, demo_segment 0xE9 [0, 1, 2], 23)] conversation_open)]"
proof -
  have "\<forall>(now, p, len)\<in>set [(7 :: u32, demo_segment 0xEC [3, 4], 22), (8, demo_segment 0xE9 [0, 1, 2], 23)]. data_segment of_nat 1001 p len"
    using demo_segments by simp
  moreover have "rx_offset 1001 0 conversation_open = 0" by (simp add: rx_offset_def conversation_open_def)
  ultimately show ?thesis
    using tcp_stream [OF conversation_open_established(1)] unfolding conversation_open_established(2) append_Nil by (simp only:)
qed

theorem tcp_delivers_witness:
  "\<exists>rest. rx_stream 0 (conversation_segment 7 0 (demo_segment 0xE9 [0, 1, 2]) 23 conversation_open) = [0, 1, 2] @ rest"
proof -
  let ?p = "demo_segment 0xE9 [0, 1, 2]"
  have "be_ipv4 ?p 4 = rp_expected_seq conversation_open ! 0" unfolding demo_segment_parts by (simp add: conversation_open_def)
  moreover have "(0 :: u16) < 23 - tcp_header_len ?p"
    "length (rx_stream 0 conversation_open) + unat (23 - tcp_header_len ?p) \<le> LOCKBOX_MAX_BUFFERED"
    unfolding demo_segment_parts conversation_open_established(2) by (simp_all add: LOCKBOX_MAX_BUFFERED_def)
  ultimately have "\<exists>rest. rx_stream 0 (conversation_segment 7 0 ?p 23 conversation_open) =
      rx_stream 0 conversation_open @ take (unat (23 - tcp_header_len ?p)) (drop (unat (tcp_header_len ?p)) ?p) @ rest"
    by (rule tcp_delivers [OF conversation_open_established(1) demo_segments(1)])
  moreover have "take (unat (23 - tcp_header_len ?p)) (drop (unat (tcp_header_len ?p)) ?p) = [0, 1, 2]" by (simp add: demo_segment_parts)
  ultimately show ?thesis unfolding conversation_open_established(2) append_Nil by (simp only:)
qed

end
