(* ===== verification/SwitchBoard.thy ===== *)
theory SwitchBoard
  imports Conversation
begin

text \<open>
  The socket calls, \<^verbatim>\<open>Networking/IPv4/SwitchBoard/switchboard.c\<close>: bind, connect, accept, send, receive and
  close. The exported functions only disable interrupts around the ones modelled here.
\<close>

section \<open>Model\<close>

definition EPHEMERAL_PORT_LOW :: u16 where "EPHEMERAL_PORT_LOW = 49152"
definition EPHEMERAL_PORT_HIGH :: u16 where "EPHEMERAL_PORT_HIGH = 65535"

record 's switchboard = "'s conversation" +
  sb_next_ephemeral :: u16
  sb_accepted_generation :: "u32 list"

text \<open>The loop of \<^verbatim>\<open>pick_ephemeral_port\<close>; 0 is its "none free".\<close>

fun pick_loop :: "nat \<Rightarrow> ('s, 'a) switchboard_scheme \<Rightarrow> u16 \<times> ('s, 'a) switchboard_scheme" where
  "pick_loop 0 s = (0, s)"
| "pick_loop (Suc tries) s =
     (let candidate = sb_next_ephemeral s;
          s = s\<lparr>sb_next_ephemeral := if candidate \<ge> EPHEMERAL_PORT_HIGH then EPHEMERAL_PORT_LOW else candidate + 1\<rparr>
      in if lockbox_find_listener candidate 6 (nt_lockbox s) = LOCKBOX_CAPACITY then (candidate, s) else pick_loop tries s)"

definition pick_ephemeral_port :: "('s, 'a) switchboard_scheme \<Rightarrow> u16 \<times> ('s, 'a) switchboard_scheme" where
  "pick_ephemeral_port s = pick_loop (unat (EPHEMERAL_PORT_HIGH - EPHEMERAL_PORT_LOW)) s"

text \<open>The slot, on success.\<close>

definition switchboard_connect_locked ::
  "u32 \<Rightarrow> bytes \<Rightarrow> u16 \<Rightarrow> bytes \<Rightarrow> bytes \<Rightarrow> ('s, 'a) switchboard_scheme \<Rightarrow> nat option \<times> ('s, 'a) switchboard_scheme" where
  "switchboard_connect_locked now dest_ip dest_port our_mac ip s =
     (let (lport, s) = pick_ephemeral_port s
      in if lport = 0 then (None, s)
         else case lockbox_claim lport dest_ip dest_port 6 (nt_lockbox s) of
           (_, None, lb) \<Rightarrow> (None, s\<lparr>nt_lockbox := lb\<rparr>)
         | (_, Some conn_id, lb) \<Rightarrow>
             let s = s\<lparr>nt_lockbox := lb\<rparr>;
                 (our_isn, ck) = lottery_draw_isn now ip lport dest_ip dest_port (nt_cookies s);
                 s = rapport_initiate_connect conn_id our_isn (s\<lparr>nt_cookies := ck\<rparr>);
                 s = (case conversation_dispatch_syn now conn_id our_isn our_mac ip s of
                        (None, s) \<Rightarrow> s | (Some pid, s) \<Rightarrow> snd (present_last now pid s))
             in (Some conn_id, s))"

definition switchboard_send_locked ::
  "u32 \<Rightarrow> nat \<Rightarrow> bytes \<Rightarrow> u16 \<Rightarrow> bytes \<Rightarrow> bytes \<Rightarrow> ('s, 'a) switchboard_scheme \<Rightarrow> bool \<times> ('s, 'a) switchboard_scheme" where
  "switchboard_send_locked now conn_id data len our_mac ip s =
     (case conversation_dispatch_data now conn_id data len our_mac ip s of
        (None, s) \<Rightarrow> (False, s) | (Some pid, s) \<Rightarrow> present_last now pid s)"

definition switchboard_close_locked ::
  "u32 \<Rightarrow> nat \<Rightarrow> bytes \<Rightarrow> bytes \<Rightarrow> ('s, 'a) switchboard_scheme \<Rightarrow> bool \<times> ('s, 'a) switchboard_scheme" where
  "switchboard_close_locked now conn_id our_mac ip s =
     (case conversation_dispatch_fin now conn_id our_mac ip s of
        (None, s) \<Rightarrow> (False, s) | (Some pid, s) \<Rightarrow> present_last now pid s)"

definition switchboard_send_udp_locked ::
  "u32 \<Rightarrow> u16 \<Rightarrow> bytes \<Rightarrow> u16 \<Rightarrow> bytes \<Rightarrow> bytes \<Rightarrow> bytes \<Rightarrow> u16 \<Rightarrow> ('s, 'a) switchboard_scheme \<Rightarrow> bool \<times> ('s, 'a) switchboard_scheme" where
  "switchboard_send_udp_locked now lport dest_ip dest_port our_mac ip data len s =
     postcard_dispatch now dest_ip dest_port lport our_mac ip data len s"

definition switchboard_bind :: "u16 \<Rightarrow> u8 \<Rightarrow> ('s, 'a) switchboard_scheme \<Rightarrow> bool \<times> ('s, 'a) switchboard_scheme" where
  "switchboard_bind port proto s =
     (case lockbox_listen port proto (nt_lockbox s) of (r, _, lb) \<Rightarrow> (r = LOCKBOX_OK, s\<lparr>nt_lockbox := lb\<rparr>))"

text \<open>The loop of \<^verbatim>\<open>switchboard_accept\<close>: slots of the port in increasing order; \<open>None\<close> is \<^verbatim>\<open>SWITCHBOARD_NONE\<close>.\<close>

lemma next_for_port_after:
  "k < LOCKBOX_CAPACITY \<Longrightarrow> lockbox_next_for_port port proto k lb < LOCKBOX_CAPACITY \<Longrightarrow> k < lockbox_next_for_port port proto k lb"
  by (auto simp: lockbox_next_for_port_def slot_from_def split: option.splits)

function accept_loop :: "u16 \<Rightarrow> nat \<Rightarrow> ('s, 'a) switchboard_scheme \<Rightarrow> nat option" where
  "accept_loop port k s =
     (let k' = lockbox_next_for_port port 6 k (nt_lockbox s)
      in if k' \<ge> LOCKBOX_CAPACITY then None
         else if sb_accepted_generation s ! k' \<noteq> lockbox_get_generation k' (nt_lockbox s) \<and> rapport_get_state k' s = CONV_ESTABLISHED
         then Some k'
         else accept_loop port k' s)"
  by pat_completeness auto
termination
  by (relation "measure (\<lambda>(port, k, s). if k \<ge> LOCKBOX_CAPACITY then Suc LOCKBOX_CAPACITY else LOCKBOX_CAPACITY - k)")
    (auto simp: not_le dest: next_for_port_after intro: diff_less_mono2)

declare accept_loop.simps [simp del]

definition switchboard_accept :: "u16 \<Rightarrow> ('s, 'a) switchboard_scheme \<Rightarrow> nat option \<times> ('s, 'a) switchboard_scheme" where
  "switchboard_accept port s =
     (case accept_loop port LOCKBOX_CAPACITY s of
        None \<Rightarrow> (None, s)
      | Some k \<Rightarrow> (Some k, s\<lparr>sb_accepted_generation := (sb_accepted_generation s)[k := lockbox_get_generation k (nt_lockbox s)]\<rparr>))"

definition switchboard_recv_locked :: "nat \<Rightarrow> u16 \<Rightarrow> ('s, 'a) switchboard_scheme \<Rightarrow> bytes \<times> ('s, 'a) switchboard_scheme" where
  "switchboard_recv_locked conn_id max_len s =
     (if conn_id \<ge> LOCKBOX_CAPACITY \<or> sb_accepted_generation s ! conn_id \<noteq> lockbox_get_generation conn_id (nt_lockbox s)
      then ([], s)
      else case inbox_read conn_id max_len (nt_inbox s, nt_lockbox s) of
        (out, ib, lb) \<Rightarrow> (out, s\<lparr>nt_inbox := ib, nt_lockbox := lb\<rparr>))"

definition switchboard_recv_udp_locked ::
  "u16 \<Rightarrow> u16 \<Rightarrow> ('s, 'a) switchboard_scheme \<Rightarrow> (bytes \<times> u16 \<times> bytes) option \<times> ('s, 'a) switchboard_scheme" where
  "switchboard_recv_udp_locked port max_len s =
     (let slot = lockbox_find_listener port 17 (nt_lockbox s)
      in if slot = LOCKBOX_CAPACITY then (None, s)
         else case postbox_read slot max_len (nt_postbox s) of (r, pb) \<Rightarrow> (r, s\<lparr>nt_postbox := pb\<rparr>))"

end
