(* ===== verification/Tcp_Safety.thy ===== *)
theory Tcp_Safety
  imports SwitchBoard
begin

text \<open>
  What every event of the TCP code keeps: a live connection owns its socket, every table has its size, and
  every retransmission record stays within its bounds. Events are the timer functions, the segments that
  arrive and the socket calls, in any order.
\<close>

section \<open>Invariant\<close>

text \<open>A retransmission record: four segments, at most eight retries, a timeout that is unset or between 20
  and 1000 ticks, and set while a segment waits.\<close>

definition conn_ok :: "packets_state_t \<Rightarrow> bool" where
  "conn_ok k \<longleftrightarrow> length (pk_seg k) = SCHED_WINDOW \<and> pk_retry_track k \<le> RETRY_LIMIT \<and>
     (pk_rto k = 0 \<or> SCHED_MIN_RTO \<le> pk_rto k \<and> pk_rto k \<le> SCHED_MAX_RTO) \<and> (pk_state k = PACKET_STATE_RETRY \<longrightarrow> pk_rto k \<noteq> 0)"

definition conns_ok :: "packets_state_t list \<Rightarrow> bool" where
  "conns_ok ks \<longleftrightarrow> length ks = LOCKBOX_CAPACITY \<and> (\<forall>k\<in>set ks. conn_ok k)"

definition tcp_slot :: "lockbox \<Rightarrow> nat \<Rightarrow> bool" where
  "tcp_slot lb c \<longleftrightarrow> in_use (table lb ! c) \<and> protocol (table lb ! c) = 6"

text \<open>Every connection that is not closed owns a TCP socket.\<close>

definition owns :: "lockbox \<Rightarrow> conversation_state_t list \<Rightarrow> bool" where
  "owns lb st \<longleftrightarrow> lb_inv lb \<and> length st = LOCKBOX_CAPACITY \<and> (\<forall>c<LOCKBOX_CAPACITY. st ! c \<noteq> CONV_CLOSED \<longrightarrow> tcp_slot lb c)"

definition tables_ok :: "('s, 'a) waystation_scheme \<Rightarrow> bool" where
  "tables_ok s \<longleftrightarrow> length (rp_expected_seq s) = LOCKBOX_CAPACITY \<and> length (rp_our_isn_table s) = LOCKBOX_CAPACITY \<and>
     length (rp_our_fin_seq s) = LOCKBOX_CAPACITY \<and> length (rp_time_wait_started s) = LOCKBOX_CAPACITY \<and>
     length (rp_peer_window s) = LOCKBOX_CAPACITY \<and> length (rp_send_seq s) = LOCKBOX_CAPACITY \<and>
     length (ws_slots s) = LOCKBOX_CAPACITY \<and> (\<forall>row\<in>set (ws_slots s). length row = WAYSTATION_MAX_PENDING)"

definition tcp_inv :: "('s, 'a) waystation_scheme \<Rightarrow> bool" where
  "tcp_inv s \<longleftrightarrow> conns_ok (sd_conns s) \<and> owns (nt_lockbox s) (rp_status s) \<and> tables_ok s"

named_theorems tcp_intros

section \<open>Sockets\<close>

lemma owns_status [tcp_intros]: "owns lb st \<Longrightarrow> (x \<noteq> CONV_CLOSED \<Longrightarrow> c < LOCKBOX_CAPACITY \<Longrightarrow> tcp_slot lb c) \<Longrightarrow> owns lb (st[c := x])"
  unfolding owns_def by (metis length_list_update nth_list_update_eq nth_list_update_neq)

lemma owns_live: "owns lb st \<Longrightarrow> c < LOCKBOX_CAPACITY \<Longrightarrow> st ! c \<noteq> CONV_CLOSED \<Longrightarrow> tcp_slot lb c"
  by (simp add: owns_def)

lemma owns_change:
  assumes "owns lb st" "lb_inv lb'" "\<And>c. c < LOCKBOX_CAPACITY \<Longrightarrow> tcp_slot lb c \<Longrightarrow> tcp_slot lb' c"
  shows "owns lb' st"
  using assms by (simp add: owns_def)

lemma nth_update_keep: "(\<And>e. P (f e) = P e) \<Longrightarrow> P (xs[i := f (xs ! i)] ! j) = P (xs ! j)"
  by (cases "i < length xs"; cases "j = i") (simp_all add: list_update_beyond)

lemma slot_buffered [simp]: "tcp_slot (lb\<lparr>table := (table lb)[i := (table lb ! i)\<lparr>buffered_bytes := b\<rparr>]\<rparr>) c = tcp_slot lb c"
  using nth_update_keep [of in_use "\<lambda>e. e\<lparr>buffered_bytes := b\<rparr>" "table lb" i c]
    nth_update_keep [of protocol "\<lambda>e. e\<lparr>buffered_bytes := b\<rparr>" "table lb" i c] by (simp add: tcp_slot_def)

lemma slot_reject [simp]: "tcp_slot (lockbox_reject lb) c = tcp_slot lb c"
  by (simp add: tcp_slot_def lockbox_reject_def)

lemma owns_release [tcp_intros]: "owns lb st \<Longrightarrow> owns (lockbox_release c lb) (st[c := CONV_CLOSED])"
proof -
  assume o: "owns lb st"
  have "tcp_slot (lockbox_release c lb) d = tcp_slot lb d" if "d \<noteq> c" for d using that by (simp add: tcp_slot_def lockbox_release_def)
  then show ?thesis using o unfolding owns_def by (metis lb_inv_release length_list_update nth_list_update_eq nth_list_update_neq)
qed

lemma owns_reject [tcp_intros]: "owns lb st \<Longrightarrow> owns (lockbox_reject lb) st"
  by (simp add: owns_def)

lemma owns_deposit: "owns lb st \<Longrightarrow> owns (snd (lockbox_deposit c n lb)) st"
proof -
  have "tcp_slot (snd (lockbox_deposit c n lb)) d = tcp_slot lb d" for d by (simp add: lockbox_deposit_def Let_def)
  then show "owns lb st \<Longrightarrow> ?thesis" by (simp add: owns_def lb_inv_deposit)
qed

lemma owns_inbox_deposit: "owns lb st \<Longrightarrow> owns (snd (snd (inbox_deposit c d n (ib, lb)))) st"
  using owns_deposit [of lb st c n] by (auto simp: inbox_deposit_def Let_def split: prod.split)

lemma owns_read: "owns lb st \<Longrightarrow> owns (snd (snd (inbox_read c n (ib, lb)))) st"
proof -
  assume o: "owns lb st"
  have "owns (lockbox_consume c m lb) st" for m
  proof -
    have "tcp_slot (lockbox_consume c m lb) d = tcp_slot lb d" for d by (simp only: lockbox_consume_def Let_def slot_buffered split: if_split) simp
    then show ?thesis using o by (simp add: owns_def lb_inv_consume)
  qed
  then show ?thesis using o by (simp add: inbox_read_def Let_def split: prod.split)
qed

lemma owns_claim:
  assumes "owns lb st" "lockbox_claim lport rip rport proto lb = (r, k, lb')"
  shows "owns lb' st" "k = Some c \<Longrightarrow> c < LOCKBOX_CAPACITY \<and> in_use (table lb' ! c) \<and> protocol (table lb' ! c) = proto"
proof -
  have inv: "lb_inv lb" using assms(1) by (simp add: owns_def)
  note C = lockbox_claim_cases [OF inv, of lport rip rport proto]
  have inv': "lb_inv lb'" using lb_inv_claim [OF inv, of lport rip rport proto] by (simp add: assms(2))
  have free: "i < 64 \<and> \<not> in_use (table lb ! i)" if "first_idx (\<lambda>e. \<not> in_use e) (table lb) = Some i" for i
    using that first_idx_less [OF that] first_idx_holds [OF that] lb_invD(1) [OF inv] by simp
  show "owns lb' st"
    using assms(1) inv'
  proof (rule owns_change)
    fix c assume "tcp_slot lb c"
    then show "tcp_slot lb' c"
      using assms(2) C free lb_invD(1) [OF inv]
      by (auto simp: tcp_slot_def claimed_def lockbox_reject_def nth_list_update split: if_splits option.splits)
  qed
  show "c < LOCKBOX_CAPACITY \<and> in_use (table lb' ! c) \<and> protocol (table lb' ! c) = proto" if "k = Some c"
    using that assms(2) C free lb_invD(1) [OF inv]
    by (auto simp: claimed_def LOCKBOX_CAPACITY_def split: if_splits option.splits)
qed

section \<open>Retransmission records\<close>

lemma conns_update: "conns_ok ks \<Longrightarrow> conn_ok k \<Longrightarrow> conns_ok (ks[c := k])"
  by (auto simp: conns_ok_def dest: set_update_subset_insert [THEN subsetD])

lemma conns_nth: "conns_ok ks \<Longrightarrow> c < LOCKBOX_CAPACITY \<Longrightarrow> conn_ok (ks ! c)"
  by (simp add: conns_ok_def)

lemma conn_ok_updates [simp]:
  "conn_ok (k\<lparr>pk_dup_ack_count := n\<rparr>) = conn_ok k" "conn_ok (k\<lparr>pk_last_ack_seen := a\<rparr>) = conn_ok k"
  "conn_ok k \<Longrightarrow> conn_ok (k\<lparr>pk_retry_track := 0\<rparr>)" "conn_ok k \<Longrightarrow> x \<noteq> PACKET_STATE_RETRY \<Longrightarrow> conn_ok (k\<lparr>pk_state := x\<rparr>)"
  by (auto simp: conn_ok_def)

lemma ack_loop_length [simp]: "length (fst (ack_loop now a es smp n)) = length es"
  by (induction now a es smp n rule: ack_loop.induct) (auto simp: Let_def split: prod.split)

lemma rtt_update_ok: "conn_ok k \<Longrightarrow> conn_ok (rtt_update t k)"
  by (auto simp: conn_ok_def rtt_update_def Let_def SCHED_MIN_RTO_def SCHED_MAX_RTO_def not_less)

lemma scheduler_track_ok: "conns_ok (sd_conns s) \<Longrightarrow> conns_ok (sd_conns (snd (scheduler_track now c q l f n s)))"
proof (cases "c < LOCKBOX_CAPACITY")
  case True
  assume k: "conns_ok (sd_conns s)"
  show ?thesis
    using k conns_nth [OF k True]
    by (auto simp: scheduler_track_def Let_def conn_ok_def RETRY_LIMIT_def SCHED_INITIAL_RTO_def SCHED_MIN_RTO_def SCHED_MAX_RTO_def
        split: option.split intro!: conns_update)
qed (simp add: scheduler_track_def)

lemma scheduler_cancel_ok: "conns_ok (sd_conns s) \<Longrightarrow> conns_ok (sd_conns (scheduler_cancel c s))"
proof (cases "c < LOCKBOX_CAPACITY")
  case True
  assume k: "conns_ok (sd_conns s)"
  show ?thesis
    using k conns_nth [OF k True] by (auto simp: scheduler_cancel_def clear_window_def conn_ok_def RETRY_LIMIT_def intro!: conns_update)
qed (simp add: scheduler_cancel_def)

lemma scheduler_ack_ok: "conns_ok (sd_conns s) \<Longrightarrow> conns_ok (sd_conns (scheduler_ack now c a s))"
proof (cases "c < LOCKBOX_CAPACITY")
  case True
  assume k: "conns_ok (sd_conns s)"
  let ?c = "sd_conns s ! c"
  obtain es smp n where l: "ack_loop now a (pk_seg ?c) None 0 = (es, smp, n)" by (rule prod_cases3)
  have es: "length es = length (pk_seg ?c)" using ack_loop_length [of now a "pk_seg ?c" None 0] by (simp add: l)
  define d where "d = ?c\<lparr>pk_seg := es\<rparr>"
  define e where "e = (case smp of Some t \<Rightarrow> rtt_update t d | None \<Rightarrow> d)"
  have d: "conn_ok d" using conns_nth [OF k True] es by (simp add: d_def conn_ok_def)
  then have e: "conn_ok e" by (simp add: e_def rtt_update_ok split: option.split)
  show ?thesis
    unfolding scheduler_ack_def l Let_def prod.case d_def [symmetric] e_def [symmetric]
    using k d e by (auto intro!: conns_update split: option.split)
qed (simp add: scheduler_ack_def)

lemma clear_window_ok: "conn_ok k \<Longrightarrow> conn_ok (clear_window k)"
  by (simp add: clear_window_def conn_ok_def)

section \<open>The state machine and the timers\<close>

lemma tcp_invI: "conns_ok (sd_conns s) \<Longrightarrow> owns (nt_lockbox s) (rp_status s) \<Longrightarrow> tables_ok s \<Longrightarrow> tcp_inv s"
  by (simp add: tcp_inv_def)

lemma tcp_invD: "tcp_inv s \<Longrightarrow> conns_ok (sd_conns s)" "tcp_inv s \<Longrightarrow> owns (nt_lockbox s) (rp_status s)" "tcp_inv s \<Longrightarrow> tables_ok s"
  by (simp_all add: tcp_inv_def)

lemma cancel_fields [simp]:
  fixes s :: "('s, 'a) waystation_scheme"
  shows "nt_lockbox (scheduler_cancel c s) = nt_lockbox s" "rp_status (scheduler_cancel c s) = rp_status s"
    "tables_ok (scheduler_cancel c s) = tables_ok s"
  by (simp_all add: scheduler_cancel_def tables_ok_def)

lemma sched_more_tables:
  fixes s t :: "('s, 'a) waystation_scheme"
  assumes "sched.more s = sched.more t"
  shows "tables_ok s = tables_ok t"
  using assms unfolding tables_ok_def by (cases s, cases t, simp)

lemma ack_inv [tcp_intros]:
  fixes s :: "('s, 'a) waystation_scheme"
  shows "tcp_inv s \<Longrightarrow> tcp_inv (scheduler_ack now c a s)"
  using sched_more_tables [OF scheduler_ack_keeps(1), of now c a s]
  by (simp add: tcp_inv_def scheduler_ack_ok sched_more_fields [OF scheduler_ack_keeps(1)])

lemma status_inv:
  fixes s :: "('s, 'a) waystation_scheme"
  assumes "tcp_inv s" "x \<noteq> CONV_CLOSED \<Longrightarrow> c < LOCKBOX_CAPACITY \<Longrightarrow> tcp_slot (nt_lockbox s) c"
  shows "tcp_inv (set_status c x s)"
  using assms owns_status [of "nt_lockbox s" "rp_status s" x c] by (simp add: tcp_inv_def set_status_def tables_ok_def)

lemma live_slot: "tcp_inv s \<Longrightarrow> c < LOCKBOX_CAPACITY \<Longrightarrow> rp_status s ! c \<noteq> CONV_CLOSED \<Longrightarrow> tcp_slot (nt_lockbox s) c"
  using owns_live [OF tcp_invD(2)] by blast

lemma table_updates [simp]:
  fixes s :: "('s, 'a) waystation_scheme"
  shows "tcp_inv (s\<lparr>rp_expected_seq := (rp_expected_seq s)[c := q]\<rparr>) = tcp_inv s" "tcp_inv (s\<lparr>rp_our_isn_table := (rp_our_isn_table s)[c := q]\<rparr>) = tcp_inv s"
    "tcp_inv (s\<lparr>rp_our_fin_seq := (rp_our_fin_seq s)[c := q]\<rparr>) = tcp_inv s" "tcp_inv (s\<lparr>rp_time_wait_started := (rp_time_wait_started s)[c := q]\<rparr>) = tcp_inv s"
    "tcp_inv (s\<lparr>rp_peer_window := (rp_peer_window s)[c := w]\<rparr>) = tcp_inv s" "tcp_inv (s\<lparr>rp_send_seq := (rp_send_seq s)[c := q]\<rparr>) = tcp_inv s"
  by (simp_all add: tcp_inv_def tables_ok_def)

lemma hang_up_inv:
  fixes s :: "('s, 'a) waystation_scheme"
  assumes "tcp_inv s"
  shows "tcp_inv (hang_up c s)"
proof -
  have "conns_ok (sd_conns (scheduler_cancel c (set_status c CONV_CLOSED s)))"
    using tcp_invD(1) [OF assms] by (intro scheduler_cancel_ok) (simp add: set_status_def)
  then show ?thesis
    using tcp_invD(2,3) [OF assms] owns_release [of "nt_lockbox s" "rp_status s" c]
    by (simp add: tcp_inv_def hang_up_def Let_def) (simp add: set_status_def tables_ok_def scheduler_cancel_def)
qed

lemma time_wait_inv: "tcp_inv s \<Longrightarrow> (c < LOCKBOX_CAPACITY \<Longrightarrow> tcp_slot (nt_lockbox s) c) \<Longrightarrow> tcp_inv (enter_time_wait now c s)"
  for s :: "('s, 'a) waystation_scheme"
  using status_inv [of s CONV_TIME_WAIT c] table_updates(4) [of "set_status c CONV_TIME_WAIT s" c now]
  by (simp add: enter_time_wait_def set_status_def)

lemma rapport_inv [tcp_intros]:
  fixes s :: "('s, 'a) waystation_scheme"
  assumes "tcp_inv s"
  shows "tcp_inv (rapport_initiate_close c q s)" "tcp_inv (rapport_on_ack now c a s)" "tcp_inv (rapport_on_fin now c s)"
    "tcp_inv (rapport_on_rst c s)" "tcp_inv (rapport_set_peer_window c w s)" "tcp_inv (snd (rapport_on_syn_ack c p a s))"
    "tcp_inv (rapport_advance_send_seq c n s)" "tcp_inv (rapport_advance_seq c n s)"
proof -
  note L = live_slot [OF assms, of c]
  show "tcp_inv (rapport_initiate_close c q s)"
    using assms L by (auto simp: rapport_initiate_close_def Let_def intro!: status_inv)
  show "tcp_inv (rapport_on_ack now c a s)"
    using assms L by (auto simp: rapport_on_ack_def Let_def intro!: status_inv hang_up_inv time_wait_inv split: conversation_state_t.split)
  have f: "tcp_inv (skip_fin c s)" "nt_lockbox (skip_fin c s) = nt_lockbox s" using assms by (simp_all add: skip_fin_def)
  show "tcp_inv (rapport_on_fin now c s)"
    using assms L f by (auto simp: rapport_on_fin_def intro!: status_inv time_wait_inv split: conversation_state_t.split)
  show "tcp_inv (rapport_on_rst c s)" using assms by (simp add: rapport_on_rst_def hang_up_inv)
  show "tcp_inv (rapport_set_peer_window c w s)" "tcp_inv (rapport_advance_send_seq c n s)" "tcp_inv (rapport_advance_seq c n s)"
    using assms by (simp_all add: rapport_set_peer_window_def rapport_advance_send_seq_def rapport_advance_seq_def)
  let ?t = "set_status c CONV_ESTABLISHED (s\<lparr>rp_expected_seq := (rp_expected_seq s)[c := p + 1]\<rparr>)"
  have "tcp_inv ?t" if "c < LOCKBOX_CAPACITY" "rp_status s ! c = CONV_SYN_SENT"
    using assms L that by (intro status_inv) simp_all
  then show "tcp_inv (snd (rapport_on_syn_ack c p a s))"
    using assms table_updates(6) [of ?t c] by (simp add: rapport_on_syn_ack_def Let_def)
qed

lemma opening_inv:
  fixes s :: "('s, 'a) waystation_scheme"
  assumes "tcp_inv s" "tcp_slot (nt_lockbox s) c"
  shows "tcp_inv (rapport_on_syn c p i s)" "tcp_inv (rapport_initiate_connect c i s)"
proof -
  have t: "tcp_inv (set_status c x s)" for x using assms by (simp add: status_inv)
  let ?t = "set_status c CONV_SYN_RECEIVED s"
  let ?u = "?t\<lparr>rp_expected_seq := (rp_expected_seq ?t)[c := p + 1]\<rparr>"
  have "tcp_inv ?u" using t by simp
  then have "tcp_inv (?u\<lparr>rp_our_isn_table := (rp_our_isn_table ?u)[c := i]\<rparr>)" by (simp only: table_updates)
  then have "tcp_inv (?u\<lparr>rp_our_isn_table := (rp_our_isn_table ?u)[c := i], rp_send_seq := (rp_send_seq ?u)[c := i + 1]\<rparr>)"
    by (simp add: tcp_inv_def tables_ok_def)
  then show "tcp_inv (rapport_on_syn c p i s)" using assms(1) by (simp add: rapport_on_syn_def set_status_def)
  show "tcp_inv (rapport_initiate_connect c i s)"
    using assms(1) t [of CONV_SYN_SENT] by (simp add: rapport_initiate_connect_def set_status_def tcp_inv_def tables_ok_def)
qed

lemma rapport_tick_slot_inv:
  fixes s :: "('s, 'a) waystation_scheme"
  shows "tcp_inv s \<Longrightarrow> tcp_inv (rapport_tick_slot now c s)"
  using owns_release [of "nt_lockbox s" "rp_status s" c]
  by (simp add: rapport_tick_slot_def tcp_inv_def set_status_def tables_ok_def)

lemma conns_inv:
  fixes s :: "('s, 'a) waystation_scheme"
  shows "tcp_inv s \<Longrightarrow> conns_ok ks \<Longrightarrow> tcp_inv (s\<lparr>sd_conns := ks\<rparr>)" "tcp_inv (s\<lparr>sd_giveup_total := n\<rparr>) = tcp_inv s"
  by (simp_all add: tcp_inv_def tables_ok_def)

lemma resend_inv:
  fixes s :: "('s, 'a) waystation_scheme"
  shows "tcp_inv s \<Longrightarrow> tcp_inv (snd (resend now e c s))"
  using sched_more_tables [OF resend_keeps(1), of now e c s] by (simp add: tcp_inv_def sched_more_fields [OF resend_keeps(1)])

lemma backoff_ok:
  assumes "conn_ok k" "pk_retry_track k < RETRY_LIMIT" "pk_state k = PACKET_STATE_RETRY" "length es = length (pk_seg k)"
  shows "conn_ok (k\<lparr>pk_rto := if pk_rto k * 2 > SCHED_MAX_RTO then SCHED_MAX_RTO else pk_rto k * 2,
    pk_retry_track := pk_retry_track k + 1, pk_seg := es\<rparr>)"
proof -
  have r: "20 \<le> pk_rto k" "pk_rto k \<le> 1000" using assms(1,3) by (auto simp: conn_ok_def SCHED_MIN_RTO_def SCHED_MAX_RTO_def)
  then have "unat (pk_rto k * 2) = unat (pk_rto k) * 2" by (simp add: word_le_nat_alt unat_word_ariths)
  then have "20 \<le> pk_rto k * 2" using r(1) by (simp add: word_le_nat_alt)
  moreover have "pk_retry_track k + 1 \<le> 8" using assms(2) by (simp add: RETRY_LIMIT_def inc_le)
  ultimately show ?thesis using assms
    by (auto simp: conn_ok_def RETRY_LIMIT_def SCHED_MIN_RTO_def SCHED_MAX_RTO_def not_less)
qed

lemma scheduler_tick_slot_inv:
  fixes s :: "('s, 'a) waystation_scheme"
  assumes "tcp_inv s" "c < LOCKBOX_CAPACITY"
  shows "tcp_inv (scheduler_tick_slot now c s)"
proof -
  let ?k = "sd_conns s ! c"
  have k: "conn_ok ?k" "conns_ok (sd_conns s)" using conns_nth [OF tcp_invD(1) assms(2)] assms(1) tcp_invD(1) by auto
  have up: "tcp_inv (s\<lparr>sd_conns := (sd_conns s)[c := x]\<rparr>)" if "conn_ok x" for x
    by (rule conns_inv(1) [OF assms(1) conns_update [OF k(2) that]])
  have re: "tcp_inv ((snd (resend now e c s))\<lparr>sd_conns := (sd_conns s)[c := x]\<rparr>)" if "conn_ok x" for e x
    by (rule conns_inv(1) [OF resend_inv [OF assms(1)] conns_update [OF k(2) that]])
  let ?f = "(clear_window ?k)\<lparr>pk_state := PACKET_STATE_FAILURE\<rparr>"
  have gu: "tcp_inv (rapport_on_rst c (s\<lparr>sd_conns := (sd_conns s)[c := ?f], sd_giveup_total := n\<rparr>))" for n
    using up [of ?f] k(1) conns_inv(2) [where s = "s\<lparr>sd_conns := (sd_conns s)[c := ?f]\<rparr>" and n = n] by (intro rapport_inv) (simp add: clear_window_ok)
  show ?thesis
    using assms(1) k(1) gu up backoff_ok [OF k(1)]
    by (auto simp: scheduler_tick_slot_def Let_def not_le intro!: re split: option.split)
qed

lemma fold_inv: "(\<And>c t. c < n \<Longrightarrow> P t \<Longrightarrow> P (f c t)) \<Longrightarrow> P s \<Longrightarrow> P (fold f [0..<n] s)"
  by (induction n) simp_all

lemma tick_inv:
  fixes s :: "('s, 'a) waystation_scheme"
  assumes "tcp_inv s"
  shows "tcp_inv (rapport_tick now s)" "tcp_inv (scheduler_tick now s)"
  unfolding rapport_tick_def scheduler_tick_def
  by (rule fold_inv; simp add: assms rapport_tick_slot_inv scheduler_tick_slot_inv)+

section \<open>Receiving\<close>

lemma reset_inv [tcp_intros]: "tcp_inv s \<Longrightarrow> tcp_inv (ws_reset_if_stale c s)"
proof -
  assume i: "tcp_inv s"
  have "length (map f (ws_slots s ! c)) = WAYSTATION_MAX_PENDING" if "c < length (ws_slots s)" for f :: "held_segment_t \<Rightarrow> held_segment_t"
    using tcp_invD(3) [OF i] that by (simp add: tables_ok_def)
  then have "\<forall>row\<in>set ((ws_slots s)[c := map f (ws_slots s ! c)]). length row = WAYSTATION_MAX_PENDING" for f :: "held_segment_t \<Rightarrow> held_segment_t"
    using tcp_invD(3) [OF i] by (cases "c < length (ws_slots s)") (auto simp: tables_ok_def list_update_beyond dest!: set_update_subset_insert [THEN subsetD])
  then show ?thesis using i by (simp add: ws_reset_if_stale_def Let_def tcp_inv_def tables_ok_def)
qed

lemma row_inv:
  assumes "tcp_inv s"
  shows "tcp_inv (s\<lparr>ws_slots := (ws_slots s)[c := (ws_slots s ! c)[i := h]]\<rparr>)"
proof -
  have "\<forall>row\<in>set ((ws_slots s)[c := (ws_slots s ! c)[i := h]]). length row = WAYSTATION_MAX_PENDING"
    using tcp_invD(3) [OF assms] by (cases "c < length (ws_slots s)") (auto simp: tables_ok_def list_update_beyond dest!: set_update_subset_insert [THEN subsetD])
  then show ?thesis using assms by (simp add: tcp_inv_def tables_ok_def)
qed

lemma hold_inv [tcp_intros]: "tcp_inv s \<Longrightarrow> tcp_inv (snd (waystation_hold c q d n s))"
  by (auto simp: waystation_hold_def Let_def intro!: row_inv reset_inv split: option.split)

lemma lockbox_inv: "tcp_inv s \<Longrightarrow> owns lb (rp_status s) \<Longrightarrow> tcp_inv (s\<lparr>nt_inbox := ib, nt_lockbox := lb\<rparr>)"
  by (simp add: tcp_inv_def tables_ok_def)

lemma deposit_inv: "tcp_inv s \<Longrightarrow> tcp_inv (snd (deposit c d n s))"
  using owns_inbox_deposit [OF tcp_invD(2), of s c d n "nt_inbox s"]
  by (auto simp: deposit_def intro!: lockbox_inv split: prod.split)

lemma ws_drain_loop_inv: "tcp_inv s \<Longrightarrow> tcp_inv (snd (ws_drain_loop c n s))"
proof (rule ws_drain_loop_keeps [of tcp_inv])
  show "tcp_inv (release_held c i (rapport_advance_seq c l t))" if "tcp_inv t" for t l i
    using row_inv [OF rapport_inv(8) [OF that]] by (simp add: release_held_def)
qed (simp_all add: deposit_inv)

lemma drain_inv [tcp_intros]: "tcp_inv s \<Longrightarrow> tcp_inv (snd (waystation_drain c s))"
  by (simp add: waystation_drain_def ws_drain_loop_inv reset_inv)

lemma window_inv: "tcp_inv s \<Longrightarrow> tcp_inv (snd (waystation_receive_window c s))"
proof -
  assume i: "tcp_inv s"
  note r = reset_inv [OF i, of c]
  show ?thesis
    using i lockbox_inv [OF r tcp_invD(2) [OF r]] by (simp add: waystation_receive_window_def Let_def inbox_available_def)
qed

lemma note_inv [tcp_intros]:
  fixes s :: "('s, 'a) waystation_scheme"
  shows "tcp_inv s \<Longrightarrow> tcp_inv (snd (why_note now c r s))"
  using sched_more_tables [OF why_note_sched(1), of now c r s] by (simp add: tcp_inv_def sched_more_fields [OF why_note_sched(1)])

section \<open>Sending\<close>

lemma foyer_more_tcp:
  fixes s t :: "('s, 'a) waystation_scheme"
  assumes "foyer.more s = foyer.more t"
  shows "tcp_inv s = tcp_inv t"
  using assms unfolding tcp_inv_def tables_ok_def by (cases s, cases t, simp)

lemma bailiff_more_foyer:
  fixes s t :: "'a foyer_scheme"
  assumes "bailiff.more s = bailiff.more t"
  shows "foyer.more s = foyer.more t"
  using assms by (cases s, cases t, simp)

lemma bailiff_inv [simp]:
  fixes s :: "('s, 'a) waystation_scheme"
  shows "tcp_inv (snd (bailiff_transmit now f l s)) = tcp_inv s" "tcp_inv (snd (bailiff_present_pass now p f l s)) = tcp_inv s"
    "tcp_inv (snd (bailiff_request_pass now f l s)) = tcp_inv s"
  by (rule foyer_more_tcp [OF bailiff_more_foyer]; simp add: transmit_more present_more request_more)+

lemma arp_more: "foyer.more (send_arp_request now m ip s) = foyer.more s" for s :: "'a foyer_scheme"
proof -
  obtain r t where d: "rolodex_dispatch_request now ip m s = (r, t)" by fastforce
  have "foyer.more (snd (rolodex_dispatch_request now ip m s)) = foyer.more s"
    by (simp add: rolodex_dispatch_request_def bailiff_request_pass_def reclaim_expired_def Let_def split: option.split)
  then have t: "foyer.more t = foyer.more s" by (simp add: d)
  have "foyer.more (snd (bailiff_present_pass now p f l t)) = foyer.more t" for p f l
    by (rule bailiff_more_foyer [OF present_more])
  then show ?thesis using t by (simp add: send_arp_request_def d split: option.split)
qed

lemma foyer_inv [simp]:
  fixes s :: "('s, 'a) waystation_scheme"
  shows "tcp_inv (snd (foyer_queue now ip m f l s)) = tcp_inv s"
proof (rule foyer_more_tcp)
  have t: "foyer.more t' = foyer.more t" if "bailiff_transmit now fr n t = (ok, t')" for fr n ok and t t' :: "('s, 'a) waystation_scheme"
    using bailiff_more_foyer [OF transmit_more, of now fr n t] by (simp add: that)
  show "foyer.more (snd (foyer_queue now ip m f l s)) = foyer.more s"
    by (auto simp: foyer_queue_def Let_def arp_more split: option.split prod.split dest!: t)
qed

lemma conversation_updates [simp]:
  fixes s :: "('s, 'a) conversation_scheme"
  shows "tcp_inv (s\<lparr>cv_accepted := n\<rparr>) = tcp_inv s" "tcp_inv (s\<lparr>cv_rejected := n\<rparr>) = tcp_inv s" "tcp_inv (s\<lparr>nt_cookies := k\<rparr>) = tcp_inv s"
    "tcp_inv (s\<lparr>cv_last_dispatched_frame := f, cv_last_dispatched_len := l\<rparr>) = tcp_inv s"
    "tcp_inv (s\<lparr>nt_sentry := se, nt_guests := g, nt_ids := hk\<rparr>) = tcp_inv s"
  by (simp_all add: tcp_inv_def tables_ok_def)

lemma dispatch_inv:
  fixes s :: "('s, 'a) conversation_scheme"
  assumes "tcp_inv s"
  shows "tcp_inv (snd (conversation_dispatch now c fl q a d n m ip s))"
proof -
  have w: "tcp_inv t" if "waystation_receive_window c s = (x, t)" for x t
    using window_inv [OF assms, of c] by (simp add: that)
  show ?thesis
    using assms by (auto simp: conversation_dispatch_def Let_def dest: w split: option.split prod.split bool.split)
qed

lemma track_inv: "tcp_inv s \<Longrightarrow> tcp_inv (track_last now c q n s)" for s :: "('s, 'a) conversation_scheme"
  using scheduler_track_ok [OF tcp_invD(1), of s now c q n]
  by (auto simp: track_last_def scheduler_track_def tcp_inv_def tables_ok_def Let_def split: option.split)

lemma dispatch_calls_inv:
  fixes s :: "('s, 'a) conversation_scheme"
  assumes "tcp_inv s"
  shows "tcp_inv (snd (conversation_dispatch_syn_ack now c m ip s))" "tcp_inv (snd (conversation_dispatch_syn now c i m ip s))"
    "tcp_inv (snd (conversation_dispatch_data now c d n m ip s))" "tcp_inv (snd (conversation_dispatch_fin now c m ip s))"
proof -
  have d: "tcp_inv t" if "conversation_dispatch now c fl q a b l m ip s = (r, t)" for fl q a b l r t
    using dispatch_inv [OF assms, of now c fl q a b l m ip] by (simp add: that)
  show "tcp_inv (snd (conversation_dispatch_syn_ack now c m ip s))" "tcp_inv (snd (conversation_dispatch_syn now c i m ip s))"
    "tcp_inv (snd (conversation_dispatch_data now c d n m ip s))" "tcp_inv (snd (conversation_dispatch_fin now c m ip s))"
    using assms
    by (auto simp: conversation_dispatch_syn_ack_def conversation_dispatch_syn_def conversation_dispatch_data_def
        conversation_dispatch_fin_def Let_def track_inv note_inv rapport_inv dest: d split: prod.split option.split)
qed

lemma present_inv [simp]: "tcp_inv (snd (present_last now p s)) = tcp_inv s" for s :: "('s, 'a) conversation_scheme"
  by (simp add: present_last_def)

section \<open>Every event\<close>

lemma claim_inv:
  fixes s :: "('s, 'a) waystation_scheme"
  assumes "tcp_inv s" "lockbox_claim lport rip rport proto (nt_lockbox s) = (r, k, lb)"
  shows "tcp_inv (s\<lparr>nt_lockbox := lb\<rparr>)" "k = Some c \<Longrightarrow> proto = 6 \<Longrightarrow> tcp_slot lb c"
  using assms(1) owns_claim [OF tcp_invD(2) [OF assms(1)] assms(2)] by (simp_all add: tcp_inv_def tables_ok_def tcp_slot_def)

lemma cookie_send_inv [simp]:
  "tcp_inv (send_cookie_syn_ack now pip pp ip op ck pi m s) = tcp_inv s" for s :: "('s, 'a) conversation_scheme"
  by (simp add: send_cookie_syn_ack_def split: option.split)

lemma syn_inv:
  fixes s :: "('s, 'a) conversation_scheme"
  assumes "tcp_inv s"
  shows "tcp_inv (conversation_syn now q sip sp dip dp s)"
proof -
  obtain ban se g hk where o: "sentry_observe now sip dp (nt_sentry s, nt_guests s, nt_ids s) = (ban, se, g, hk)" by (metis prod_cases4)
  define t where "t = s\<lparr>nt_sentry := se, nt_guests := g, nt_ids := hk\<rparr>"
  have t: "tcp_inv t" using assms by (simp add: t_def)
  obtain r k lb where c: "lockbox_claim dp sip sp 6 (nt_lockbox t) = (r, k, lb)" by (rule prod_cases3)
  obtain isn ck where l: "lottery_draw_isn now dip dp sip sp (nt_cookies t) = (isn, ck)" by fastforce
  obtain isn' ck' where l': "syncookie_generate now sip sp dip dp (nt_cookies t) = (isn', ck')" by fastforce
  have u: "tcp_inv (rapport_on_syn c q isn (t\<lparr>nt_lockbox := lb, nt_cookies := ck\<rparr>))" if "k = Some c" for c
  proof (rule opening_inv(1))
    show "tcp_inv (t\<lparr>nt_lockbox := lb, nt_cookies := ck\<rparr>)" using claim_inv(1) [OF t c] by (simp add: tcp_inv_def tables_ok_def)
  qed (use claim_inv(2) [OF t c that] in simp)
  have d: "tcp_inv v" if "k = Some c" "conversation_dispatch_syn_ack now c m dip (rapport_on_syn c q isn (t\<lparr>nt_lockbox := lb, nt_cookies := ck\<rparr>)) = (p, v)" for c m p v
    using dispatch_calls_inv(1) [OF u [OF that(1)], of now c m dip] by (simp add: that(2))
  show ?thesis
    unfolding conversation_syn_def o Let_def prod.case t_def [symmetric]
    using t claim_inv(1) [OF t c] d by (auto simp: c l l' split: option.split prod.split)
qed

lemma cookie_inv:
  fixes s :: "('s, 'a) conversation_scheme"
  assumes "tcp_inv s"
  shows "tcp_inv (snd (conversation_cookie now p sip sp dip dp s))"
proof -
  obtain v ck where o: "syncookie_validate now sip sp dip dp (be_ipv4 p 8) (nt_cookies s) = (v, ck)" by fastforce
  obtain r k lb where c: "lockbox_claim dp sip sp 6 (nt_lockbox s) = (r, k, lb)" by (rule prod_cases3)
  have l: "tcp_inv (s\<lparr>nt_cookies := ck, nt_lockbox := lb\<rparr>)" using claim_inv(1) [OF assms c] by (simp add: tcp_inv_def tables_ok_def)
  have "tcp_inv (rapport_on_ack now c a (rapport_on_syn c i j (s\<lparr>nt_cookies := ck, nt_lockbox := lb\<rparr>)))" if "k = Some c" for c a i j
    using claim_inv(2) [OF assms c that] by (intro rapport_inv(2) opening_inv(1) [OF l]) simp
  then show ?thesis using assms l by (auto simp: conversation_cookie_def o c Let_def split: option.split)
qed

lemma segment_inv:
  fixes s :: "('s, 'a) conversation_scheme"
  assumes "tcp_inv s"
  shows "tcp_inv (conversation_segment now c p len s)"
proof -
  have d: "tcp_inv u" if "deposit c b n t = (ok, u)" "tcp_inv t" for b n ok and t u :: "('s, 'a) conversation_scheme"
    using deposit_inv [OF that(2), of c b n] by (simp add: that(1))
  have o: "tcp_inv (conversation_in_order now c p len t)" if "tcp_inv t" for t :: "('s, 'a) conversation_scheme"
    using that by (auto simp: conversation_in_order_def Let_def intro!: tcp_intros split: prod.split if_split dest: d)
  have e: "tcp_inv (conversation_early now c p len t)" if "tcp_inv t" for t :: "('s, 'a) conversation_scheme"
    using that by (auto simp: conversation_early_def Let_def intro!: tcp_intros)
  show ?thesis using rapport_inv(5) [OF assms, of c] o e by (simp add: conversation_segment_def Let_def)
qed

lemma handle_inv:
  fixes s :: "('s, 'a) conversation_scheme"
  assumes "tcp_inv s"
  shows "tcp_inv (conversation_handle now p len sip dip s)"
proof -
  let ?s = "s\<lparr>cv_accepted := cv_accepted s + 1\<rparr>"
  have s: "tcp_inv ?s" using assms by simp
  have c: "tcp_inv t" if "conversation_cookie now p sip sp dip dp ?s = (r, t)" for sp dp r t
    using cookie_inv [OF s, of now p sip sp dip dp] by (simp add: that)
  show ?thesis
    unfolding conversation_handle_def Let_def
    using assms s rapport_inv [OF s] syn_inv [OF s] segment_inv [OF s] by (auto intro: segment_inv dest: c split: prod.split option.split)
qed

lemma switchboard_updates [simp]:
  fixes s :: "('s, 'a) switchboard_scheme"
  shows "tcp_inv (s\<lparr>sb_next_ephemeral := n\<rparr>) = tcp_inv s" "tcp_inv (s\<lparr>sb_accepted_generation := g\<rparr>) = tcp_inv s"
  by (simp_all add: tcp_inv_def tables_ok_def)

lemma pick_inv: "tcp_inv s \<Longrightarrow> tcp_inv (snd (pick_loop n s))" for s :: "('s, 'a) switchboard_scheme"
  by (induction n arbitrary: s) (simp_all add: Let_def)

lemma connect_inv:
  fixes s :: "('s, 'a) switchboard_scheme"
  assumes "tcp_inv s"
  shows "tcp_inv (snd (switchboard_connect_locked now dip dp m ip s))"
proof -
  obtain lp t where pk: "pick_ephemeral_port s = (lp, t)" by fastforce
  have t: "tcp_inv t" using pick_inv [OF assms] pk by (metis pick_ephemeral_port_def snd_conv)
  obtain r k lb where c: "lockbox_claim lp dip dp 6 (nt_lockbox t) = (r, k, lb)" by (rule prod_cases3)
  obtain isn ck where l: "lottery_draw_isn now ip lp dip dp (nt_cookies t) = (isn, ck)" by fastforce
  let ?u = "\<lambda>c. rapport_initiate_connect c isn (t\<lparr>nt_lockbox := lb, nt_cookies := ck\<rparr>)"
  have u: "tcp_inv (?u c)" if "k = Some c" for c
  proof (rule opening_inv(2))
    show "tcp_inv (t\<lparr>nt_lockbox := lb, nt_cookies := ck\<rparr>)" using claim_inv(1) [OF t c] by (simp add: tcp_inv_def tables_ok_def)
  qed (use claim_inv(2) [OF t c that] in simp)
  have d: "tcp_inv v" if "conversation_dispatch_syn now c isn m ip (?u c) = (p, v)" "k = Some c" for c p v
    using dispatch_calls_inv(2) [OF u [OF that(2)], of now c isn m ip] by (simp add: that(1))
  show ?thesis
    using t claim_inv(1) [OF t c] by (auto simp: switchboard_connect_locked_def pk c l Let_def split: option.split prod.split dest: d)
qed

lemma calls_inv:
  fixes s :: "('s, 'a) switchboard_scheme"
  assumes "tcp_inv s"
  shows "tcp_inv (snd (switchboard_send_locked now c d n m ip s))" "tcp_inv (snd (switchboard_close_locked now c m ip s))"
    "tcp_inv (snd (switchboard_bind port proto s))" "tcp_inv (snd (switchboard_accept port s))" "tcp_inv (snd (switchboard_recv_locked c n s))"
proof -
  have d: "tcp_inv t" if "conversation_dispatch_data now c d n m ip s = (r, t)" for r t
    using dispatch_calls_inv(3) [OF assms, of now c d n m ip] by (simp add: that)
  show "tcp_inv (snd (switchboard_send_locked now c d n m ip s))"
    by (auto simp: switchboard_send_locked_def split: prod.split option.split dest: d)
  have f: "tcp_inv t" if "conversation_dispatch_fin now c m ip s = (r, t)" for r t
    using dispatch_calls_inv(4) [OF assms, of now c m ip] by (simp add: that)
  show "tcp_inv (snd (switchboard_close_locked now c m ip s))"
    by (auto simp: switchboard_close_locked_def split: prod.split option.split dest: f)
  show "tcp_inv (snd (switchboard_bind port proto s))"
    using claim_inv(1) [OF assms] by (auto simp: switchboard_bind_def lockbox_listen_def split: prod.split)
  show "tcp_inv (snd (switchboard_accept port s))" using assms by (simp add: switchboard_accept_def split: option.split)
  have "owns (snd (snd (inbox_read c n (nt_inbox s, nt_lockbox s)))) (rp_status s)" by (rule owns_read [OF tcp_invD(2) [OF assms]])
  then show "tcp_inv (snd (switchboard_recv_locked c n s))"
    using assms by (auto simp: switchboard_recv_locked_def intro: lockbox_inv split: prod.split)
qed

text \<open>The events of the TCP code, in any order.\<close>

inductive tcp_step :: "('s, 'a) switchboard_scheme \<Rightarrow> ('s, 'a) switchboard_scheme \<Rightarrow> bool" where
  segment: "tcp_step s (conversation_handle now p len sip dip s)"
| retransmit_timer: "tcp_step s (scheduler_tick now s)"
| time_wait_timer: "tcp_step s (rapport_tick now s)"
| bind: "tcp_step s (snd (switchboard_bind port proto s))"
| connect: "tcp_step s (snd (switchboard_connect_locked now dip dp m ip s))"
| send: "tcp_step s (snd (switchboard_send_locked now c d n m ip s))"
| close: "tcp_step s (snd (switchboard_close_locked now c m ip s))"
| accept: "tcp_step s (snd (switchboard_accept port s))"
| recv: "tcp_step s (snd (switchboard_recv_locked c n s))"

lemma step_inv: "tcp_step s t \<Longrightarrow> tcp_inv s \<Longrightarrow> tcp_inv t"
  by (induction rule: tcp_step.induct) (simp_all add: handle_inv tick_inv calls_inv connect_inv)

definition switchboard_up :: "unit switchboard" where
  "switchboard_up = conversation.extend conversation_up (switchboard.fields EPHEMERAL_PORT_LOW (replicate 64 0))"

lemma switchboard_up_inv: "tcp_inv (switchboard_up\<lparr>nt_lockbox := lockbox_boot\<rparr>)"
proof -
  have "conn_ok \<lparr>pk_seg = replicate 4 e, pk_state = PACKET_STATE_IDLE, pk_retry_track = 0, pk_srtt = 0, pk_rttvar = 0,
      pk_rto = 0, pk_last_ack_seen = 0, pk_dup_ack_count = 0\<rparr>" for e by (simp add: conn_ok_def SCHED_WINDOW_def)
  then show ?thesis
    by (simp add: tcp_inv_def conns_ok_def owns_def tables_ok_def lb_inv_boot switchboard_up_def conversation_up_def switchboard.defs
        conversation.defs waystation.defs rapport.defs sched.defs why.defs LOCKBOX_CAPACITY_def WAYSTATION_MAX_PENDING_def)
qed

section \<open>Properties\<close>

text \<open>C4. However segments, timers and socket calls interleave, every connection that is not closed owns a TCP socket of
  the socket table, the table keeps its quotas and unique keys, every table keeps its size, no
  connection retries more than 8 times and no timeout leaves 20 to 1000 ticks.\<close>

theorem tcp_safety:
  fixes s t :: "('s, 'a) switchboard_scheme"
  assumes "tcp_inv s" "tcp_step\<^sup>*\<^sup>* s t"
  shows "tcp_inv t"
  using assms(2,1) by (induction rule: rtranclp_induct) (auto dest: step_inv)

theorem tcp_safety_witness:
  "tcp_inv (scheduler_tick 9 (snd (switchboard_bind 80 6 (switchboard_up\<lparr>nt_lockbox := lockbox_boot\<rparr>))))"
  by (rule tcp_safety [OF switchboard_up_inv]) (meson converse_rtranclp_into_rtranclp rtranclp.rtrancl_refl tcp_step.bind tcp_step.retransmit_timer)

text \<open>C33. Giving up: when the oldest segment of a connection has timed out after eight retries, the timer closes the
  connection, frees its socket, empties its window and counts it, and sends nothing.\<close>

theorem scheduler_gives_up:
  fixes s :: "('s, 'a) switchboard_scheme"
  assumes "tcp_inv s" "c < LOCKBOX_CAPACITY" "rp_status s ! c \<noteq> CONV_CLOSED"
    "pk_state (sd_conns s ! c) = PACKET_STATE_RETRY" "pk_retry_track (sd_conns s ! c) = RETRY_LIMIT"
    "oldest (sd_conns s ! c) = Some i" "pk_rto (sd_conns s ! c) \<le> now - sg_start_timer (pk_seg (sd_conns s ! c) ! i)"
  shows "let t = scheduler_tick_slot now c s in
    rp_status t ! c = CONV_CLOSED \<and> \<not> in_use (table (nt_lockbox t) ! c) \<and> scheduler_free_slots c t = SCHED_WINDOW \<and>
    sd_giveup_total t = sd_giveup_total s + 1 \<and> fd_out t = fd_out s \<and> pk_state (sd_conns t ! c) = PACKET_STATE_IDLE"
proof -
  have l: "length (sd_conns s) = LOCKBOX_CAPACITY" "length (rp_status s) = LOCKBOX_CAPACITY" "length (table (nt_lockbox s)) = LOCKBOX_CAPACITY"
    "length (pk_seg (sd_conns s ! c)) = SCHED_WINDOW"
    using assms(1,2) by (simp_all add: tcp_inv_def conns_ok_def owns_def lb_inv_def conn_ok_def)
  have n: "\<not> now - sg_start_timer (pk_seg (sd_conns s ! c) ! i) < pk_rto (sd_conns s ! c)" using assms(7) by (simp add: not_less)
  have "count_if (\<lambda>e. \<not> sg_in_use e) (map (sg_in_use_update (\<lambda>_. False) \<circ> sg_in_use_update (\<lambda>_. False)) es) = length es" for es :: "sched_segment_t list"
    by (induction es) simp_all
  then show ?thesis
    using assms(2-6) l n
    by (simp add: scheduler_tick_slot_def Let_def rapport_on_rst_def hang_up_def set_status_def scheduler_cancel_def
        lockbox_release_def scheduler_free_slots_def clear_window_def)
qed

definition waiting_conn :: packets_state_t where
  "waiting_conn = \<lparr>pk_seg = \<lparr>sg_seq = 7, sg_length = 54, sg_seq_len = 1, sg_start_timer = 0, sg_in_use = True, sg_retransmitted = True,
       sg_frame = replicate 1600 0\<rparr> # replicate 3 \<lparr>sg_seq = 0, sg_length = 0, sg_seq_len = 0, sg_start_timer = 0, sg_in_use = False,
       sg_retransmitted = False, sg_frame = replicate 1600 0\<rparr>, pk_state = PACKET_STATE_RETRY, pk_retry_track = 8, pk_srtt = 0, pk_rttvar = 0,
     pk_rto = 1000, pk_last_ack_seen = 0, pk_dup_ack_count = 0\<rparr>"

definition switchboard_waiting :: "unit switchboard" where
  "switchboard_waiting = switchboard_up\<lparr>nt_lockbox := claimed 0 80 [10, 0, 0, 2] 4000 6 lockbox_boot,
     rp_status := (rp_status switchboard_up)[0 := CONV_SYN_RECEIVED], sd_conns := (sd_conns switchboard_up)[0 := waiting_conn]\<rparr>"

lemma waiting_inv: "tcp_inv switchboard_waiting"
proof -
  let ?s = "switchboard_up\<lparr>nt_lockbox := lockbox_boot\<rparr>"
  have c: "lockbox_claim 80 [10, 0, 0, 2] 4000 6 (nt_lockbox ?s) = (LOCKBOX_OK, Some 0, claimed 0 80 [10, 0, 0, 2] 4000 6 lockbox_boot)"
    using claim_boot by simp
  have l: "tcp_inv (?s\<lparr>nt_lockbox := claimed 0 80 [10, 0, 0, 2] 4000 6 lockbox_boot\<rparr>)" (is "tcp_inv ?t")
    by (rule claim_inv(1) [OF switchboard_up_inv c])
  have "tcp_inv (set_status 0 CONV_SYN_RECEIVED ?t)" using claim_inv(2) [OF switchboard_up_inv c refl refl] by (intro status_inv [OF l]) simp
  moreover have "conn_ok waiting_conn"
    by (simp add: conn_ok_def waiting_conn_def SCHED_WINDOW_def RETRY_LIMIT_def SCHED_MIN_RTO_def SCHED_MAX_RTO_def)
  then have "conns_ok ((sd_conns ?t)[0 := waiting_conn])" by (rule conns_update [OF tcp_invD(1) [OF l]])
  ultimately show ?thesis by (simp add: switchboard_waiting_def set_status_def tcp_inv_def tables_ok_def)
qed

theorem scheduler_gives_up_witness:
  "rp_status (scheduler_tick_slot 5000 0 switchboard_waiting) ! 0 = CONV_CLOSED"
proof -
  have l: "length (sd_conns switchboard_up) = 64" "length (rp_status switchboard_up) = 64"
    using switchboard_up_inv by (simp_all add: tcp_inv_def conns_ok_def owns_def LOCKBOX_CAPACITY_def)
  then have k: "sd_conns switchboard_waiting ! 0 = waiting_conn" "rp_status switchboard_waiting ! 0 \<noteq> CONV_CLOSED"
    by (simp_all add: switchboard_waiting_def)
  have o: "oldest waiting_conn = Some 0" by (simp add: oldest_def waiting_conn_def SCHED_WINDOW_def upt_rec)
  have "0 < LOCKBOX_CAPACITY" "pk_state waiting_conn = PACKET_STATE_RETRY" "pk_retry_track waiting_conn = RETRY_LIMIT"
    "pk_rto waiting_conn \<le> 5000 - sg_start_timer (pk_seg waiting_conn ! 0)"
    by (simp_all add: LOCKBOX_CAPACITY_def waiting_conn_def RETRY_LIMIT_def)
  then show ?thesis
    using scheduler_gives_up [OF waiting_inv, of 0 0 5000] k o unfolding Let_def by simp
qed

end
