(* ===== verification/Kstate.thy ===== *)
theory Kstate
  imports Kheap "HOL-Library.Monad_Syntax"
begin

text \<open>
  The kernel objects that files and tasks share: the structures of \<^verbatim>\<open>Include/vfs.h\<close> and \<^verbatim>\<open>kernel/Process/task.h\<close>, the
  global variables, \<^verbatim>\<open>strdup\<close>, the event log of a task and the terminal device. Objects live in stores
  indexed by the addresses that the kernel heap returns; freeing an address removes its object. A
  result \<open>None\<close> is behaviour that C leaves undefined (reading a freed or null object, or copying outside
  a buffer) or a loop that does not end; the address 0 is NULL. The bytes of a fresh buffer are whatever
  memory held, the field \<open>vf_junk\<close>. Character strings are lists of bytes without the final 0. Fields
  that no modelled function reads or writes are left out of the records.
\<close>

section \<open>Model\<close>

definition VFS_FILE :: u32 where "VFS_FILE = 1"
definition VFS_DIR :: u32 where "VFS_DIR = 2"
definition VFS_DEVICE :: u32 where "VFS_DEVICE = 4"
definition VFS_OK :: int where "VFS_OK = 0"
definition VFS_ERR :: int where "VFS_ERR = -1"
definition DENTRY_HASH :: nat where "DENTRY_HASH = 32"
definition TASK_MAX_FDS :: nat where "TASK_MAX_FDS = 32"
definition TASK_MAX_EVENTS :: nat where "TASK_MAX_EVENTS = 16"

text \<open>The operation table an inode points to: none, the RAM file system's, or the terminal's. Both tables
  have a read and a write function.\<close>

datatype vfs_ops_t = NO_OPS | RAMFS_OPS | TTY_OPS

record inode_t =
  in_size :: u32
  in_flags :: u32
  in_ref_count :: u32
  in_ops :: vfs_ops_t
  in_fs_private :: u32
  in_created_tick :: u32
  in_created_pid :: u32

record dentry_t =
  dn_name :: u32
  dn_inode :: u32
  dn_parent :: u32
  dn_children :: u32
  dn_mount :: u32
  dn_hash_bucket :: "u32 list"
  dn_hash_next :: u32
  dn_ref_count :: int

record ramfs_inode_t =
  rm_data :: u32
  rm_capacity :: u32

record file_t =
  fl_inode :: u32
  fl_dentry :: u32
  fl_ref_count :: int
  fl_flags :: u32
  fl_offset :: u32

datatype task_event_type_t =
    EVT_CREATED | EVT_FIRST_RUN | EVT_EXEC | EVT_FD_OPEN | EVT_FD_CLOSE | EVT_FORKED | EVT_CHILD_DIED
  | EVT_FAULT | EVT_SIGNAL | EVT_BLOCKED | EVT_WOKE | EVT_EXITED | EVT_QUARANTINED

record task_event_t =
  ev_type :: task_event_type_t
  ev_tick :: u32
  ev_data :: u32

datatype task_state_t = TASK_READY | TASK_RUNNING | TASK_BLOCKED | TASK_ZOMBIE | TASK_SUSPENDED | TASK_QUARANTINED

text \<open>The events logged are a list, whose length is \<^verbatim>\<open>event_count\<close>; of \<^verbatim>\<open>regs\<close> only \<^verbatim>\<open>eip\<close> is kept.\<close>

record task_t =
  tk_cr3 :: u32
  tk_pid :: u32
  tk_state :: task_state_t
  tk_eip :: u32
  tk_kernel_stack :: u32
  tk_kernel_stack_base :: u32
  tk_context_esp :: u32
  tk_fd_table :: "u32 list"
  tk_cwd :: u32
  tk_next :: u32
  tk_all_next :: u32
  tk_parent :: u32
  tk_exit_code :: int
  tk_first_run :: u32
  tk_signal_mask :: u32
  tk_pending_signals :: u32
  tk_signal_handlers :: "u32 list"
  tk_rlimits :: "(u32 \<times> u32) list"
  tk_user_time :: u32
  tk_kernel_time :: u32
  tk_start_time :: u32
  tk_events :: "task_event_t list"
  tk_destroy_time :: u32
  tk_name :: bytes
  tk_is_user :: bool

record vfs =
  vf_heap :: heap_state
  vf_junk :: "u32 \<Rightarrow> nat \<Rightarrow> bytes"
  vf_dentries :: "u32 \<rightharpoonup> dentry_t"
  vf_inodes :: "u32 \<rightharpoonup> inode_t"
  vf_rams :: "u32 \<rightharpoonup> ramfs_inode_t"
  vf_buffers :: "u32 \<rightharpoonup> bytes"
  vf_strings :: "u32 \<rightharpoonup> bytes"
  vf_files :: "u32 \<rightharpoonup> file_t"
  vf_mounts :: "u32 \<rightharpoonup> u32"
  vf_tasks :: "u32 \<rightharpoonup> task_t"
  vf_root :: u32
  devfs_table :: "(u32 \<times> u32) list"
  devfs_root :: u32
  current_task :: u32
  ready_queue :: u32
  all_tasks :: u32
  next_pid :: int
  keyboard_buffer :: bytes
  keyb_head :: nat
  keyb_tail :: nat
  vf_console :: bytes

definition valloc :: "u32 \<Rightarrow> vfs \<Rightarrow> (u32 \<times> vfs) option" where
  "valloc sz s = (case kmalloc_raw sz (vf_heap s) of None \<Rightarrow> None | Some (p, h) \<Rightarrow> Some (p, s\<lparr>vf_heap := h\<rparr>))"

definition vfree :: "u32 \<Rightarrow> vfs \<Rightarrow> vfs option" where
  "vfree p s =
     (case kfree_raw p (vf_heap s) of
        None \<Rightarrow> None
      | Some h \<Rightarrow> Some (s\<lparr>vf_heap := h, vf_dentries := (vf_dentries s)(p := None), vf_inodes := (vf_inodes s)(p := None),
          vf_rams := (vf_rams s)(p := None), vf_buffers := (vf_buffers s)(p := None), vf_strings := (vf_strings s)(p := None),
          vf_files := (vf_files s)(p := None), vf_mounts := (vf_mounts s)(p := None), vf_tasks := (vf_tasks s)(p := None)\<rparr>))"

definition strdup :: "bytes \<Rightarrow> vfs \<Rightarrow> (u32 \<times> vfs) option" where
  "strdup str s = do {
     (p, s) \<leftarrow> valloc (of_nat (length str) + 1) s;
     Some (p, if p = 0 then s else s\<lparr>vf_strings := (vf_strings s)(p \<mapsto> str)\<rparr>) }"

text \<open>The sizes of the structures, and a structure cleared by \<^verbatim>\<open>memset\<close>.\<close>

definition SIZEOF_dentry :: u32 where "SIZEOF_dentry = 160"
definition SIZEOF_inode :: u32 where "SIZEOF_inode = 32"
definition SIZEOF_ramfs_inode :: u32 where "SIZEOF_ramfs_inode = 8"
definition SIZEOF_file :: u32 where "SIZEOF_file = 24"
definition SIZEOF_task :: u32 where "SIZEOF_task = 640"

definition zero_dentry :: dentry_t where
  "zero_dentry = \<lparr>dn_name = 0, dn_inode = 0, dn_parent = 0, dn_children = 0, dn_mount = 0,
     dn_hash_bucket = replicate DENTRY_HASH 0, dn_hash_next = 0, dn_ref_count = 0\<rparr>"

definition zero_task :: task_t where
  "zero_task = \<lparr>tk_cr3 = 0, tk_pid = 0, tk_state = TASK_READY, tk_eip = 0, tk_kernel_stack = 0, tk_kernel_stack_base = 0,
     tk_context_esp = 0, tk_fd_table = replicate TASK_MAX_FDS 0, tk_cwd = 0, tk_next = 0, tk_all_next = 0, tk_parent = 0,
     tk_exit_code = 0, tk_first_run = 0, tk_signal_mask = 0, tk_pending_signals = 0, tk_signal_handlers = replicate 32 0,
     tk_rlimits = replicate 3 (0, 0), tk_user_time = 0, tk_kernel_time = 0, tk_start_time = 0, tk_events = [],
     tk_destroy_time = 0, tk_name = [], tk_is_user = False\<rparr>"

subsection \<open>The event log of a task\<close>

definition log_event :: "u32 \<Rightarrow> task_event_type_t \<Rightarrow> u32 \<Rightarrow> task_t \<Rightarrow> task_t" where
  "log_event now typ data t =
     (if length (tk_events t) \<ge> TASK_MAX_EVENTS then t
      else t\<lparr>tk_events := tk_events t @ [\<lparr>ev_type = typ, ev_tick = now, ev_data = data\<rparr>]\<rparr>)"

definition task_log_event :: "u32 \<Rightarrow> u32 \<Rightarrow> task_event_type_t \<Rightarrow> u32 \<Rightarrow> vfs \<Rightarrow> vfs option" where
  "task_log_event now task typ data s =
     (if task = 0 then Some s
      else case vf_tasks s task of
        None \<Rightarrow> None
      | Some t \<Rightarrow> Some (s\<lparr>vf_tasks := (vf_tasks s)(task \<mapsto> log_event now typ data t)\<rparr>))"

subsection \<open>The keyboard ring and the terminal\<close>

definition keyboard_push :: "u8 \<Rightarrow> vfs \<Rightarrow> vfs" where
  "keyboard_push c s =
     (let nxt = (keyb_head s + 1) mod 128
      in if nxt = keyb_tail s then s
         else s\<lparr>keyboard_buffer := (keyboard_buffer s)[keyb_head s := c], keyb_head := nxt\<rparr>)"

text \<open>With an empty ring the loop waits for the keyboard interrupt.\<close>

definition keyboard_getchar :: "vfs \<Rightarrow> (u8 \<times> vfs) option" where
  "keyboard_getchar s =
     (if keyb_head s = keyb_tail s then None
      else Some (keyboard_buffer s ! keyb_tail s, s\<lparr>keyb_tail := (keyb_tail s + 1) mod 128\<rparr>))"

definition tty_write :: "u32 \<Rightarrow> bytes \<Rightarrow> vfs \<Rightarrow> (u32 \<times> vfs) option" where
  "tty_write sz buffer s =
     (if unat sz > length buffer then None else Some (sz, s\<lparr>vf_console := vf_console s @ take (unat sz) buffer\<rparr>))"

fun tty_read_loop :: "nat \<Rightarrow> bytes \<Rightarrow> vfs \<Rightarrow> (bytes \<times> vfs) option" where
  "tty_read_loop 0 got s = Some (got, s)"
| "tty_read_loop (Suc n) got s =
     (case keyboard_getchar s of
        None \<Rightarrow> None
      | Some (c, s') \<Rightarrow> if c = 10 then Some (got @ [c], s') else tty_read_loop n (got @ [c]) s')"

definition tty_read :: "u32 \<Rightarrow> vfs \<Rightarrow> (u32 \<times> bytes \<times> vfs) option" where
  "tty_read sz s =
     (case tty_read_loop (unat sz) [] s of None \<Rightarrow> None | Some (got, s') \<Rightarrow> Some (of_nat (length got), got, s'))"

end
