(* ===== verification/Small_Kernel.thy ===== *)
theory Small_Kernel
  imports Kstate
begin

text \<open>
  A concrete kernel state, on which the properties of files and tasks are evaluated: a heap of sixteen pages with the
  caches set up, and on it a root directory with one file, opened twice by one task.
\<close>

definition buddy16 :: "(nat \<Rightarrow> u32) \<Rightarrow> buddy_state" where
  "buddy16 fl = \<lparr>buddy_start = 0x10000, buddy_end = 0x20000, buddy_total_mem = 0x10000, free_lists = fl, nxt = \<lambda>_. 0\<rparr>"

definition cache_at :: "u32 \<Rightarrow> u32 \<Rightarrow> u32 \<Rightarrow> slab_t" where
  "cache_at addr sz used = \<lparr>bitmap = used, first_slot = addr, slab_size = sz\<rparr>"

text \<open>The heap with the free lists, the slots used of the small cache and the headers of large blocks.\<close>

definition heap16 :: "(nat \<Rightarrow> u32) \<Rightarrow> u32 \<Rightarrow> (u32 \<Rightarrow> u32) \<Rightarrow> (u32 \<Rightarrow> u32) \<Rightarrow> heap_state" where
  "heap16 fl used ty ord = \<lparr>hp_buddy = buddy16 fl, cache_32b = cache_at 0x12000 32 used, cache_64b = cache_at 0x10000 64 0,
     cache_128b = cache_at 0x11000 128 0, hdr_type = ty, hdr_order = ord\<rparr>"

lemma buddy16_run: "run_ok (block_pages 4 0x10000) (buddy16 ((\<lambda>_. 0)(4 := 0x10000))) {}"
proof -
  have "buddy_abs (buddy16 ((\<lambda>_. 0)(4 := 0x10000))) (one_block 4 0x10000)"
    by (simp add: buddy_abs_def lists_ok_def one_block_def buddy16_def block_ok_def MAX_ORDER_def)
  then show ?thesis by (auto simp: run_ok_def held_ok_def)
qed

lemma buddy16_allocs:
  "buddy_alloc 0 (buddy16 ((\<lambda>_. 0)(4 := 0x10000))) =
     Some (0x10000, buddy16 ((\<lambda>_. 0)(3 := 0x18000, 2 := 0x14000, Suc 0 := 0x12000, 0 := 0x11000)))"
  "buddy_alloc 0 (buddy16 ((\<lambda>_. 0)(3 := 0x18000, 2 := 0x14000, Suc 0 := 0x12000, 0 := 0x11000))) =
     Some (0x11000, buddy16 ((\<lambda>_. 0)(3 := 0x18000, 2 := 0x14000, Suc 0 := 0x12000)))"
  "buddy_alloc 0 (buddy16 ((\<lambda>_. 0)(3 := 0x18000, 2 := 0x14000, Suc 0 := 0x12000))) =
     Some (0x12000, buddy16 ((\<lambda>_. 0)(3 := 0x18000, 2 := 0x14000, 0 := 0x13000)))"
  "buddy_alloc 0 (buddy16 ((\<lambda>_. 0)(3 := 0x18000, 2 := 0x14000, 0 := 0x13000))) =
     Some (0x13000, buddy16 ((\<lambda>_. 0)(3 := 0x18000, 2 := 0x14000)))"
  "buddy_alloc 0 (buddy16 ((\<lambda>_. 0)(3 := 0x18000, 2 := 0x14000))) =
     Some (0x14000, buddy16 ((\<lambda>_. 0)(3 := 0x18000, Suc 0 := 0x16000, 0 := 0x15000)))"
  "buddy_alloc 1 (buddy16 ((\<lambda>_. 0)(3 := 0x18000, Suc 0 := 0x16000, 0 := 0x15000))) =
     Some (0x16000, buddy16 ((\<lambda>_. 0)(3 := 0x18000, 0 := 0x15000)))"
  "buddy_alloc 0 (buddy16 ((\<lambda>_. 0)(3 := 0x18000, 0 := 0x15000))) = Some (0x15000, buddy16 ((\<lambda>_. 0)(3 := 0x18000)))"
  by (simp_all add: buddy16_def buddy_eval)

lemma heap16_ok: "heap_ok (block_pages 4 0x10000) (heap16 ((\<lambda>_. 0)(3 := 0x18000, 2 := 0x14000, 0 := 0x13000)) 0 (\<lambda>_. 0) (\<lambda>_. 0)) {}"
proof -
  define h0 where "h0 = heap_blank\<lparr>hp_buddy := buddy16 ((\<lambda>_. 0)(4 := 0x10000))\<rparr>"
  have "slab_init_all h0 = Some (heap16 ((\<lambda>_. 0)(3 := 0x18000, 2 := 0x14000, 0 := 0x13000)) 0 (\<lambda>_. 0) (\<lambda>_. 0))"
    by (simp add: slab_init_all_def slab_init_def h0_def heap_blank_def heap16_def cache_at_def slab_blank_def buddy16_allocs)
  then show ?thesis using buddy16_run by (intro slab_init_all_ok [of _ h0]) (simp_all add: h0_def heap16_def cache_at_def slab_caches_def)
qed

text \<open>A large and a small request on this heap.\<close>

lemma heap16_large_run:
  assumes "128 < sz" "size_to_order (sz + 12) = Some (int k)" "buddy_alloc (int k) (buddy16 fl) = Some (hdr, buddy16 fl')" "hdr \<noteq> 0"
  shows "kmalloc_raw sz (heap16 fl used ty ord) = Some (hdr + 12, heap16 fl' used (ty(hdr := BUDDY)) (ord(hdr := of_nat k)))"
  using assms(2-4) by (simp add: kmalloc_raw_def kmalloc_large [OF assms(1)] HDR_SIZE_def) (simp add: heap16_def HDR_SIZE_def)

lemma heap16_small_run:
  assumes "sz \<le> 32" "NOT used \<noteq> 0" "ctz (NOT used) = i"
  shows "kmalloc_raw sz (heap16 fl used ty ord) = Some (0x12000 + of_nat i * 32, heap16 fl (used OR push_bit i 1) ty ord)"
  using assms by (simp add: kmalloc_raw_def kmalloc_unlocked_def heap16_def cache_at_def slab_alloc_def)

lemma heap16_large:
  assumes "heap_ok U (heap16 fl used ty ord) H" "128 < sz" "unat sz + 12 < 2 ^ 32"
    and "size_to_order (sz + 12) = Some (int k)" "buddy_alloc (int k) (buddy16 fl) = Some (hdr, buddy16 fl')" "hdr \<noteq> 0" "hdr + 12 \<noteq> 0"
  shows "heap_ok U (heap16 fl' used (ty(hdr := BUDDY)) (ord(hdr := of_nat k))) (insert (hdr + 12, sz) H)"
  using kmalloc_ok [OF assms(1,3) heap16_large_run [OF assms(2,4-6)]] assms(7) by simp

lemma heap16_small:
  assumes "heap_ok U (heap16 fl used ty ord) H" "sz \<le> 32" "NOT used \<noteq> 0" "ctz (NOT used) = i" "0x12000 + of_nat i * 32 \<noteq> (0 :: u32)"
  shows "heap_ok U (heap16 fl (used OR push_bit i 1) ty ord) (insert (0x12000 + of_nat i * 32, sz) H)"
proof -
  have "unat sz \<le> 32" using assms(2) by (simp add: word_le_nat_alt)
  then show ?thesis using kmalloc_ok [OF assms(1) _ heap16_small_run [OF assms(2-4)]] assms(5) by simp
qed

lemma order_of_sizes: "size_to_order 172 = Some (int 0)" "size_to_order 652 = Some (int 0)" "size_to_order 4108 = Some (int 1)"
  by (simp_all add: size_to_order_def size_to_order_loop.simps)

text \<open>The heap after the objects are allocated, with what is live.\<close>

definition demo_heap :: heap_state where
  "demo_heap = heap16 ((\<lambda>_. 0)(3 := 0x18000)) 0x3F
     ((\<lambda>_. 0)(0x13000 := BUDDY, 0x14000 := BUDDY, 0x16000 := BUDDY, 0x15000 := BUDDY))
     ((\<lambda>_. 0)(0x13000 := 0, 0x14000 := 0, 0x16000 := 1, 0x15000 := 0))"

definition demo_live :: "(u32 \<times> u32) set" where
  "demo_live = {(0x120A0, 2), (0x12080, 24), (0x12060, 24), (0x1500C, 640), (0x1600C, 4096), (0x12040, 8), (0x12020, 32),
     (0x1400C, 160), (0x12000, 32), (0x1300C, 160)}"

lemma demo_heap_ok: "heap_ok (block_pages 4 0x10000) demo_heap demo_live"
proof -
  note L = heap16_large and S = heap16_small
  note ev = order_of_sizes [simplified] buddy16_allocs BUDDY_def ctz_def upt_zero_numeral
  have s1: "heap_ok (block_pages 4 0x10000) (heap16 ((\<lambda>_. 0)(3 := 0x18000, 2 := 0x14000)) 0 ((\<lambda>_. 0)(0x13000 := BUDDY)) ((\<lambda>_. 0)(0x13000 := 0))) {(0x1300C, 160)}"
    using L [OF heap16_ok, of 160 0 "0x13000" "(\<lambda>_. 0)(3 := 0x18000, 2 := 0x14000)"] by (simp add: ev)
  have s2: "heap_ok (block_pages 4 0x10000) (heap16 ((\<lambda>_. 0)(3 := 0x18000, 2 := 0x14000)) 1 ((\<lambda>_. 0)(0x13000 := BUDDY)) ((\<lambda>_. 0)(0x13000 := 0))) {(0x12000, 32), (0x1300C, 160)}"
    using S [OF s1, of 32 0] by (simp add: ev)
  have s3: "heap_ok (block_pages 4 0x10000) (heap16 ((\<lambda>_. 0)(3 := 0x18000, Suc 0 := 0x16000, 0 := 0x15000)) 1 ((\<lambda>_. 0)(0x13000 := BUDDY, 0x14000 := BUDDY)) ((\<lambda>_. 0)(0x13000 := 0, 0x14000 := 0))) {(0x1400C, 160), (0x12000, 32), (0x1300C, 160)}"
    using L [OF s2, of 160 0 "0x14000" "(\<lambda>_. 0)(3 := 0x18000, Suc 0 := 0x16000, 0 := 0x15000)"] by (simp add: ev)
  have s4: "heap_ok (block_pages 4 0x10000) (heap16 ((\<lambda>_. 0)(3 := 0x18000, Suc 0 := 0x16000, 0 := 0x15000)) 3 ((\<lambda>_. 0)(0x13000 := BUDDY, 0x14000 := BUDDY)) ((\<lambda>_. 0)(0x13000 := 0, 0x14000 := 0))) {(0x12020, 32), (0x1400C, 160), (0x12000, 32), (0x1300C, 160)}"
    using S [OF s3, of 32 1] by (simp add: ev)
  have s5: "heap_ok (block_pages 4 0x10000) (heap16 ((\<lambda>_. 0)(3 := 0x18000, Suc 0 := 0x16000, 0 := 0x15000)) 7 ((\<lambda>_. 0)(0x13000 := BUDDY, 0x14000 := BUDDY)) ((\<lambda>_. 0)(0x13000 := 0, 0x14000 := 0))) {(0x12040, 8), (0x12020, 32), (0x1400C, 160), (0x12000, 32), (0x1300C, 160)}"
    using S [OF s4, of 8 2] by (simp add: ev)
  have s6: "heap_ok (block_pages 4 0x10000) (heap16 ((\<lambda>_. 0)(3 := 0x18000, 0 := 0x15000)) 7 ((\<lambda>_. 0)(0x13000 := BUDDY, 0x14000 := BUDDY, 0x16000 := BUDDY)) ((\<lambda>_. 0)(0x13000 := 0, 0x14000 := 0, 0x16000 := 1))) {(0x1600C, 4096), (0x12040, 8), (0x12020, 32), (0x1400C, 160), (0x12000, 32), (0x1300C, 160)}"
    using L [OF s5, of 4096 1 "0x16000" "(\<lambda>_. 0)(3 := 0x18000, 0 := 0x15000)"] by (simp add: ev)
  have s7: "heap_ok (block_pages 4 0x10000) (heap16 ((\<lambda>_. 0)(3 := 0x18000)) 7 ((\<lambda>_. 0)(0x13000 := BUDDY, 0x14000 := BUDDY, 0x16000 := BUDDY, 0x15000 := BUDDY)) ((\<lambda>_. 0)(0x13000 := 0, 0x14000 := 0, 0x16000 := 1, 0x15000 := 0))) {(0x1500C, 640), (0x1600C, 4096), (0x12040, 8), (0x12020, 32), (0x1400C, 160), (0x12000, 32), (0x1300C, 160)}"
    using L [OF s6, of 640 0 "0x15000" "(\<lambda>_. 0)(3 := 0x18000)"] by (simp add: ev)
  have s8: "heap_ok (block_pages 4 0x10000) (heap16 ((\<lambda>_. 0)(3 := 0x18000)) 15 ((\<lambda>_. 0)(0x13000 := BUDDY, 0x14000 := BUDDY, 0x16000 := BUDDY, 0x15000 := BUDDY)) ((\<lambda>_. 0)(0x13000 := 0, 0x14000 := 0, 0x16000 := 1, 0x15000 := 0))) {(0x12060, 24), (0x1500C, 640), (0x1600C, 4096), (0x12040, 8), (0x12020, 32), (0x1400C, 160), (0x12000, 32), (0x1300C, 160)}"
    using S [OF s7, of 24 3] by (simp add: ev)
  have s9: "heap_ok (block_pages 4 0x10000) (heap16 ((\<lambda>_. 0)(3 := 0x18000)) 31 ((\<lambda>_. 0)(0x13000 := BUDDY, 0x14000 := BUDDY, 0x16000 := BUDDY, 0x15000 := BUDDY)) ((\<lambda>_. 0)(0x13000 := 0, 0x14000 := 0, 0x16000 := 1, 0x15000 := 0))) {(0x12080, 24), (0x12060, 24), (0x1500C, 640), (0x1600C, 4096), (0x12040, 8), (0x12020, 32), (0x1400C, 160), (0x12000, 32), (0x1300C, 160)}"
    using S [OF s8, of 24 4] by (simp add: ev)
  have s10: "heap_ok (block_pages 4 0x10000) (heap16 ((\<lambda>_. 0)(3 := 0x18000)) 63 ((\<lambda>_. 0)(0x13000 := BUDDY, 0x14000 := BUDDY, 0x16000 := BUDDY, 0x15000 := BUDDY)) ((\<lambda>_. 0)(0x13000 := 0, 0x14000 := 0, 0x16000 := 1, 0x15000 := 0))) {(0x120A0, 2), (0x12080, 24), (0x12060, 24), (0x1500C, 640), (0x1600C, 4096), (0x12040, 8), (0x12020, 32), (0x1400C, 160), (0x12000, 32), (0x1300C, 160)}"
    using S [OF s9, of 2 5] by (simp add: ev)
  show ?thesis using s10 by (simp add: demo_heap_def demo_live_def)
qed

text \<open>The root directory at \<open>0x1300C\<close> with the file \<open>f\<close> of three bytes at \<open>0x1400C\<close>; the task at \<open>0x1500C\<close> has it open for writing as
  descriptor 0 and for reading as descriptor 1.\<close>

definition demo_inode :: "u32 \<Rightarrow> u32 \<Rightarrow> inode_t" where
  "demo_inode flags refs = \<lparr>in_size = 0, in_flags = flags, in_ref_count = refs, in_ops = NO_OPS, in_fs_private = 0,
     in_created_tick = 0, in_created_pid = 0\<rparr>"

definition demo_file :: "u32 \<Rightarrow> file_t" where
  "demo_file flags = \<lparr>fl_inode = 0x12020, fl_dentry = 0x1400C, fl_ref_count = 1, fl_flags = flags, fl_offset = 0\<rparr>"

definition demo_task :: task_t where
  "demo_task = zero_task\<lparr>tk_state := TASK_RUNNING, tk_fd_table := 0x12060 # 0x12080 # replicate 30 0, tk_cwd := 0x1300C,
     tk_next := 0x1500C\<rparr>"

definition demo_state :: vfs where
  "demo_state = \<lparr>vf_heap = demo_heap, vf_junk = (\<lambda>_ n. replicate n 0),
     vf_dentries = [0x1300C \<mapsto> zero_dentry\<lparr>dn_name := 0x200, dn_inode := 0x12000, dn_parent := 0x1300C,
         dn_hash_bucket := (replicate DENTRY_HASH 0)[6 := 0x1400C]\<rparr>,
       0x1400C \<mapsto> zero_dentry\<lparr>dn_name := 0x120A0, dn_inode := 0x12020, dn_parent := 0x1300C\<rparr>],
     vf_inodes = [0x12000 \<mapsto> demo_inode VFS_DIR 0,
       0x12020 \<mapsto> (demo_inode VFS_FILE 2)\<lparr>in_size := 3, in_ops := RAMFS_OPS, in_fs_private := 0x12040\<rparr>],
     vf_rams = [0x12040 \<mapsto> \<lparr>rm_data = 0x1600C, rm_capacity = 4096\<rparr>],
     vf_buffers = [0x1600C \<mapsto> [1, 2, 3] @ replicate 4093 0],
     vf_strings = [0x200 \<mapsto> [47], 0x120A0 \<mapsto> [102]], vf_files = [0x12060 \<mapsto> demo_file 2, 0x12080 \<mapsto> demo_file 1],
     vf_mounts = Map.empty, vf_tasks = [0x1500C \<mapsto> demo_task], vf_root = 0x1300C, devfs_table = [], devfs_root = 0,
     current_task = 0x1500C, ready_queue = 0x1500C, all_tasks = 0x1500C, next_pid = 1,
     keyboard_buffer = replicate 128 0, keyb_head = 0, keyb_tail = 0, vf_console = []\<rparr>"

end
