(* ===== verification/Ramfs.thy ===== *)
theory Ramfs
  imports Small_Kernel
begin

text \<open>
  The RAM file system, \<^verbatim>\<open>kernel/VFS/RAMFS.c\<close>, on the objects of theory Kstate: \<open>None\<close> is undefined behaviour or a
  loop that does not end, 0 is NULL. A file is an array of bytes: a write returns and changes exactly the
  bytes asked for, also when the buffer has to grow, and a read returns the bytes of the file.
\<close>

section \<open>Model\<close>

definition dentry_hash :: "bytes \<Rightarrow> nat" where
  "dentry_hash name = unat (foldl (\<lambda>h c. h * 31 + scast c) (0 :: u32) name mod of_nat DENTRY_HASH)"

text \<open>The value returned and the bytes copied to the caller's buffer; \<open>-1\<close> is an error.\<close>

definition ramfs_read :: "u32 \<Rightarrow> u32 \<Rightarrow> u32 \<Rightarrow> vfs \<Rightarrow> (u32 \<times> bytes) option" where
  "ramfs_read dentry offset sz s = do {
     d \<leftarrow> vf_dentries s dentry;
     ino \<leftarrow> vf_inodes s (dn_inode d);
     if in_fs_private ino = 0 then Some (- 1, [])
     else do {
       ram \<leftarrow> vf_rams s (in_fs_private ino);
       if offset > in_size ino then Some (0, [])
       else do {
         let sz = (if offset + sz > in_size ino then in_size ino - offset else sz);
         buf \<leftarrow> vf_buffers s (rm_data ram);
         if unat offset + unat sz > length buf then None
         else Some (sz, take (unat sz) (drop (unat offset) buf)) } } }"

text \<open>The doubling loop of \<^verbatim>\<open>ramfs_expand\<close>: it does not end once the capacity wraps to 0.\<close>

partial_function (option) grow_cap :: "u32 \<Rightarrow> u32 \<Rightarrow> u32 option" where
  "grow_cap new_cap needed = (if new_cap < needed then grow_cap (new_cap * 2) needed else Some new_cap)"

definition ramfs_expand :: "u32 \<Rightarrow> u32 \<Rightarrow> vfs \<Rightarrow> (bool \<times> vfs) option" where
  "ramfs_expand ram_ptr needed s = (if ram_ptr = 0 then Some (False, s) else do {
     ram \<leftarrow> vf_rams s ram_ptr;
     if needed \<le> rm_capacity ram then Some (True, s)
     else do {
       new_cap \<leftarrow> grow_cap (rm_capacity ram) needed;
       (new_data, s) \<leftarrow> valloc new_cap s;
       if new_data = 0 then Some (False, s)
       else do {
         buf \<leftarrow> vf_buffers s (rm_data ram);
         let s = s\<lparr>vf_buffers := (vf_buffers s)(new_data \<mapsto> take (unat (rm_capacity ram)) buf @
               drop (unat (rm_capacity ram)) (vf_junk s new_data (unat new_cap)))\<rparr>;
         s \<leftarrow> vfree (rm_data ram) s;
         Some (True, s\<lparr>vf_rams := (vf_rams s)(ram_ptr \<mapsto> \<lparr>rm_data = new_data, rm_capacity = new_cap\<rparr>)\<rparr>) } } })"

definition ramfs_write :: "u32 \<Rightarrow> u32 \<Rightarrow> u32 \<Rightarrow> bytes \<Rightarrow> vfs \<Rightarrow> (u32 \<times> vfs) option" where
  "ramfs_write dentry offset sz buffer s = do {
     d \<leftarrow> vf_dentries s dentry;
     ino \<leftarrow> vf_inodes s (dn_inode d);
     if in_fs_private ino = 0 then Some (- 1, s)
     else do {
       ram \<leftarrow> vf_rams s (in_fs_private ino);
       (ok, s) \<leftarrow> (if offset + sz > rm_capacity ram then ramfs_expand (in_fs_private ino) (offset + sz) s else Some (True, s));
       if \<not> ok then Some (- 1, s)
       else do {
         ram \<leftarrow> vf_rams s (in_fs_private ino);
         buf \<leftarrow> vf_buffers s (rm_data ram);
         if unat offset + unat sz > length buf \<or> unat sz > length buffer then None
         else do {
           let s = s\<lparr>vf_buffers := (vf_buffers s)(rm_data ram \<mapsto>
                 take (unat offset) buf @ take (unat sz) buffer @ drop (unat offset + unat sz) buf)\<rparr>;
           Some (sz, if offset + sz > in_size ino
                     then s\<lparr>vf_inodes := (vf_inodes s)(dn_inode d \<mapsto> ino\<lparr>in_size := offset + sz\<rparr>)\<rparr> else s) } } } }"

text \<open>Putting a new entry at the head of its bucket in the parent.\<close>

definition hash_insert :: "u32 \<Rightarrow> u32 \<Rightarrow> bytes \<Rightarrow> vfs \<Rightarrow> vfs option" where
  "hash_insert parent child name s = do {
     let bucket = dentry_hash name;
     p \<leftarrow> vf_dentries s parent;
     c \<leftarrow> vf_dentries s child;
     let s = s\<lparr>vf_dentries := (vf_dentries s)(child \<mapsto> c\<lparr>dn_hash_next := dn_hash_bucket p ! bucket\<rparr>)\<rparr>;
     p \<leftarrow> vf_dentries s parent;
     Some (s\<lparr>vf_dentries := (vf_dentries s)(parent \<mapsto> p\<lparr>dn_hash_bucket := (dn_hash_bucket p)[bucket := child]\<rparr>)\<rparr>) }"

text \<open>The new entry, or 0. A name that could not be copied is NULL, and hashing it reads address 0.\<close>

definition current_pid :: "vfs \<Rightarrow> u32 option" where
  "current_pid s = (if current_task s = 0 then Some 0 else map_option tk_pid (vf_tasks s (current_task s)))"

definition ramfs_create_files :: "u32 \<Rightarrow> u32 \<Rightarrow> bytes \<Rightarrow> vfs \<Rightarrow> (u32 \<times> vfs) option" where
  "ramfs_create_files now parent name s = do {
     (child, s) \<leftarrow> valloc SIZEOF_dentry s;
     (inode, s) \<leftarrow> valloc SIZEOF_inode s;
     (ram, s) \<leftarrow> valloc SIZEOF_ramfs_inode s;
     if ram = 0 \<or> child = 0 \<or> inode = 0 then Some (0, s)
     else do {
       (data, s) \<leftarrow> valloc 4096 s;
       if data = 0
       then do { s \<leftarrow> vfree ram s; s \<leftarrow> vfree inode s; s \<leftarrow> vfree child s; Some (0, s) }
       else do {
         pid \<leftarrow> current_pid s;
         let s = s\<lparr>vf_rams := (vf_rams s)(ram \<mapsto> \<lparr>rm_data = data, rm_capacity = 4096\<rparr>),
               vf_buffers := (vf_buffers s)(data \<mapsto> vf_junk s data 4096),
               vf_inodes := (vf_inodes s)(inode \<mapsto> \<lparr>in_size = 0, in_flags = VFS_FILE, in_ref_count = 0, in_ops = RAMFS_OPS,
                  in_fs_private = ram, in_created_tick = now, in_created_pid = pid\<rparr>)\<rparr>;
         (nm, s) \<leftarrow> strdup name s;
         if nm = 0 then None
         else do {
           let s = s\<lparr>vf_dentries := (vf_dentries s)(child \<mapsto> zero_dentry\<lparr>dn_name := nm, dn_inode := inode, dn_parent := parent\<rparr>)\<rparr>;
           s \<leftarrow> hash_insert parent child name s;
           Some (child, s) } } } }"

definition ramfs_mkdir :: "u32 \<Rightarrow> bytes option \<Rightarrow> vfs \<Rightarrow> (u32 \<times> vfs) option" where
  "ramfs_mkdir parent name_ptr s =
     (if parent = 0 then Some (0, s)
      else case name_ptr of None \<Rightarrow> Some (0, s) | Some name \<Rightarrow> do {
        (dentry, s) \<leftarrow> valloc SIZEOF_dentry s;
        (inode, s) \<leftarrow> valloc SIZEOF_inode s;
        if dentry = 0 \<or> inode = 0 then Some (0, s)
        else do {
          let s = s\<lparr>vf_inodes := (vf_inodes s)(inode \<mapsto> \<lparr>in_size = 0, in_flags = VFS_DIR, in_ref_count = 0, in_ops = NO_OPS,
                in_fs_private = 0, in_created_tick = 0, in_created_pid = 0\<rparr>)\<rparr>;
          (nm, s) \<leftarrow> strdup name s;
          let s = s\<lparr>vf_dentries := (vf_dentries s)(dentry \<mapsto> zero_dentry\<lparr>dn_name := nm, dn_inode := inode, dn_parent := parent\<rparr>)\<rparr>;
          s \<leftarrow> hash_insert parent dentry name s;
          Some (dentry, s) } })"

definition ramfs_init :: "vfs \<Rightarrow> vfs option" where
  "ramfs_init s = do {
     d \<leftarrow> vf_dentries s (vf_root s);
     ino \<leftarrow> vf_inodes s (dn_inode d);
     Some (s\<lparr>vf_inodes := (vf_inodes s)(dn_inode d \<mapsto> ino\<lparr>in_ops := RAMFS_OPS\<rparr>)\<rparr>) }"

section \<open>A file is an array of bytes\<close>

text \<open>A regular file in good order, with the heap it lives in: \<open>H\<close> is the set of live allocations, as in theory
  Kheap, among them the entry, the inode, the file's record and its buffer.\<close>

definition file_parts :: "nat set \<Rightarrow> (u32 \<times> u32) set \<Rightarrow> u32 \<Rightarrow> vfs \<Rightarrow> dentry_t \<Rightarrow> inode_t \<Rightarrow> ramfs_inode_t \<Rightarrow> bytes \<Rightarrow> bool" where
  "file_parts U H dentry s d ino ram buf \<longleftrightarrow> heap_ok U (vf_heap s) H \<and> (\<forall>p n. length (vf_junk s p n) = n) \<and>
     vf_dentries s dentry = Some d \<and> vf_inodes s (dn_inode d) = Some ino \<and>
     vf_rams s (in_fs_private ino) = Some ram \<and> vf_buffers s (rm_data ram) = Some buf \<and> in_fs_private ino \<noteq> 0 \<and>
     (dentry, SIZEOF_dentry) \<in> H \<and> (dn_inode d, SIZEOF_inode) \<in> H \<and> (in_fs_private ino, SIZEOF_ramfs_inode) \<in> H \<and>
     (rm_data ram, rm_capacity ram) \<in> H \<and> (\<exists>k. 12 \<le> k \<and> k \<le> 30 \<and> rm_capacity ram = 2 ^ k) \<and>
     length buf = unat (rm_capacity ram) \<and> in_size ino \<le> rm_capacity ram"

definition file_ok :: "nat set \<Rightarrow> (u32 \<times> u32) set \<Rightarrow> u32 \<Rightarrow> vfs \<Rightarrow> bool" where
  "file_ok U H dentry s \<longleftrightarrow> (\<exists>d ino ram buf. file_parts U H dentry s d ino ram buf)"

definition file_bytes :: "u32 \<Rightarrow> vfs \<Rightarrow> bytes option" where
  "file_bytes dentry s = do {
     d \<leftarrow> vf_dentries s dentry;
     ino \<leftarrow> vf_inodes s (dn_inode d);
     ram \<leftarrow> vf_rams s (in_fs_private ino);
     buf \<leftarrow> vf_buffers s (rm_data ram);
     Some (take (unat (in_size ino)) buf) }"

text \<open>What growing the buffer at \<open>q\<close> leaves alone: the other allocations stay live, and the entries, open files
  and tasks among them keep their contents.\<close>

definition frame_ok :: "u32 \<Rightarrow> (u32 \<times> u32) set \<Rightarrow> (u32 \<times> u32) set \<Rightarrow> vfs \<Rightarrow> vfs \<Rightarrow> bool" where
  "frame_ok q H H' s s' \<longleftrightarrow> current_task s' = current_task s \<and>
     (\<forall>(p, n)\<in>H. p \<noteq> q \<longrightarrow> (p, n) \<in> H' \<and> vf_dentries s' p = vf_dentries s p \<and> vf_files s' p = vf_files s p \<and> vf_tasks s' p = vf_tasks s p)"

lemma frame_okI: "current_task s' = current_task s \<Longrightarrow> H \<subseteq> H' \<Longrightarrow> vf_dentries s' = vf_dentries s \<Longrightarrow> vf_files s' = vf_files s \<Longrightarrow>
    vf_tasks s' = vf_tasks s \<Longrightarrow> frame_ok q H H' s s'"
  by (auto simp: frame_ok_def)

lemma frame_ok_more: "frame_ok q H H' s s' \<Longrightarrow> frame_ok q H H' s (s'\<lparr>vf_buffers := b, vf_inodes := i\<rparr>)"
  by (simp add: frame_ok_def)

lemma kmalloc_total:
  assumes "heap_ok U h H" "128 < sz" "unat sz + 12 \<le> 2 ^ 31"
  shows "\<exists>p h'. kmalloc_raw sz h = Some (p, h')"
proof -
  have "unat (sz + HDR_SIZE) = unat sz + 12" using assms(3) by (simp add: HDR_SIZE_def unat_add_no_wrap)
  then obtain k where k: "size_to_order (sz + HDR_SIZE) = Some (int k)" using size_to_order_Some [of "sz + HDR_SIZE"] assms(3) by auto
  have "buddy_alloc (int k) (hp_buddy h) \<noteq> None" by (rule run_ok_alloc_returns [OF heap_okD(1) [OF assms(1)]])
  then show ?thesis by (auto simp: kmalloc_raw_def kmalloc_large [OF assms(2)] k split: if_splits)
qed

text \<open>The doubling loop ends for every size up to \<open>2 ^ 30\<close>, at the first power that covers it, and never for a size
  beyond \<open>2 ^ 31\<close>.\<close>

lemma grow_cap_ends:
  "k \<le> 30 \<Longrightarrow> unat needed \<le> 2 ^ 30 \<Longrightarrow> \<exists>j. k \<le> j \<and> j \<le> 30 \<and> grow_cap (2 ^ k) needed = Some (2 ^ j) \<and> needed \<le> 2 ^ j"
proof (induction "30 - k" arbitrary: k)
  case 0
  then have "k = 30" by simp
  then have "\<not> 2 ^ k < needed" using 0(3) by (simp add: word_less_nat_alt not_less)
  then show ?case using 0 by (subst grow_cap.simps) (auto simp: not_less)
next
  case (Suc m)
  then have k: "k < 30" by simp
  show ?case
  proof (cases "(2 :: u32) ^ k < needed")
    case True
    have "\<exists>j. Suc k \<le> j \<and> j \<le> 30 \<and> grow_cap (2 ^ Suc k) needed = Some (2 ^ j) \<and> needed \<le> 2 ^ j"
      using Suc.hyps(2) Suc.prems(2) k by (intro Suc.hyps(1)) simp_all
    then show ?thesis using True by (subst grow_cap.simps) (auto simp: mult.commute intro: Suc_leD)
  next
    case False
    then show ?thesis using k by (subst grow_cap.simps) (auto simp: not_less)
  qed
qed

lemma valloc_large:
  assumes "heap_ok U (vf_heap s) H" "128 < sz" "unat sz + 12 \<le> 2 ^ 31"
  shows "\<exists>p h. valloc sz s = Some (p, s\<lparr>vf_heap := h\<rparr>) \<and> (if p = 0 then h = vf_heap s else heap_ok U h (insert (p, sz) H))"
proof -
  obtain p h where r: "kmalloc_raw sz (vf_heap s) = Some (p, h)" using kmalloc_total [OF assms] by blast
  then show ?thesis using kmalloc_ok [OF assms(1) _ r] assms(3) by (intro exI [of _ p] exI [of _ h]) (simp add: valloc_def)
qed

lemma file_bytes_parts: "file_parts U H dentry s d ino ram buf \<Longrightarrow> file_bytes dentry s = Some (take (unat (in_size ino)) buf)"
  by (simp add: file_parts_def file_bytes_def)

text \<open>Live allocations of different sizes have different addresses.\<close>

lemma live_distinct: "heap_ok U h H \<Longrightarrow> (p, m) \<in> H \<Longrightarrow> (q, n) \<in> H \<Longrightarrow> m \<noteq> n \<Longrightarrow> p \<noteq> q"
  using held_unique by blast

lemma cap_large:
  assumes "12 \<le> k" "k \<le> 30"
  shows "unat (2 ^ k :: u32) = 2 ^ k" "128 < (2 ^ k :: u32)" "unat (2 ^ k :: u32) + 12 \<le> 2 ^ 31"
    "SIZEOF_dentry \<noteq> 2 ^ k" "SIZEOF_inode \<noteq> 2 ^ k" "SIZEOF_ramfs_inode \<noteq> 2 ^ k"
    "SIZEOF_file \<noteq> 2 ^ k" "SIZEOF_task \<noteq> 2 ^ k"
proof -
  show u: "unat (2 ^ k :: u32) = 2 ^ k" using assms by (simp add: pow2_unat)
  have "(2 :: nat) ^ 12 \<le> 2 ^ k" "(2 :: nat) ^ k \<le> 2 ^ 30"
    using assms power_increasing [of 12 k "2 :: nat"] power_increasing [of k 30 "2 :: nat"] by simp_all
  then show "128 < (2 ^ k :: u32)" "unat (2 ^ k :: u32) + 12 \<le> 2 ^ 31" using u by (simp_all add: word_less_nat_alt)
  have "x \<noteq> 2 ^ k" if "unat x < 2 ^ 12" for x :: u32 using that u \<open>2 ^ 12 \<le> 2 ^ k\<close> by auto
  then show "SIZEOF_dentry \<noteq> 2 ^ k" "SIZEOF_inode \<noteq> 2 ^ k" "SIZEOF_ramfs_inode \<noteq> 2 ^ k" "SIZEOF_file \<noteq> 2 ^ k" "SIZEOF_task \<noteq> 2 ^ k"
    by (simp_all add: SIZEOF_dentry_def SIZEOF_inode_def SIZEOF_ramfs_inode_def SIZEOF_file_def SIZEOF_task_def)
qed

lemma expand_parts:
  assumes f: "file_parts U H dentry s d ino ram buf" and n: "unat needed \<le> 2 ^ 30"
  shows "\<exists>ok s' H' ram' buf'. ramfs_expand (in_fs_private ino) needed s = Some (ok, s') \<and>
    file_parts U H' dentry s' d ino ram' buf' \<and> take (unat (rm_capacity ram)) buf' = buf \<and> (ok \<longrightarrow> needed \<le> rm_capacity ram') \<and>
    frame_ok (rm_data ram) H H' s s'"
proof (cases "needed \<le> rm_capacity ram")
  case True
  then have "ramfs_expand (in_fs_private ino) needed s = Some (True, s)" using f by (simp add: ramfs_expand_def file_parts_def)
  then show ?thesis using f True by (intro exI [of _ True] exI [of _ s] exI [of _ H] exI [of _ ram] exI [of _ buf]) (simp add: file_parts_def frame_okI)
next
  case False
  note F = f [unfolded file_parts_def]
  obtain k where k: "12 \<le> k" "k \<le> 30" "rm_capacity ram = 2 ^ k" using F by blast
  obtain j where j: "k \<le> j" "j \<le> 30" "grow_cap (2 ^ k) needed = Some (2 ^ j)" "needed \<le> 2 ^ j" using grow_cap_ends [OF k(2) n] by blast
  have j12: "12 \<le> j" using k j by simp
  note cj = cap_large [OF j12 j(2)] and ck = cap_large [OF k(1,2)]
  have ne: "(2 :: u32) ^ j \<noteq> 2 ^ k" using False j(4) k(3) by auto
  obtain p h where al: "valloc (2 ^ j) s = Some (p, s\<lparr>vf_heap := h\<rparr>)" and h: "if p = 0 then h = vf_heap s else heap_ok U h (insert (p, 2 ^ j) H)"
    using valloc_large [OF _ cj(2,3)] F by blast
  show ?thesis
  proof (cases "p = 0")
    case True
    then have "ramfs_expand (in_fs_private ino) needed s = Some (False, s)" using F False k(3) j(3) al h by (simp add: ramfs_expand_def)
    then show ?thesis using f by (intro exI [of _ False] exI [of _ s] exI [of _ H] exI [of _ ram] exI [of _ buf]) (simp add: file_parts_def frame_okI)
  next
    case p: False
    let ?H = "insert (p, 2 ^ j) H" and ?q = "rm_data ram"
    have ok: "heap_ok U h ?H" using h p by simp
    have q: "(?q, 2 ^ k) \<in> ?H" using F k(3) by simp
    obtain h' where fr: "kfree_raw ?q h = Some h'" "heap_ok U h' (?H - {(?q, 2 ^ k)})" using kfree_ok [OF ok q] by blast
    have pq: "p \<noteq> ?q" by (rule live_distinct [OF ok insertI1 q ne])
    have mem: "(dentry, SIZEOF_dentry) \<in> ?H" "(dn_inode d, SIZEOF_inode) \<in> ?H" "(in_fs_private ino, SIZEOF_ramfs_inode) \<in> ?H"
      using F by (simp_all only: insert_iff simp_thms)
    have dq: "dentry \<noteq> ?q" "dn_inode d \<noteq> ?q" "in_fs_private ino \<noteq> ?q"
      by (rule live_distinct [OF ok mem(1) q ck(4)], rule live_distinct [OF ok mem(2) q ck(5)], rule live_distinct [OF ok mem(3) q ck(6)])
    let ?buf = "take (unat (2 ^ k :: u32)) buf @ drop (unat (2 ^ k :: u32)) (vf_junk s p (unat (2 ^ j :: u32)))"
    let ?ram = "\<lparr>rm_data = p, rm_capacity = 2 ^ j\<rparr>"
    have "(2 :: nat) ^ k \<le> 2 ^ j" using j(1) by (simp add: power_increasing)
    then have len: "length ?buf = 2 ^ j" "take (unat (rm_capacity ram)) ?buf = buf" using F k(3) ck(1) cj(1) by simp_all
    have "(2 :: u32) ^ k \<le> 2 ^ j" unfolding word_le_nat_alt ck(1) cj(1) by fact
    moreover have "in_size ino \<le> 2 ^ k" using F k(3) by simp
    ultimately have sz: "in_size ino \<le> 2 ^ j" by (rule order_trans [rotated])
    obtain s' where r: "ramfs_expand (in_fs_private ino) needed s = Some (True, s')"
      and s': "vf_heap s' = h'" "vf_junk s' = vf_junk s" "vf_dentries s' = (vf_dentries s)(?q := None)" "vf_inodes s' = (vf_inodes s)(?q := None)"
        "vf_rams s' = (vf_rams s)(?q := None, in_fs_private ino \<mapsto> ?ram)" "vf_buffers s' = (vf_buffers s)(p \<mapsto> ?buf, ?q := None)"
        "vf_files s' = (vf_files s)(?q := None)" "vf_tasks s' = (vf_tasks s)(?q := None)" "current_task s' = current_task s"
      using F False k(3) j(3) al p fr(1) by (simp add: ramfs_expand_def vfree_def)
    have "file_parts U (?H - {(?q, 2 ^ k)}) dentry s' d ino ?ram ?buf"
      using F fr(2) pq dq len sz j12 j(2) cj(1) k(3) unfolding file_parts_def s' by (auto simp del: length_append)
    moreover have "frame_ok ?q H (?H - {(?q, 2 ^ k)}) s s'" by (auto simp: frame_ok_def s'(3,7-9))
    ultimately show ?thesis using r len(2) j(4)
      by (intro exI [of _ True] exI [of _ s'] exI [of _ "?H - {(?q, 2 ^ k)}"] exI [of _ ?ram] exI [of _ ?buf]) simp
  qed
qed

lemma write_parts:
  assumes f: "file_parts U H dentry s d ino ram buf" and n: "unat off + unat sz \<le> 2 ^ 30" and data: "length data = unat sz"
  shows "\<exists>r s' H' ino' ram' buf'. ramfs_write dentry off sz data s = Some (r, s') \<and> file_parts U H' dentry s' d ino' ram' buf' \<and>
    (if r = - 1 then take (unat (rm_capacity ram)) buf' = buf \<and> ino' = ino
     else r = sz \<and> unat (in_size ino') = max (unat (in_size ino)) (unat off + unat sz) \<and>
       (\<exists>pre. take (unat (rm_capacity ram)) pre = buf \<and> unat off + unat sz \<le> length pre \<and>
          buf' = take (unat off) pre @ data @ drop (unat off + unat sz) pre)) \<and>
    frame_ok (rm_data ram) H H' s s' \<and> in_ops ino' = in_ops ino \<and> in_fs_private ino' = in_fs_private ino"
proof -
  note F = f [unfolded file_parts_def]
  have u: "unat (off + sz) = unat off + unat sz" using n by (simp add: unat_add_no_wrap)
  obtain ok s1 H1 ram1 buf1 where e: "(if off + sz > rm_capacity ram then ramfs_expand (in_fs_private ino) (off + sz) s else Some (True, s)) = Some (ok, s1)"
    and p1: "file_parts U H1 dentry s1 d ino ram1 buf1" "take (unat (rm_capacity ram)) buf1 = buf" "ok \<longrightarrow> off + sz \<le> rm_capacity ram1"
      "frame_ok (rm_data ram) H H1 s s1"
  proof (cases "off + sz > rm_capacity ram")
    case True
    then show ?thesis using expand_parts [OF f, of "off + sz"] n that by (auto simp: u)
  next
    case False
    then have "off + sz \<le> rm_capacity ram" by (simp add: not_less)
    moreover have "take (unat (rm_capacity ram)) buf = buf" using F by simp
    moreover have "frame_ok (rm_data ram) H H s s" by (simp add: frame_okI)
    ultimately show ?thesis using that [of True s H ram buf, OF _ f] False by (simp only: if_False simp_thms)
  qed
  note G = p1(1) [unfolded file_parts_def]
  have w: "ramfs_write dentry off sz data s = (if \<not> ok then Some (- 1, s1) else do {
      ram \<leftarrow> vf_rams s1 (in_fs_private ino); buf \<leftarrow> vf_buffers s1 (rm_data ram);
      if unat off + unat sz > length buf \<or> unat sz > length data then None
      else do {
        let s = s1\<lparr>vf_buffers := (vf_buffers s1)(rm_data ram \<mapsto> take (unat off) buf @ take (unat sz) data @ drop (unat off + unat sz) buf)\<rparr>;
        Some (sz, if off + sz > in_size ino then s\<lparr>vf_inodes := (vf_inodes s)(dn_inode d \<mapsto> ino\<lparr>in_size := off + sz\<rparr>)\<rparr> else s) } })"
    using F e unfolding ramfs_write_def by simp
  show ?thesis
  proof (cases ok)
    case False
    then show ?thesis using w p1 by (intro exI [of _ "- 1"] exI [of _ s1] exI [of _ H1] exI [of _ ino] exI [of _ ram1] exI [of _ buf1]) simp
  next
    case True
    have fit: "unat off + unat sz \<le> length buf1" using p1(3) True G u by (simp add: word_le_nat_alt)
    define buf' where "buf' = take (unat off) buf1 @ data @ drop (unat off + unat sz) buf1"
    define ino' where "ino' = (if off + sz > in_size ino then ino\<lparr>in_size := off + sz\<rparr> else ino)"
    define s' where "s' = s1\<lparr>vf_buffers := (vf_buffers s1)(rm_data ram1 \<mapsto> buf'), vf_inodes := (vf_inodes s1)(dn_inode d \<mapsto> ino')\<rparr>"
    have same: "vf_inodes s1 (dn_inode d) = Some ino" using G by simp
    have r: "ramfs_write dentry off sz data s = Some (sz, s')"
      using w True G fit data by (auto simp: s'_def buf'_def ino'_def fun_upd_triv [of "vf_inodes s1" "dn_inode d", unfolded same])
    have len: "length buf' = length buf1" using fit data by (simp add: buf'_def)
    have i: "in_fs_private ino' = in_fs_private ino" "in_size ino' \<le> rm_capacity ram1" using G p1(3) True by (simp_all add: ino'_def)
    have q: "file_parts U H1 dentry s' d ino' ram1 buf'" using G i len unfolding file_parts_def by (simp add: s'_def)
    have m: "unat (in_size ino') = max (unat (in_size ino)) (unat off + unat sz)" by (auto simp: ino'_def u word_less_nat_alt)
    have "unat (- 1 :: u32) = 4294967295" by (simp add: unsigned_minus_1_eq_mask mask_eq_exp_minus_1)
    then have ne: "sz \<noteq> - 1" using n by auto
    have "\<exists>pre. take (unat (rm_capacity ram)) pre = buf \<and> unat off + unat sz \<le> length pre \<and>
        buf' = take (unat off) pre @ data @ drop (unat off + unat sz) pre"
      using p1(2) fit buf'_def by blast
    moreover have "frame_ok (rm_data ram) H H1 s s'" unfolding s'_def by (rule frame_ok_more [OF p1(4)])
    moreover have "in_ops ino' = in_ops ino" by (simp add: ino'_def)
    ultimately show ?thesis using r q m ne i(1)
      by (intro exI [of _ sz] exI [of _ s'] exI [of _ H1] exI [of _ ino'] exI [of _ ram1] exI [of _ buf']) simp
  qed
qed

lemma splice_take:
  assumes "n \<le> length pre" "off + length d \<le> length pre"
  shows "take (max n (off + length d)) (take off pre @ d @ drop (off + length d) pre) =
    splice off d (take n pre @ take (off - n) (drop n pre))"
proof -
  let ?l = "off + length d"
  have pre: "take n pre @ take (off - n) (drop n pre) = take (max n off) pre"
    by (simp only: flip: take_add) (simp add: max_def)
  have "length (take off pre @ d) = ?l" using assms(2) by simp
  then have "take (max n ?l) ((take off pre @ d) @ drop ?l pre) = (take off pre @ d) @ take (max n ?l - ?l) (drop ?l pre)"
    by (simp only: take_append) simp
  moreover have "max n ?l - ?l = max n off - ?l" by auto
  moreover have "take off (take (max n off) pre) = take off pre" by (simp add: min_def)
  ultimately show ?thesis by (simp only: splice_def pre drop_take append_assoc)
qed

text \<open>A write on the bytes of the file; the bytes between the old end and the start of the write are what memory held.\<close>

lemma write_bytes:
  assumes f: "file_parts U H dentry s d ino ram buf" and n: "unat off + unat sz \<le> 2 ^ 30" and data: "length data = unat sz"
  shows "\<exists>r s' H' ino' ram' buf' gap. ramfs_write dentry off sz data s = Some (r, s') \<and> file_parts U H' dentry s' d ino' ram' buf' \<and>
    (r = - 1 \<or> r = sz \<and> sz \<noteq> - 1) \<and> length gap = unat off - length (take (unat (in_size ino)) buf) \<and>
    take (unat (in_size ino')) buf' = (if r = - 1 then take (unat (in_size ino)) buf
      else splice (unat off) data (take (unat (in_size ino)) buf @ gap)) \<and>
    frame_ok (rm_data ram) H H' s s' \<and> in_ops ino' = in_ops ino"
proof -
  obtain r s' H' ino' ram' buf' where w: "ramfs_write dentry off sz data s = Some (r, s')" "file_parts U H' dentry s' d ino' ram' buf'"
    and c: "if r = - 1 then take (unat (rm_capacity ram)) buf' = buf \<and> ino' = ino
      else r = sz \<and> unat (in_size ino') = max (unat (in_size ino)) (unat off + unat sz) \<and>
       (\<exists>pre. take (unat (rm_capacity ram)) pre = buf \<and> unat off + unat sz \<le> length pre \<and>
          buf' = take (unat off) pre @ data @ drop (unat off + unat sz) pre)"
    and fr: "frame_ok (rm_data ram) H H' s s'" "in_ops ino' = in_ops ino"
    using write_parts [OF assms] by blast
  have sz: "unat (in_size ino) \<le> unat (rm_capacity ram)" "length buf = unat (rm_capacity ram)"
    using f by (simp_all add: file_parts_def word_le_nat_alt)
  have "(r = - 1 \<or> r = sz \<and> sz \<noteq> - 1) \<and> (\<exists>gap. length gap = unat off - length (take (unat (in_size ino)) buf) \<and>
    take (unat (in_size ino')) buf' = (if r = - 1 then take (unat (in_size ino)) buf
      else splice (unat off) data (take (unat (in_size ino)) buf @ gap)))"
  proof (cases "r = - 1")
    case True
    have c1: "take (unat (rm_capacity ram)) buf' = buf" "ino' = ino" using c [unfolded if_P [OF True]] by blast+
    have "take (unat (in_size ino)) (take (unat (rm_capacity ram)) buf') = take (unat (in_size ino)) buf'"
      using sz(1) by (simp only: take_take min.absorb1)
    then have "take (unat (in_size ino')) buf' = take (unat (in_size ino)) buf" unfolding c1 by (rule sym)
    then show ?thesis using True by (metis Ex_list_of_length)
  next
    case False
    then obtain pre where pre: "take (unat (rm_capacity ram)) pre = buf" "unat off + unat sz \<le> length pre"
      "buf' = take (unat off) pre @ data @ drop (unat off + unat sz) pre" and c': "r = sz" "unat (in_size ino') = max (unat (in_size ino)) (unat off + unat sz)"
      using c [unfolded if_not_P [OF False]] by blast
    have len: "unat (in_size ino) \<le> length pre" using pre(1) sz by (metis le_trans length_take min.cobounded1)
    have old: "take (unat (in_size ino)) buf = take (unat (in_size ino)) pre" using pre(1) sz(1) by (metis min.absorb1 take_take)
    define gap where "gap = take (unat off - unat (in_size ino)) (drop (unat (in_size ino)) pre)"
    have "length gap = unat off - length (take (unat (in_size ino)) buf)" using pre(2) len sz by (simp add: gap_def)
    moreover have "take (unat (in_size ino')) buf' = splice (unat off) data (take (unat (in_size ino)) buf @ gap)"
      using splice_take [OF len, of "unat off" data] pre(2,3) data by (simp add: c'(2) old gap_def)
    ultimately show ?thesis using False c'(1) by auto
  qed
  then show ?thesis using w fr by blast
qed

lemma read_bytes:
  assumes f: "file_parts U H dentry s d ino ram buf" and n: "unat off + unat sz < 2 ^ 32"
  shows "ramfs_read dentry off sz s = Some (of_nat (length (take (unat sz) (drop (unat off) (take (unat (in_size ino)) buf)))),
    take (unat sz) (drop (unat off) (take (unat (in_size ino)) buf)))"
proof -
  have u: "unat (off + sz) = unat off + unat sz" using n by (simp add: unat_add_no_wrap)
  have sz: "unat (in_size ino) \<le> length buf" using f by (simp add: file_parts_def word_le_nat_alt)
  show ?thesis
  proof (cases "off > in_size ino")
    case True
    then show ?thesis using f by (simp add: file_parts_def ramfs_read_def word_less_nat_alt)
  next
    case False
    then have off: "unat off \<le> unat (in_size ino)" by (simp add: word_less_nat_alt)
    then have sub: "unat (in_size ino - off) = unat (in_size ino) - unat off" by (simp add: unat_sub word_le_nat_alt)
    define m where "m = (if off + sz > in_size ino then in_size ino - off else sz)"
    have m: "unat m = min (unat sz) (unat (in_size ino) - unat off)" using off by (auto simp: m_def sub word_less_nat_alt u)
    have "ramfs_read dentry off sz s = Some (m, take (unat m) (drop (unat off) buf))"
      using f False off sz m unfolding m_def [symmetric] by (simp add: file_parts_def ramfs_read_def m_def [symmetric] Let_def)
    moreover have "take (unat m) (drop (unat off) buf) = take (unat sz) (drop (unat off) (take (unat (in_size ino)) buf))"
      by (simp add: m drop_take min.commute)
    moreover have "m = of_nat (min (unat sz) (unat (in_size ino) - unat off))" by (simp flip: m)
    ultimately show ?thesis using sz off by (simp add: min.absorb1 min.commute)
  qed
qed

section \<open>The contract\<close>

definition fs_wr :: "u32 \<Rightarrow> nat \<Rightarrow> bytes \<Rightarrow> vfs \<Rightarrow> (bool \<times> vfs) option" where
  "fs_wr dentry off p s = map_option (\<lambda>(r, s'). (r \<noteq> - 1, s')) (ramfs_write dentry (of_nat off) (of_nat (length p)) p s)"

definition fs_rd :: "u32 \<Rightarrow> nat \<Rightarrow> nat \<Rightarrow> vfs \<Rightarrow> bytes option" where
  "fs_rd dentry off n s = map_option snd (ramfs_read dentry (of_nat off) (of_nat n) s)"

definition fs_contents :: "u32 \<Rightarrow> vfs \<Rightarrow> bytes" where
  "fs_contents dentry s = the (file_bytes dentry s)"

definition fs_inv :: "u32 \<Rightarrow> vfs \<Rightarrow> bool" where
  "fs_inv dentry s \<longleftrightarrow> (\<exists>U H. file_ok U H dentry s)"

lemma fs_invE:
  assumes "fs_inv dentry s"
  obtains U H d ino ram buf where "file_parts U H dentry s d ino ram buf" "fs_contents dentry s = take (unat (in_size ino)) buf"
  using assms file_bytes_parts unfolding fs_inv_def file_ok_def fs_contents_def by (metis option.sel)

lemma fs_invI: "file_parts U H dentry s d ino ram buf \<Longrightarrow> fs_inv dentry s \<and> fs_contents dentry s = take (unat (in_size ino)) buf"
  using file_bytes_parts unfolding fs_inv_def file_ok_def fs_contents_def by (metis option.sel)

interpretation ram_file: byte_file "fs_wr dentry" "fs_rd dentry" "fs_contents dentry" "2 ^ 30" "fs_inv dentry" for dentry
proof unfold_locales
  fix s off and p :: bytes and n
  assume inv: "fs_inv dentry s"
  then obtain U H d ino ram buf where f: "file_parts U H dentry s d ino ram buf" "fs_contents dentry s = take (unat (in_size ino)) buf"
    by (rule fs_invE)
  have small: "unat (of_nat k :: u32) = k" if "k \<le> 2 ^ 30" for k using that by (simp add: unat_of_nat)
  show "fs_rd dentry off n s = Some (take n (drop off (fs_contents dentry s)))" if "off + n \<le> 2 ^ 30"
    using that read_bytes [OF f(1), of "of_nat off" "of_nat n"] by (simp add: fs_rd_def f(2) small)
  assume len: "off + length p \<le> 2 ^ 30"
  have u: "unat (of_nat off :: u32) = off" "unat (of_nat (length p) :: u32) = length p" using len by (simp_all add: small)
  obtain r s' H' ino' ram' buf' gap where w: "ramfs_write dentry (of_nat off) (of_nat (length p)) p s = Some (r, s')"
      "file_parts U H' dentry s' d ino' ram' buf'" "length gap = off - length (fs_contents dentry s)"
      "take (unat (in_size ino')) buf' = (if r = - 1 then fs_contents dentry s else splice off p (fs_contents dentry s @ gap))"
    using write_bytes [OF f(1), of "of_nat off" "of_nat (length p)" p, unfolded u, folded f(2), OF len refl] by blast
  then show "\<exists>ok s' gap. fs_wr dentry off p s = Some (ok, s') \<and> fs_inv dentry s' \<and> length gap = off - length (fs_contents dentry s) \<and>
      fs_contents dentry s' = (if ok then splice off p (fs_contents dentry s @ gap) else fs_contents dentry s)"
    using fs_invI [OF w(2)] by (intro exI [of _ "r \<noteq> - 1"] exI [of _ s'] exI [of _ gap]) (simp add: fs_wr_def)
qed

lemma demo_file_parts:
  "file_parts (block_pages 4 0x10000) demo_live 0x1400C demo_state
     (zero_dentry\<lparr>dn_name := 0x120A0, dn_inode := 0x12020, dn_parent := 0x1300C\<rparr>)
     ((demo_inode VFS_FILE 2)\<lparr>in_size := 3, in_ops := RAMFS_OPS, in_fs_private := 0x12040\<rparr>) \<lparr>rm_data = 0x1600C, rm_capacity = 4096\<rparr>
     ([1, 2, 3] @ replicate 4093 0)"
proof -
  have "\<exists>k. 12 \<le> k \<and> k \<le> 30 \<and> (4096 :: u32) = 2 ^ k" by (intro exI [of _ 12]) simp
  then show ?thesis
    using demo_heap_ok by (simp add: file_parts_def demo_state_def demo_live_def SIZEOF_dentry_def SIZEOF_inode_def SIZEOF_ramfs_inode_def)
qed

lemma demo_file_contents: "fs_inv 0x1400C demo_state" "fs_contents 0x1400C demo_state = [1, 2, 3]"
  using fs_invI [OF demo_file_parts] by simp_all

section \<open>Properties\<close>

text \<open>C7. Whatever reads and writes below \<open>2 ^ 30\<close> a regular file sees, all of them return, and their results are those
  of an array of bytes: a write is done whole or refused whole, a read returns the bytes in its range that
  the file has. Bytes between the old end and a later write are not cleared.\<close>

theorem ramfs_is_byte_array:
  assumes "fs_inv dentry s" "list_all (file_op_ok (2 ^ 30)) ops"
  shows "\<exists>rs s'. file_run (fs_wr dentry) (fs_rd dentry) ops s = Some (rs, s') \<and> fs_inv dentry s' \<and>
    array_runs ops rs (fs_contents dentry s) (fs_contents dentry s')"
  by (rule ram_file.run_array [OF assms])

theorem ramfs_is_byte_array_witness:
  "\<exists>rs s'. file_run (fs_wr 0x1400C) (fs_rd 0x1400C) [FWrite 2 [7, 8], FRead 1 100] demo_state = Some (rs, s') \<and>
     array_runs [FWrite 2 [7, 8], FRead 1 100] rs [1, 2, 3] (fs_contents 0x1400C s')"
  using ramfs_is_byte_array [of "0x1400C" demo_state "[FWrite 2 [7, 8], FRead 1 100]"] demo_file_contents by auto

end
