(* ===== verification/Vfs.thy ===== *)
theory Vfs
  imports Ramfs
begin

text \<open>
  Paths, file descriptors and the file system calls, \<^verbatim>\<open>kernel/VFS/vfs.c\<close>, for the current task. As in theory
  Kstate, \<open>None\<close> is undefined behaviour or a loop that does not end, and 0 is NULL; a path or name that may
  be NULL is an optional string.
\<close>

section \<open>Model\<close>

definition READ_ONLY :: u32 where "READ_ONLY = 0x01"
definition WRITE_ONLY :: u32 where "WRITE_ONLY = 0x02"
definition READ_WRITE :: u32 where "READ_WRITE = 0x03"
definition CREAT :: u32 where "CREAT = 0x04"

abbreviation SLASH :: u8 where "SLASH \<equiv> 47"
abbreviation DOT :: u8 where "DOT \<equiv> 46"

definition cur_task :: "vfs \<Rightarrow> task_t option" where
  "cur_task s = vf_tasks s (current_task s)"

definition vfs_init :: "u32 \<Rightarrow> vfs \<Rightarrow> vfs option" where
  "vfs_init root_name s = do {
     (root, s) \<leftarrow> valloc SIZEOF_dentry s;
     if root = 0 then None
     else do {
       (ino, s) \<leftarrow> valloc SIZEOF_inode s;
       if ino = 0 then None
       else Some (s\<lparr>vf_root := root, vf_strings := (vf_strings s)(root_name \<mapsto> [SLASH]),
              vf_dentries := (vf_dentries s)(root \<mapsto> zero_dentry\<lparr>dn_name := root_name, dn_parent := root, dn_inode := ino\<rparr>),
              vf_inodes := (vf_inodes s)(ino \<mapsto> \<lparr>in_size = 0, in_flags = VFS_DIR, in_ref_count = 0, in_ops = NO_OPS,
                 in_fs_private = 0, in_created_tick = 0, in_created_pid = 0\<rparr>)\<rparr>) } }"

definition ops_read :: "vfs_ops_t \<Rightarrow> u32 \<Rightarrow> u32 \<Rightarrow> u32 \<Rightarrow> vfs \<Rightarrow> (u32 \<times> bytes \<times> vfs) option" where
  "ops_read ops node offset sz s =
     (case ops of NO_OPS \<Rightarrow> None
      | RAMFS_OPS \<Rightarrow> map_option (\<lambda>(n, bs). (n, bs, s)) (ramfs_read node offset sz s)
      | TTY_OPS \<Rightarrow> tty_read sz s)"

definition ops_write :: "vfs_ops_t \<Rightarrow> u32 \<Rightarrow> u32 \<Rightarrow> u32 \<Rightarrow> bytes \<Rightarrow> vfs \<Rightarrow> (u32 \<times> vfs) option" where
  "ops_write ops node offset sz buffer s =
     (case ops of NO_OPS \<Rightarrow> None
      | RAMFS_OPS \<Rightarrow> ramfs_write node offset sz buffer s
      | TTY_OPS \<Rightarrow> tty_write sz buffer s)"

definition vfs_read :: "u32 \<Rightarrow> u32 \<Rightarrow> u32 \<Rightarrow> vfs \<Rightarrow> (u32 \<times> bytes \<times> vfs) option" where
  "vfs_read node offset sz s =
     (if node = 0 then Some (- 1, [], s)
      else do {
        d \<leftarrow> vf_dentries s node;
        if dn_inode d = 0 then Some (- 1, [], s)
        else do {
          ino \<leftarrow> vf_inodes s (dn_inode d);
          if in_ops ino = NO_OPS then Some (- 1, [], s) else ops_read (in_ops ino) node offset sz s } })"

definition vfs_write :: "u32 \<Rightarrow> u32 \<Rightarrow> u32 \<Rightarrow> bytes \<Rightarrow> vfs \<Rightarrow> (u32 \<times> vfs) option" where
  "vfs_write node offset sz buffer s =
     (if node = 0 then Some (- 1, s)
      else do {
        d \<leftarrow> vf_dentries s node;
        if dn_inode d = 0 then Some (- 1, s)
        else do {
          ino \<leftarrow> vf_inodes s (dn_inode d);
          if in_ops ino = NO_OPS then Some (- 1, s) else ops_write (in_ops ino) node offset sz buffer s } })"

subsection \<open>Paths\<close>

definition skip_slash :: "bytes \<Rightarrow> bytes" where
  "skip_slash p = dropWhile (\<lambda>c. c = SLASH) p"

fun match_seg :: "bytes \<Rightarrow> bytes \<Rightarrow> nat \<Rightarrow> bool" where
  "match_seg [] start len \<longleftrightarrow> len = 0"
| "match_seg (c # cs) start 0 \<longleftrightarrow> False"
| "match_seg (c # cs) [] (Suc len) \<longleftrightarrow> False"
| "match_seg (c # cs) (d # ds) (Suc len) \<longleftrightarrow> c = d \<and> match_seg cs ds len"

fun basename_loop :: "bytes \<Rightarrow> bytes \<Rightarrow> bytes" where
  "basename_loop lst [] = lst"
| "basename_loop lst (c # cs) = basename_loop (if c = SLASH then cs else lst) cs"

definition basename :: "bytes \<Rightarrow> bytes" where
  "basename path = basename_loop path path"

fun last_slash :: "int \<Rightarrow> int \<Rightarrow> bytes \<Rightarrow> int" where
  "last_slash lst i [] = lst"
| "last_slash lst i (c # cs) = last_slash (if c = SLASH then i else lst) (i + 1) cs"

definition parent_dirname :: "bytes \<Rightarrow> bytes" where
  "parent_dirname path =
     (let lst = last_slash VFS_ERR 0 path in if lst \<le> 0 then [SLASH] else take (nat lst) path)"

text \<open>The walk along a bucket; the entry found, or 0.\<close>

partial_function (option) chain_find :: "vfs \<Rightarrow> bytes \<Rightarrow> nat \<Rightarrow> u32 \<Rightarrow> u32 option" where
  "chain_find s start len child =
     (if child = 0 then Some 0
      else case vf_dentries s child of
        None \<Rightarrow> None
      | Some c \<Rightarrow>
          (case vf_strings s (dn_name c) of
             None \<Rightarrow> None
           | Some name \<Rightarrow> if match_seg name start len then Some child else chain_find s start len (dn_hash_next c)))"

text \<open>One component of a path; the copy of it has room for 255 characters. The result 0 ends the walk.\<close>

definition resolve_segment :: "u32 \<Rightarrow> bytes \<Rightarrow> vfs \<Rightarrow> u32 option" where
  "resolve_segment dir seg s =
     (if length seg \<ge> 256 then None
      else do {
        d \<leftarrow> vf_dentries s dir;
        if match_seg [DOT] seg (length seg) then Some dir
        else if match_seg [DOT, DOT] seg (length seg) then Some (if dn_parent d \<noteq> 0 then dn_parent d else dir)
        else do {
          ino \<leftarrow> vf_inodes s (dn_inode d);
          if in_flags ino AND VFS_DIR = 0 then Some 0
          else chain_find s seg (length seg) (dn_hash_bucket d ! dentry_hash seg) } })"

function resolve_loop :: "u32 \<Rightarrow> bytes \<Rightarrow> vfs \<Rightarrow> u32 option" where
  "resolve_loop dir p s =
     (let p = skip_slash p
      in if p = [] then Some dir
         else case resolve_segment dir (takeWhile (\<lambda>c. c \<noteq> SLASH) p) s of
           None \<Rightarrow> None
         | Some dir' \<Rightarrow> if dir' = 0 then Some 0 else resolve_loop dir' (dropWhile (\<lambda>c. c \<noteq> SLASH) p) s)"
  by pat_completeness auto
termination
proof (relation "measure (\<lambda>(dir, p, s). length p)", goal_cases)
  case (2 dir p s q dir')
  obtain c cs where q: "skip_slash p = c # cs" using 2(1,2) by (metis neq_Nil_conv)
  then have "c \<noteq> SLASH" using hd_dropWhile [of "\<lambda>c. c = SLASH" p] by (auto simp: skip_slash_def)
  then have "length (dropWhile (\<lambda>c. c \<noteq> SLASH) (c # cs)) < length (c # cs)" using length_dropWhile_le [of "\<lambda>c. c \<noteq> SLASH" cs] by simp
  also have "length (c # cs) \<le> length p" by (simp only: q [symmetric] skip_slash_def length_dropWhile_le)
  finally show ?case using 2(1) q by simp
qed simp

declare resolve_loop.simps [simp del]

definition vfs_resolve_path :: "u32 \<Rightarrow> bytes option \<Rightarrow> vfs \<Rightarrow> u32 option" where
  "vfs_resolve_path root path_ptr s =
     (if root = 0 then Some 0
      else case path_ptr of
        None \<Rightarrow> Some 0
      | Some path \<Rightarrow> do {
          dir \<leftarrow> (if path \<noteq> [] \<and> hd path = SLASH then Some root else map_option tk_cwd (cur_task s));
          resolve_loop dir path s })"

definition vfs_follow_mount :: "u32 \<Rightarrow> vfs \<Rightarrow> u32 option" where
  "vfs_follow_mount dentry s =
     (if dentry = 0 then Some 0
      else do {
        d \<leftarrow> vf_dentries s dentry;
        if dn_mount d \<noteq> 0 then vf_mounts s (dn_mount d) else Some dentry })"

definition vfs_lookup :: "u32 \<Rightarrow> bytes option \<Rightarrow> vfs \<Rightarrow> u32 option" where
  "vfs_lookup root path s = do { node \<leftarrow> vfs_resolve_path root path s; vfs_follow_mount node s }"

definition has_slash :: "bytes \<Rightarrow> bool" where
  "has_slash path \<longleftrightarrow> list_ex (\<lambda>c. c = SLASH) path"

text \<open>The directory and the name; the static copy of the directory part has room for 255 characters.\<close>

definition resolve_parent_dir :: "bytes \<Rightarrow> vfs \<Rightarrow> (u32 \<times> bytes) option" where
  "resolve_parent_dir path s =
     (if \<not> has_slash path then map_option (\<lambda>t. (tk_cwd t, path)) (cur_task s)
      else if length (parent_dirname path) \<ge> 256 then None
      else do { p \<leftarrow> vfs_lookup (vf_root s) (Some (parent_dirname path)) s; Some (p, basename path) })"

subsection \<open>Calls\<close>

definition is_dir :: "u32 \<Rightarrow> vfs \<Rightarrow> bool option" where
  "is_dir dentry s = do { d \<leftarrow> vf_dentries s dentry; ino \<leftarrow> vf_inodes s (dn_inode d); Some (in_flags ino AND VFS_DIR \<noteq> 0) }"

definition set_fd :: "nat \<Rightarrow> u32 \<Rightarrow> vfs \<Rightarrow> vfs option" where
  "set_fd i file s = do {
     t \<leftarrow> cur_task s;
     Some (s\<lparr>vf_tasks := (vf_tasks s)(current_task s \<mapsto> t\<lparr>tk_fd_table := (tk_fd_table t)[i := file]\<rparr>)\<rparr>) }"

definition open_entry :: "u32 \<Rightarrow> u32 \<Rightarrow> u32 \<Rightarrow> vfs \<Rightarrow> (int \<times> vfs) option" where
  "open_entry now dentry flags s = do {
     d \<leftarrow> vf_dentries s dentry;
     (file, s) \<leftarrow> valloc SIZEOF_file s;
     if file = 0 then Some (VFS_ERR, s)
     else do {
       target \<leftarrow> vfs_follow_mount dentry s;
       let s = s\<lparr>vf_files := (vf_files s)(file \<mapsto> \<lparr>fl_inode = dn_inode d, fl_dentry = target, fl_ref_count = 1, fl_flags = flags, fl_offset = 0\<rparr>)\<rparr>;
       t \<leftarrow> cur_task s;
       case first_idx (\<lambda>f. f = 0) (tk_fd_table t) of
         Some i \<Rightarrow> do {
           s \<leftarrow> set_fd i file s;
           ino \<leftarrow> vf_inodes s (dn_inode d);
           let s = s\<lparr>vf_inodes := (vf_inodes s)(dn_inode d \<mapsto> ino\<lparr>in_ref_count := in_ref_count ino + 1\<rparr>)\<rparr>;
           s \<leftarrow> task_log_event now (current_task s) EVT_FD_OPEN (of_nat i) s;
           Some (int i, s) }
       | None \<Rightarrow> do { s \<leftarrow> vfree file s; Some (VFS_ERR, s) } } }"

definition sys_open :: "u32 \<Rightarrow> bytes option \<Rightarrow> u32 \<Rightarrow> vfs \<Rightarrow> (int \<times> vfs) option" where
  "sys_open now path_ptr flags s = (case path_ptr of None \<Rightarrow> Some (VFS_ERR, s) | Some path \<Rightarrow> do {
     dentry \<leftarrow> vfs_lookup (vf_root s) (Some path) s;
     if dentry \<noteq> 0 then open_entry now dentry flags s
     else if flags AND CREAT = 0 then Some (VFS_ERR, s)
     else do {
       (parent, name) \<leftarrow> resolve_parent_dir path s;
       dir \<leftarrow> (if parent = 0 then Some False else is_dir parent s);
       if \<not> dir then Some (VFS_ERR, s)
       else do {
         (dentry, s) \<leftarrow> ramfs_create_files now parent name s;
         if dentry = 0 then Some (VFS_ERR, s) else open_entry now dentry flags s } } })"

text \<open>The open file behind a descriptor; 0 for a number out of range and for a free descriptor.\<close>

definition fd_file :: "int \<Rightarrow> vfs \<Rightarrow> u32 option" where
  "fd_file fd s =
     (if fd < 0 \<or> fd \<ge> int TASK_MAX_FDS then Some 0 else map_option (\<lambda>t. tk_fd_table t ! nat fd) (cur_task s))"

definition advance_file :: "u32 \<Rightarrow> u32 \<Rightarrow> vfs \<Rightarrow> vfs option" where
  "advance_file file n s = do {
     f \<leftarrow> vf_files s file;
     Some (if sint n > 0 then s\<lparr>vf_files := (vf_files s)(file \<mapsto> f\<lparr>fl_offset := fl_offset f + n\<rparr>)\<rparr> else s) }"

definition sys_read :: "int \<Rightarrow> u32 \<Rightarrow> vfs \<Rightarrow> (int \<times> bytes \<times> vfs) option" where
  "sys_read fd sz s =
     do {
       file \<leftarrow> fd_file fd s;
       if file = 0 then Some (VFS_ERR, [], s)
         else do {
           f \<leftarrow> vf_files s file;
           if fl_inode f = 0 then Some (VFS_ERR, [], s)
           else do {
             ino \<leftarrow> vf_inodes s (fl_inode f);
             if in_ops ino = NO_OPS then Some (VFS_ERR, [], s)
             else if fl_flags f AND READ_ONLY = 0 \<and> fl_flags f AND READ_WRITE = 0 then Some (VFS_ERR, [], s)
             else do {
               (n, bs, s) \<leftarrow> ops_read (in_ops ino) (fl_dentry f) (fl_offset f) sz s;
               s \<leftarrow> advance_file file n s;
               Some (sint n, bs, s) } } } }"

definition sys_write :: "int \<Rightarrow> bytes \<Rightarrow> u32 \<Rightarrow> vfs \<Rightarrow> (int \<times> vfs) option" where
  "sys_write fd buf sz s =
     do {
       file \<leftarrow> fd_file fd s;
       if file = 0 then Some (VFS_ERR, s)
         else do {
           f \<leftarrow> vf_files s file;
           if fl_inode f = 0 then Some (VFS_ERR, s)
           else do {
             ino \<leftarrow> vf_inodes s (fl_inode f);
             if in_ops ino = NO_OPS then Some (VFS_ERR, s)
             else if fl_flags f AND WRITE_ONLY = 0 \<and> fl_flags f AND READ_WRITE = 0 then Some (VFS_ERR, s)
             else do {
               (n, s) \<leftarrow> ops_write (in_ops ino) (fl_dentry f) (fl_offset f) sz buf s;
               s \<leftarrow> advance_file file n s;
               Some (sint n, s) } } } }"

definition drop_inode_ref :: "u32 \<Rightarrow> vfs \<Rightarrow> vfs option" where
  "drop_inode_ref i s = do {
     ino \<leftarrow> vf_inodes s i;
     Some (if in_ref_count ino > 0 then s\<lparr>vf_inodes := (vf_inodes s)(i \<mapsto> ino\<lparr>in_ref_count := in_ref_count ino - 1\<rparr>)\<rparr> else s) }"

definition sys_close :: "int \<Rightarrow> vfs \<Rightarrow> (int \<times> vfs) option" where
  "sys_close fd s =
     do {
       file \<leftarrow> fd_file fd s;
       if file = 0 then Some (VFS_ERR, s)
         else do {
           f \<leftarrow> vf_files s file;
           s \<leftarrow> (if fl_inode f \<noteq> 0 then drop_inode_ref (fl_inode f) s else Some s);
           s \<leftarrow> (if fl_ref_count f > 1 then Some (s\<lparr>vf_files := (vf_files s)(file \<mapsto> f\<lparr>fl_ref_count := fl_ref_count f - 1\<rparr>)\<rparr>)
                else vfree file s);
           s \<leftarrow> set_fd (nat fd) 0 s;
           Some (VFS_OK, s) } }"

definition sys_mkdir :: "bytes option \<Rightarrow> vfs \<Rightarrow> (int \<times> vfs) option" where
  "sys_mkdir path_ptr s = (case path_ptr of None \<Rightarrow> Some (VFS_ERR, s) | Some path \<Rightarrow> do {
     (parent, name) \<leftarrow> resolve_parent_dir path s;
     dir \<leftarrow> (if parent = 0 then Some False else is_dir parent s);
     if \<not> dir then Some (VFS_ERR, s)
     else do {
       exist \<leftarrow> vfs_lookup (vf_root s) (Some path) s;
       if exist \<noteq> 0 then Some (VFS_ERR, s)
       else do { (d, s) \<leftarrow> ramfs_mkdir parent (Some name) s; Some (if d = 0 then VFS_ERR else VFS_OK, s) } } })"

text \<open>Unlinking \<open>target\<close> from the bucket: the loop over \<^verbatim>\<open>current\<close> and \<^verbatim>\<open>prev\<close>.\<close>

partial_function (option) unchain :: "u32 \<Rightarrow> nat \<Rightarrow> u32 \<Rightarrow> u32 \<Rightarrow> u32 \<Rightarrow> vfs \<Rightarrow> vfs option" where
  "unchain parent bucket target prev current s =
     (if current = 0 then Some s
      else case vf_dentries s current of
        None \<Rightarrow> None
      | Some c \<Rightarrow>
          if current = target
          then (let at = (if prev = 0 then parent else prev)
                in case vf_dentries s at of
                     None \<Rightarrow> None
                   | Some d \<Rightarrow> Some (s\<lparr>vf_dentries := (vf_dentries s)(at \<mapsto>
                       if prev = 0 then d\<lparr>dn_hash_bucket := (dn_hash_bucket d)[bucket := dn_hash_next c]\<rparr>
                       else d\<lparr>dn_hash_next := dn_hash_next c\<rparr>)\<rparr>))
          else unchain parent bucket target current (dn_hash_next c) s)"

definition free_inode :: "u32 \<Rightarrow> vfs \<Rightarrow> vfs option" where
  "free_inode i s = do {
     s \<leftarrow> drop_inode_ref i s;
     ino \<leftarrow> vf_inodes s i;
     if in_ref_count ino \<noteq> 0 then Some s
     else do {
       s \<leftarrow> (if in_flags ino AND VFS_FILE \<noteq> 0 \<and> in_fs_private ino \<noteq> 0
            then do {
              ram \<leftarrow> vf_rams s (in_fs_private ino);
              s \<leftarrow> (if rm_data ram \<noteq> 0 then vfree (rm_data ram) s else Some s);
              vfree (in_fs_private ino) s }
            else Some s);
       vfree i s } }"

definition sys_unlink :: "bytes option \<Rightarrow> vfs \<Rightarrow> (int \<times> vfs) option" where
  "sys_unlink path_ptr s = (case path_ptr of None \<Rightarrow> Some (VFS_ERR, s) | Some path \<Rightarrow> do {
     target \<leftarrow> vfs_lookup (vf_root s) (Some path) s;
     if target = 0 \<or> target = vf_root s then Some (VFS_ERR, s)
     else do {
       t \<leftarrow> vf_dentries s target;
       if dn_parent t = 0 \<or> dn_inode t = 0 then Some (VFS_ERR, s)
       else do {
         name \<leftarrow> vf_strings s (dn_name t);
         p \<leftarrow> vf_dentries s (dn_parent t);
         ino \<leftarrow> vf_inodes s (dn_inode t);
         if in_flags ino AND VFS_DIR \<noteq> 0 \<and> dn_children t \<noteq> 0 then Some (VFS_ERR, s)
         else do {
           s \<leftarrow> unchain (dn_parent t) (dentry_hash name) target 0 (dn_hash_bucket p ! dentry_hash name) s;
           s \<leftarrow> free_inode (dn_inode t) s;
           s \<leftarrow> (if dn_name t \<noteq> 0 then vfree (dn_name t) s else Some s);
           s \<leftarrow> vfree target s;
           Some (VFS_OK, s) } } } })"

definition sys_chdir :: "bytes option \<Rightarrow> vfs \<Rightarrow> (int \<times> vfs) option" where
  "sys_chdir path_ptr s = (case path_ptr of None \<Rightarrow> Some (VFS_ERR, s) | Some path \<Rightarrow> do {
     d \<leftarrow> vfs_lookup (vf_root s) (Some path) s;
     dir \<leftarrow> (if d = 0 then Some False else is_dir d s);
     if \<not> dir then Some (VFS_ERR, s)
     else do {
       t \<leftarrow> cur_task s;
       Some (VFS_OK, s\<lparr>vf_tasks := (vf_tasks s)(current_task s \<mapsto> t\<lparr>tk_cwd := d\<rparr>)\<rparr>) } })"

definition vfs_mount :: "u32 \<Rightarrow> u32 \<Rightarrow> vfs \<Rightarrow> (int \<times> vfs) option" where
  "vfs_mount mount_point root s =
     (if mount_point = 0 \<or> root = 0 then Some (VFS_ERR, s)
      else do {
        dir \<leftarrow> is_dir mount_point s;
        if \<not> dir then Some (VFS_ERR, s)
        else do {
          (mnt, s) \<leftarrow> valloc 8 s;
          if mnt = 0 then Some (VFS_ERR, s)
          else do {
            d \<leftarrow> vf_dentries s mount_point;
            Some (VFS_OK, s\<lparr>vf_mounts := (vf_mounts s)(mnt \<mapsto> root), vf_dentries := (vf_dentries s)(mount_point \<mapsto> d\<lparr>dn_mount := mnt\<rparr>)\<rparr>) } } })"

text \<open>The walk of \<^verbatim>\<open>sys_readdir\<close> along one bucket: the entry with number \<open>n\<close>, or the count so far.\<close>

partial_function (option) readdir_chain :: "vfs \<Rightarrow> u32 \<Rightarrow> u32 \<Rightarrow> u32 \<Rightarrow> (u32 + u32) option" where
  "readdir_chain s n cnt child =
     (if child = 0 then Some (Inr cnt)
      else if cnt = n then Some (Inl child)
      else case vf_dentries s child of None \<Rightarrow> None | Some c \<Rightarrow> readdir_chain s n (cnt + 1) (dn_hash_next c))"

fun readdir_buckets :: "vfs \<Rightarrow> u32 \<Rightarrow> u32 \<Rightarrow> u32 list \<Rightarrow> u32 option" where
  "readdir_buckets s n cnt [] = Some 0"
| "readdir_buckets s n cnt (b # bs) =
     (case readdir_chain s n cnt b of
        None \<Rightarrow> None | Some (Inl child) \<Rightarrow> Some child | Some (Inr cnt') \<Rightarrow> readdir_buckets s n cnt' bs)"

text \<open>The value returned and the name and type of the entry.\<close>

definition sys_readdir :: "int \<Rightarrow> vfs \<Rightarrow> (int \<times> (bytes \<times> u32) option \<times> vfs) option" where
  "sys_readdir fd s =
     do {
       file \<leftarrow> fd_file fd s;
       if file = 0 then Some (VFS_ERR, None, s)
         else do {
           f \<leftarrow> vf_files s file;
           if fl_inode f = 0 then Some (VFS_ERR, None, s)
           else do {
             ino \<leftarrow> vf_inodes s (fl_inode f);
             if in_flags ino AND VFS_DIR = 0 \<or> fl_dentry f = 0 then Some (VFS_ERR, None, s)
             else do {
               d \<leftarrow> vf_dentries s (fl_dentry f);
               child \<leftarrow> readdir_buckets s (fl_offset f) 0 (dn_hash_bucket d);
               if child = 0 then Some (0, None, s)
               else do {
                 c \<leftarrow> vf_dentries s child;
                 name \<leftarrow> vf_strings s (dn_name c);
                 cino \<leftarrow> vf_inodes s (dn_inode c);
                 Some (1, Some (name, in_flags cino), s\<lparr>vf_files := (vf_files s)(file \<mapsto> f\<lparr>fl_offset := fl_offset f + 1\<rparr>)\<rparr>) } } } } }"

end
