(* ===== verification/Vfs_Paths.thy ===== *)
theory Vfs_Paths
  imports Vfs
begin

text \<open>
  Path resolution and the making of directories: what \<open>basename\<close> and \<open>parent_dirname\<close> compute, how a path
  resolves component by component, and what a new entry changes.
\<close>

section \<open>Paths as components\<close>

lemma match_seg_eq [simp]: "match_seg name seg (length seg) \<longleftrightarrow> name = seg"
proof (induction name arbitrary: seg)
  case Nil
  then show ?case by (cases seg) simp_all
next
  case (Cons c cs)
  then show ?case by (cases seg) simp_all
qed

lemma basename_loop_split: "SLASH \<notin> set b \<Longrightarrow> basename_loop lst (a @ SLASH # b) = b"
proof (induction a arbitrary: lst)
  case Nil
  have "basename_loop l b = l" for l using Nil by (induction b) auto
  then show ?case by simp
qed simp

lemma last_slash_split: "SLASH \<notin> set b \<Longrightarrow> last_slash lst i (a @ SLASH # b) = i + int (length a)"
proof (induction a arbitrary: lst i)
  case Nil
  have "last_slash l j b = l" for l j using Nil by (induction b arbitrary: j) auto
  then show ?case by simp
qed simp

lemma path_split:
  assumes "has_slash path"
  obtains a b where "path = a @ SLASH # b" "SLASH \<notin> set b" "basename path = b" "parent_dirname path = (if a = [] then [SLASH] else a)"
proof -
  have "SLASH \<in> set path" using assms by (simp add: has_slash_def list_ex_iff)
  then obtain a b where ab: "path = a @ SLASH # b" "SLASH \<notin> set b" using split_list_last by metis
  then show ?thesis using that by (simp add: basename_def basename_loop_split parent_dirname_def last_slash_split Let_def)
qed

lemma skip_slash_id: "skip_slash p = [] \<Longrightarrow> skip_slash (p @ q) = skip_slash q"
  by (simp add: skip_slash_def dropWhile_append)

lemma skip_slash_append: "skip_slash p \<noteq> [] \<Longrightarrow> skip_slash (p @ q) = skip_slash p @ q"
  by (auto simp: skip_slash_def dropWhile_append)

lemma resolve_loop_skip: "resolve_loop dir p s = resolve_loop dir (skip_slash p) s"
proof -
  have "skip_slash (skip_slash p) = skip_slash p" by (simp add: skip_slash_def)
  then show ?thesis by (simp add: resolve_loop.simps [of dir p] resolve_loop.simps [of dir "skip_slash p"])
qed

text \<open>A path resolves through its prefix before a slash.\<close>

lemma resolve_loop_append:
  "dir \<noteq> 0 \<Longrightarrow> resolve_loop dir (p @ SLASH # q) s =
    (case resolve_loop dir p s of None \<Rightarrow> None | Some d \<Rightarrow> if d = 0 then Some 0 else resolve_loop d (SLASH # q) s)"
proof (induction dir p s rule: resolve_loop.induct)
  case (1 dir p s)
  let ?p = "skip_slash p" and ?seg = "takeWhile (\<lambda>c. c \<noteq> SLASH) (skip_slash p)" and ?rest = "dropWhile (\<lambda>c. c \<noteq> SLASH) (skip_slash p)"
  show ?case
  proof (cases "?p = []")
    case True
    then have "resolve_loop dir p s = Some dir" by (simp add: resolve_loop.simps)
    moreover have "resolve_loop dir (p @ SLASH # q) s = resolve_loop dir (SLASH # q) s"
      using True resolve_loop_skip [of dir "p @ SLASH # q" s] resolve_loop_skip [of dir "SLASH # q" s] by (simp add: skip_slash_id)
    ultimately show ?thesis using 1(2) by simp
  next
    case False
    have tw: "takeWhile (\<lambda>c. c \<noteq> SLASH) (?p @ SLASH # q) = ?seg" "dropWhile (\<lambda>c. c \<noteq> SLASH) (?p @ SLASH # q) = ?rest @ SLASH # q"
      by (induction ?p) (auto simp: takeWhile_append dropWhile_append takeWhile_eq_all_conv [THEN iffD2])
    have big: "resolve_loop dir (p @ SLASH # q) s = (case resolve_segment dir ?seg s of None \<Rightarrow> None
        | Some d \<Rightarrow> if d = 0 then Some 0 else resolve_loop d (?rest @ SLASH # q) s)"
      using False by (simp only: resolve_loop.simps [of dir "p @ SLASH # q"] skip_slash_append [OF False] tw Let_def) simp
    have "resolve_loop dir p s = (case resolve_segment dir ?seg s of None \<Rightarrow> None
        | Some d \<Rightarrow> if d = 0 then Some 0 else resolve_loop d ?rest s)"
      using False by (simp add: resolve_loop.simps [of dir p] Let_def)
    then show ?thesis using 1(1) [OF refl False] by (auto simp: big split: option.splits)
  qed
qed

text \<open>The last component.\<close>

lemma resolve_last:
  assumes "SLASH \<notin> set b" "b \<noteq> []"
  shows "resolve_loop d b s = resolve_segment d b s" "resolve_loop d (SLASH # b) s = resolve_segment d b s"
proof -
  have "hd b \<noteq> SLASH" using assms by (metis hd_in_set)
  then have sk: "skip_slash b = b" using assms(2) by (cases b) (simp_all add: skip_slash_def)
  have "takeWhile (\<lambda>c. c \<noteq> SLASH) b = b" "dropWhile (\<lambda>c. c \<noteq> SLASH) b = []" using assms(1) by (auto simp: takeWhile_eq_all_conv)
  then have "resolve_loop d b s = (case resolve_segment d b s of None \<Rightarrow> None | Some d' \<Rightarrow> if d' = 0 then Some 0 else resolve_loop d' [] s)"
    using assms(2) by (simp only: resolve_loop.simps [of d b] sk Let_def if_False)
  then show r: "resolve_loop d b s = resolve_segment d b s"
    by (auto simp: resolve_loop.simps [of _ "[]"] skip_slash_def split: option.splits)
  show "resolve_loop d (SLASH # b) s = resolve_segment d b s"
    unfolding r [symmetric] resolve_loop_skip [of d "SLASH # b"] using sk by (simp add: skip_slash_def)
qed

section \<open>A new entry\<close>

text \<open>The state \<open>s'\<close> has one entry more than \<open>s\<close>: \<open>c\<close>, with a fresh name and a fresh inode, at the head of its bucket in \<open>parent\<close>.\<close>

definition grown :: "u32 \<Rightarrow> bytes \<Rightarrow> u32 \<Rightarrow> inode_t \<Rightarrow> vfs \<Rightarrow> vfs \<Rightarrow> bool" where
  "grown parent name c node s s' \<longleftrightarrow> (\<exists>P i nm. vf_dentries s parent = Some P \<and> length (dn_hash_bucket P) = 32 \<and>
     c \<noteq> 0 \<and> vf_dentries s c = None \<and> vf_inodes s i = None \<and> vf_strings s nm = None \<and>
     vf_dentries s' = (vf_dentries s)(c \<mapsto> zero_dentry\<lparr>dn_name := nm, dn_inode := i, dn_parent := parent,
         dn_hash_next := dn_hash_bucket P ! dentry_hash name\<rparr>,
       parent \<mapsto> P\<lparr>dn_hash_bucket := (dn_hash_bucket P)[dentry_hash name := c]\<rparr>) \<and>
     vf_inodes s' = (vf_inodes s)(i \<mapsto> node) \<and> vf_strings s' = (vf_strings s)(nm \<mapsto> name) \<and>
     vf_root s' = vf_root s \<and> vf_tasks s' = vf_tasks s \<and> current_task s' = current_task s)"

lemma dentry_hash_less [simp]: "dentry_hash name < 32"
  by (simp add: dentry_hash_def DENTRY_HASH_def unat_mod)

text \<open>A walk along a bucket that came to an end comes to the same end.\<close>

definition keeps_names :: "vfs \<Rightarrow> vfs \<Rightarrow> bool" where
  "keeps_names s s' \<longleftrightarrow> (\<forall>c d. vf_dentries s c = Some d \<longrightarrow>
       (\<exists>d'. vf_dentries s' c = Some d' \<and> dn_name d' = dn_name d \<and> dn_hash_next d' = dn_hash_next d)) \<and> vf_strings s \<subseteq>\<^sub>m vf_strings s'"

lemma chain_find_mono:
  assumes "chain_find s seg n child = Some r" "keeps_names s s'"
  shows "chain_find s' seg n child = Some r"
proof -
  have "\<forall>s'. keeps_names s s' \<longrightarrow> chain_find s' seg n child = Some r"
  proof (rule chain_find.raw_induct [OF _ assms(1)], intro allI impI)
    fix cf and s :: vfs and start len child y s'
    assume IH: "\<And>s start len child y. cf s start len child = Some y \<Longrightarrow> \<forall>s'. keeps_names s s' \<longrightarrow> chain_find s' start len child = Some y"
      and b: "(if child = 0 then Some 0 else case vf_dentries s child of None \<Rightarrow> None
        | Some c \<Rightarrow> (case vf_strings s (dn_name c) of None \<Rightarrow> None
          | Some name \<Rightarrow> if match_seg name start len then Some child else cf s start len (dn_hash_next c))) = Some y"
      and k: "keeps_names s s'"
    show "chain_find s' start len child = Some y"
    proof (cases "child = 0")
      case True
      then show ?thesis using b by (simp add: chain_find.simps)
    next
      case False
      then obtain c name where c: "vf_dentries s child = Some c" "vf_strings s (dn_name c) = Some name"
        "(if match_seg name start len then Some child else cf s start len (dn_hash_next c)) = Some y"
        using b by (auto split: option.splits)
      obtain c' where c': "vf_dentries s' child = Some c'" "dn_name c' = dn_name c" "dn_hash_next c' = dn_hash_next c"
        using k c(1) unfolding keeps_names_def by blast
      have "vf_strings s' (dn_name c) = Some name" using k c(2) by (auto simp: keeps_names_def map_le_def dom_def)
      then show ?thesis using c(3) c' False IH [of s start len "dn_hash_next c" y] k
        by (subst chain_find.simps) (auto split: if_splits)
    qed
  qed
  then show ?thesis using assms(2) by blast
qed

lemma grownE:
  assumes "grown parent name c node s s'"
  obtains P i nm where "vf_dentries s parent = Some P" "length (dn_hash_bucket P) = 32" "c \<noteq> 0" "c \<noteq> parent"
    "vf_dentries s c = None" "vf_inodes s i = None" "vf_strings s nm = None"
    "vf_dentries s' = (vf_dentries s)(c \<mapsto> zero_dentry\<lparr>dn_name := nm, dn_inode := i, dn_parent := parent,
         dn_hash_next := dn_hash_bucket P ! dentry_hash name\<rparr>,
       parent \<mapsto> P\<lparr>dn_hash_bucket := (dn_hash_bucket P)[dentry_hash name := c]\<rparr>)"
    "vf_inodes s' = (vf_inodes s)(i \<mapsto> node)" "vf_strings s' = (vf_strings s)(nm \<mapsto> name)"
  using assms unfolding grown_def by (metis option.distinct(1))

lemma grown_keeps: "grown parent name c node s s' \<Longrightarrow> keeps_names s s'"
  by (erule grownE) (auto simp: keeps_names_def map_le_def)

text \<open>Looking up one component after the growth.\<close>

lemma resolve_segment_grown:
  assumes g: "grown parent name c node s s'" and r: "resolve_segment dir seg s = Some r"
  shows "dir \<noteq> parent \<or> seg \<noteq> name \<Longrightarrow> resolve_segment dir seg s' = Some r"
    and "dir = parent \<Longrightarrow> seg = name \<Longrightarrow> r = 0 \<Longrightarrow> parent \<noteq> 0 \<Longrightarrow> is_dir parent s = Some True \<Longrightarrow> resolve_segment dir seg s' = Some c"
proof -
  obtain P i nm where G: "vf_dentries s parent = Some P" "length (dn_hash_bucket P) = 32" "c \<noteq> 0" "c \<noteq> parent"
    "vf_dentries s c = None" "vf_inodes s i = None" "vf_strings s nm = None"
    "vf_dentries s' = (vf_dentries s)(c \<mapsto> zero_dentry\<lparr>dn_name := nm, dn_inode := i, dn_parent := parent,
         dn_hash_next := dn_hash_bucket P ! dentry_hash name\<rparr>,
       parent \<mapsto> P\<lparr>dn_hash_bucket := (dn_hash_bucket P)[dentry_hash name := c]\<rparr>)"
    "vf_inodes s' = (vf_inodes s)(i \<mapsto> node)" "vf_strings s' = (vf_strings s)(nm \<mapsto> name)"
    using g by (rule grownE)
  have len: "length seg < 256" using r by (simp add: resolve_segment_def split: if_splits)
  obtain d where d: "vf_dentries s dir = Some d" using r len by (cases "vf_dentries s dir") (simp_all add: resolve_segment_def)
  define d' where "d' = (if dir = parent then d\<lparr>dn_hash_bucket := (dn_hash_bucket d)[dentry_hash name := c]\<rparr> else d)"
  have d': "vf_dentries s' dir = Some d'" "dn_inode d' = dn_inode d" "dn_parent d' = dn_parent d"
    using G(1,5,8) d by (auto simp: d'_def)
  have at_c: "chain_find s' seg (length seg) c = (if name = seg then Some c else chain_find s' seg (length seg) (dn_hash_bucket P ! dentry_hash name))"
    using G(3,4,8,10) by (subst chain_find.simps) simp
  have ino: "vf_inodes s' (dn_inode d) = vf_inodes s (dn_inode d)" if "vf_inodes s (dn_inode d) \<noteq> None" using that G(6,9) by auto
  note mono = chain_find_mono [OF _ grown_keeps [OF g]]
  show "resolve_segment dir seg s' = Some r" if ne: "dir \<noteq> parent \<or> seg \<noteq> name"
  proof -
    have "chain_find s' seg (length seg) (dn_hash_bucket d' ! dentry_hash seg) = Some r"
      if "chain_find s seg (length seg) (dn_hash_bucket d ! dentry_hash seg) = Some r"
    proof (cases "dir = parent \<and> dentry_hash seg = dentry_hash name")
      case True
      then show ?thesis using mono [OF that] ne at_c d G(1,2) by (simp add: d'_def)
    next
      case False
      then show ?thesis using mono [OF that] by (auto simp: d'_def)
    qed
    then show ?thesis using r len d d' ino by (auto simp: resolve_segment_def split: if_splits option.splits bind_splits)
  qed
  show "resolve_segment dir seg s' = Some c" if "dir = parent" "seg = name" "r = 0" "parent \<noteq> 0" "is_dir parent s = Some True"
  proof -
    note t = that
    obtain ino where i: "vf_inodes s (dn_inode d) = Some ino" "in_flags ino AND VFS_DIR \<noteq> 0"
      using t(1,5) d by (auto simp: is_dir_def split: bind_splits)
    have "seg \<noteq> [DOT]" "seg \<noteq> [DOT, DOT]" using r len d that(1,3,4) by (auto simp: resolve_segment_def split: if_splits)
    moreover have "dn_hash_bucket d' ! dentry_hash seg = c" using that(1,2) d G(1,2) by (simp add: d'_def)
    ultimately show ?thesis using len d' ino i at_c that(2) by (simp add: resolve_segment_def)
  qed
qed

text \<open>Paths that led somewhere lead to the same entry.\<close>

lemma resolve_loop_grown:
  "grown parent name c node s s' \<Longrightarrow> resolve_segment parent name s = Some 0 \<Longrightarrow> resolve_loop dir p s = Some r \<Longrightarrow> r \<noteq> 0 \<Longrightarrow>
    resolve_loop dir p s' = Some r"
proof (induction dir p s rule: resolve_loop.induct)
  case (1 dir p s)
  let ?p = "skip_slash p" and ?seg = "takeWhile (\<lambda>c. c \<noteq> SLASH) (skip_slash p)"
  show ?case
  proof (cases "?p = []")
    case True
    then show ?thesis using 1(4) by (simp add: resolve_loop.simps)
  next
    case False
    then obtain d where d: "resolve_segment dir ?seg s = Some d" "d \<noteq> 0" "resolve_loop d (dropWhile (\<lambda>c. c \<noteq> SLASH) ?p) s = Some r"
      using 1(4,5) by (auto simp: resolve_loop.simps [of dir p s] Let_def split: option.splits if_splits)
    have "dir \<noteq> parent \<or> ?seg \<noteq> name" using 1(3) d(1,2) by auto
    then have "resolve_segment dir ?seg s' = Some d" by (rule resolve_segment_grown(1) [OF 1(2) d(1)])
    moreover have "resolve_loop d (dropWhile (\<lambda>c. c \<noteq> SLASH) ?p) s' = Some r"
      by (rule 1(1) [OF refl False d(1,2) 1(2,3) d(3) 1(5)])
    ultimately show ?thesis using False d(2) by (simp add: resolve_loop.simps [of dir p s'] Let_def)
  qed
qed

section \<open>Making a directory\<close>

text \<open>The entries, inodes and names are live allocations, apart from names that are literals outside the heap's pages;
  nothing is mounted.\<close>

definition entries_ok :: "nat set \<Rightarrow> (u32 \<times> u32) set \<Rightarrow> vfs \<Rightarrow> bool" where
  "entries_ok U H s \<longleftrightarrow> heap_ok U (vf_heap s) H \<and> dom (vf_dentries s) \<subseteq> fst ` H \<and> dom (vf_inodes s) \<subseteq> fst ` H \<and>
     (\<forall>p\<in>dom (vf_strings s). p \<in> fst ` H \<or> unat p div 4096 \<notin> U) \<and>
     vf_dentries s 0 = None \<and> (\<forall>c d. vf_dentries s c = Some d \<longrightarrow> dn_mount d = 0 \<and> length (dn_hash_bucket d) = 32)"

lemma live_page: 
  assumes "heap_ok U h H" "(p, n) \<in> H"
  shows "unat p div 4096 \<in> U"
proof -
  have "home h (p, n) \<in> heap_blocks h H" "unat p div 4096 \<in> block_pages (snd (home h (p, n))) (fst (home h (p, n)))"
    using home_pages [OF assms order_refl] by simp_all
  then have "unat p div 4096 \<in> held_pages (heap_blocks h H)" unfolding held_pages_def by force
  then show ?thesis using heap_okD(1) [OF assms(1)] unfolding run_ok_def by blast
qed

lemma valloc_fresh:
  assumes "heap_ok U (vf_heap s) H" "unat sz + 12 < 2 ^ 32" "valloc sz s = Some (p, s')" "p \<noteq> 0"
  shows "\<exists>h. s' = s\<lparr>vf_heap := h\<rparr> \<and> heap_ok U h (insert (p, sz) H) \<and> p \<notin> fst ` H \<and> unat p div 4096 \<in> U"
proof -
  obtain h where h: "kmalloc_raw sz (vf_heap s) = Some (p, h)" "s' = s\<lparr>vf_heap := h\<rparr>"
    using assms(3) by (auto simp: valloc_def split: option.splits)
  have "heap_ok U h (insert (p, sz) H)" using kmalloc_ok [OF assms(1,2) h(1)] assms(4) by simp
  then show ?thesis using h(2) kmalloc_fresh [OF assms(1,2) h(1) assms(4)] live_page [of U h "insert (p, sz) H" p sz]
    by (intro exI [of _ h]) simp
qed

lemma mkdir_grown:
  assumes ok: "entries_ok U H s" and run: "ramfs_mkdir parent (Some name) s = Some (c, s')" and c: "c \<noteq> 0"
    and P: "vf_dentries s parent = Some P" and len: "length name < 256" and named: "\<forall>d. vf_dentries s' c = Some d \<longrightarrow> dn_name d \<noteq> 0"
  shows "\<exists>H' node. grown parent name c node s s' \<and> in_flags node = VFS_DIR \<and> entries_ok U H' s'"
proof -
  note E = ok [unfolded entries_ok_def]
  have p0: "parent \<noteq> 0" using run c by (auto simp: ramfs_mkdir_def)
  obtain s1 i s2 where a1: "valloc SIZEOF_dentry s = Some (c, s1)" and a2: "valloc SIZEOF_inode s1 = Some (i, s2)" and i: "i \<noteq> 0"
    using run p0 c by (auto simp: ramfs_mkdir_def split: bind_splits if_splits)
  have sz: "unat SIZEOF_dentry + 12 < 2 ^ 32" "unat SIZEOF_inode + 12 < 2 ^ 32" by (simp_all add: SIZEOF_dentry_def SIZEOF_inode_def)
  obtain h1 where h1: "s1 = s\<lparr>vf_heap := h1\<rparr>" "heap_ok U h1 (insert (c, SIZEOF_dentry) H)" "c \<notin> fst ` H"
    using valloc_fresh [OF _ sz(1) a1 c] E by blast
  have "heap_ok U (vf_heap s1) (insert (c, SIZEOF_dentry) H)" using h1 by simp
  then obtain h2 where h2: "s2 = s1\<lparr>vf_heap := h2\<rparr>" "heap_ok U h2 (insert (i, SIZEOF_inode) (insert (c, SIZEOF_dentry) H))"
      "i \<notin> fst ` (insert (c, SIZEOF_dentry) H)"
    using valloc_fresh [OF _ sz(2) a2 i] by blast
  define node where "node = \<lparr>in_size = 0, in_flags = VFS_DIR, in_ref_count = 0, in_ops = NO_OPS, in_fs_private = 0, in_created_tick = 0, in_created_pid = 0\<rparr>"
  define s3 where "s3 = s2\<lparr>vf_inodes := (vf_inodes s2)(i \<mapsto> node)\<rparr>"
  obtain nm s4 where d1: "strdup name s3 = Some (nm, s4)" and hi: "hash_insert parent c name
      (s4\<lparr>vf_dentries := (vf_dentries s4)(c \<mapsto> zero_dentry\<lparr>dn_name := nm, dn_inode := i, dn_parent := parent\<rparr>)\<rparr>) = Some s'"
    using run p0 c i a1 a2 by (auto simp: ramfs_mkdir_def s3_def node_def split: bind_splits)
  obtain s5 where a3: "valloc (of_nat (length name) + 1) s3 = Some (nm, s5)"
      and s4: "s4 = (if nm = 0 then s5 else s5\<lparr>vf_strings := (vf_strings s5)(nm \<mapsto> name)\<rparr>)"
    using d1 by (auto simp: strdup_def split: bind_splits)
  have d4: "vf_dentries s4 = vf_dentries s" using a3 h1(1) h2(1) by (auto simp: s4 s3_def valloc_def split: option.splits)
  have cp: "c \<noteq> parent" using h1(3) P E by force
  have s': "s' = s4\<lparr>vf_dentries := (vf_dentries s)(c \<mapsto> zero_dentry\<lparr>dn_name := nm, dn_inode := i, dn_parent := parent,
        dn_hash_next := dn_hash_bucket P ! dentry_hash name\<rparr>, parent \<mapsto> P\<lparr>dn_hash_bucket := (dn_hash_bucket P)[dentry_hash name := c]\<rparr>)\<rparr>"
    using hi P cp d4 by (simp add: hash_insert_def Let_def)
  then have nm: "nm \<noteq> 0" using named cp by simp
  have "unat (of_nat (length name) + 1 :: u32) = length name + 1" using len by (simp add: unat_add_no_wrap unat_of_nat)
  then have sz3: "unat (of_nat (length name) + 1 :: u32) + 12 < 2 ^ 32" using len by simp
  let ?H = "insert (i, SIZEOF_inode) (insert (c, SIZEOF_dentry) H)"
  have "heap_ok U (vf_heap s3) ?H" using h2 by (simp add: s3_def)
  then obtain h3 where h3: "s5 = s3\<lparr>vf_heap := h3\<rparr>" "heap_ok U h3 (insert (nm, of_nat (length name) + 1) ?H)" "nm \<notin> fst ` ?H" "unat nm div 4096 \<in> U"
    using valloc_fresh [OF _ sz3 a3 nm] by blast
  have fresh: "vf_dentries s c = None" "vf_inodes s i = None" "vf_strings s nm = None"
    using E h1(3) h2(3) h3(3,4) by (auto simp: subset_iff dom_def)
  have lenP: "length (dn_hash_bucket P) = 32" "dn_mount P = 0" using E P by blast+
  have g: "grown parent name c node s s'"
    unfolding grown_def using P lenP c fresh
    by (intro exI [of _ P] exI [of _ i] exI [of _ nm]) (simp add: s' s4 nm h3(1) s3_def h2(1) h1(1))
  have "entries_ok U (insert (nm, of_nat (length name) + 1) ?H) s'"
    unfolding entries_ok_def s' s4 h3(1) s3_def h2(1) h1(1) using E h3(2) nm lenP P c p0 by (auto simp: zero_dentry_def DENTRY_HASH_def)
  then show ?thesis using g by (intro exI [of _ "insert (nm, of_nat (length name) + 1) ?H"] exI [of _ node]) (simp add: node_def)
qed

text \<open>The parent directory and the last component, as \<open>sys_mkdir\<close> finds them, determine how the whole path resolves.\<close>

definition start_dir :: "bytes \<Rightarrow> vfs \<Rightarrow> u32 option" where
  "start_dir path s = (if path \<noteq> [] \<and> hd path = SLASH then Some (vf_root s) else map_option tk_cwd (cur_task s))"

lemma lookup_unmounted:
  assumes "entries_ok U H s" "vf_root s \<noteq> 0"
  shows "vfs_lookup (vf_root s) (Some path) s = Some r \<Longrightarrow> do { dir \<leftarrow> start_dir path s; resolve_loop dir path s } = Some r"
    and "do { dir \<leftarrow> start_dir path s; resolve_loop dir path s } = Some r \<Longrightarrow> r = 0 \<or> vf_dentries s r \<noteq> None \<Longrightarrow>
      vfs_lookup (vf_root s) (Some path) s = Some r"
    and "vfs_lookup (vf_root s) (Some path) s = Some r \<Longrightarrow> r = 0 \<or> vf_dentries s r \<noteq> None"
proof -
  have "dn_mount d = 0" if "vf_dentries s c = Some d" for c d using assms(1) that by (simp add: entries_ok_def)
  then show "vfs_lookup (vf_root s) (Some path) s = Some r \<Longrightarrow> do { dir \<leftarrow> start_dir path s; resolve_loop dir path s } = Some r"
    "do { dir \<leftarrow> start_dir path s; resolve_loop dir path s } = Some r \<Longrightarrow> r = 0 \<or> vf_dentries s r \<noteq> None \<Longrightarrow>
      vfs_lookup (vf_root s) (Some path) s = Some r"
    "vfs_lookup (vf_root s) (Some path) s = Some r \<Longrightarrow> r = 0 \<or> vf_dentries s r \<noteq> None"
    using assms(2) by (fastforce simp: vfs_lookup_def vfs_resolve_path_def vfs_follow_mount_def start_dir_def split: bind_splits if_splits)+
qed

lemma resolve_null: "vf_dentries s 0 = None \<Longrightarrow> skip_slash p \<noteq> [] \<Longrightarrow> resolve_loop 0 p s = None"
  by (auto simp: resolve_loop.simps [of 0 p] resolve_segment_def Let_def)

lemma resolve_none: "skip_slash p = [] \<Longrightarrow> resolve_loop dir p s = Some dir"
  by (simp add: resolve_loop.simps)

lemma parent_and_name:
  assumes ok: "entries_ok U H s" "vf_root s \<noteq> 0" and par: "resolve_parent_dir path s = Some (parent, name)" "parent \<noteq> 0"
    and free: "vfs_lookup (vf_root s) (Some path) s = Some 0"
  shows "resolve_segment parent name s = Some 0 \<and> (\<exists>dir pre. start_dir path s = Some dir \<and> resolve_loop dir pre s = Some parent \<and>
    (\<forall>t. resolve_loop dir pre t = Some parent \<longrightarrow> resolve_loop dir path t = resolve_segment parent name t))"
proof -
  obtain dir where dir: "start_dir path s = Some dir" "resolve_loop dir path s = Some 0"
    using lookup_unmounted(1) [OF ok free] by (auto split: bind_splits)
  have "\<exists>pre. resolve_loop dir pre s = Some parent \<and> (\<forall>t. resolve_loop dir pre t = Some parent \<longrightarrow> resolve_loop dir path t = resolve_segment parent name t)"
  proof (cases "has_slash path")
    case False
    then have n: "SLASH \<notin> set path" "name = path" "map_option tk_cwd (cur_task s) = Some parent"
      using par(1) by (auto simp: resolve_parent_dir_def has_slash_def list_ex_iff)
    have "hd path \<noteq> SLASH" if "path \<noteq> []" using n(1) hd_in_set [OF that] by auto
    then have d: "dir = parent" using dir(1) n(3) by (auto simp: start_dir_def split: if_splits)
    have "path \<noteq> []" using dir(2) d par(2) resolve_none [of "[]" parent s] by (auto simp: skip_slash_def)
    then show ?thesis using resolve_last(1) [OF n(1)] resolve_none [of "[]"] d n(2) by (intro exI [of _ "[]"]) (auto simp: skip_slash_def)
  next
    case True
    then obtain a b where ab: "path = a @ SLASH # b" "SLASH \<notin> set b" "basename path = b" "parent_dirname path = (if a = [] then [SLASH] else a)"
      by (rule path_split)
    have nb: "name = b" and lk: "vfs_lookup (vf_root s) (Some (if a = [] then [SLASH] else a)) s = Some parent"
      using par(1) True ab(3,4) by (auto simp: resolve_parent_dir_def split: bind_splits if_splits)
    obtain dir2 where d2: "start_dir (if a = [] then [SLASH] else a) s = Some dir2" "resolve_loop dir2 (if a = [] then [SLASH] else a) s = Some parent"
      using lookup_unmounted(1) [OF ok lk] by (auto split: bind_splits)
    have "dir2 = dir" using d2(1) dir(1) ab(1) by (cases a) (simp_all add: start_dir_def)
    then have pre: "resolve_loop dir a s = Some parent"
      using d2(2) resolve_none [of "[SLASH]" dir s] resolve_none [of "[]" dir s] by (cases "a = []") (auto simp: skip_slash_def)
    have d0: "dir \<noteq> 0"
      using pre par(2) resolve_null [of s a] resolve_none [of a dir s] ok(1) by (cases "skip_slash a = []") (auto simp: entries_ok_def)
    have app: "resolve_loop dir path t = resolve_loop parent (SLASH # b) t" if "resolve_loop dir a t = Some parent" for t
      using that par(2) by (simp add: ab(1) resolve_loop_append [OF d0])
    have "b \<noteq> []" using app [OF pre] dir(2) par(2) resolve_none [of "[SLASH]" parent s] by (auto simp: skip_slash_def)
    then show ?thesis using pre app resolve_last(2) [OF ab(2)] nb by (intro exI [of _ a]) simp
  qed
  then show ?thesis using dir by auto
qed

section \<open>Properties\<close>

text \<open>C37. A directory made by a successful \<open>sys_mkdir\<close> is what its path then resolves to, it is new, and every path that
  resolved to an entry still resolves to the same one. The names have to be copied: when memory for the
  name runs out the entry gets a null name, which later lookups read.\<close>

theorem mkdir_resolves:
  assumes ok: "entries_ok U H s" "vf_root s \<noteq> 0" and run: "sys_mkdir (Some path) s = Some (VFS_OK, s')"
    and named: "\<forall>c d. vf_dentries s' c = Some d \<longrightarrow> dn_name d \<noteq> 0"
  shows "\<exists>c H'. vfs_lookup (vf_root s') (Some path) s' = Some c \<and> c \<noteq> 0 \<and> vf_dentries s c = None \<and> is_dir c s' = Some True \<and>
    entries_ok U H' s' \<and>
    (\<forall>q r. vfs_lookup (vf_root s) (Some q) s = Some r \<longrightarrow> r \<noteq> 0 \<longrightarrow> vfs_lookup (vf_root s') (Some q) s' = Some r)"
proof -
  obtain parent name c where par: "resolve_parent_dir path s = Some (parent, name)" "parent \<noteq> 0" "is_dir parent s = Some True"
    and free: "vfs_lookup (vf_root s) (Some path) s = Some 0" and mk: "ramfs_mkdir parent (Some name) s = Some (c, s')" "c \<noteq> 0"
    using run by (auto simp: sys_mkdir_def VFS_OK_def VFS_ERR_def split: bind_splits if_splits)
  obtain dir pre where seg: "resolve_segment parent name s = Some 0" and dir: "start_dir path s = Some dir" "resolve_loop dir pre s = Some parent"
    "\<And>t. resolve_loop dir pre t = Some parent \<Longrightarrow> resolve_loop dir path t = resolve_segment parent name t"
    using parent_and_name [OF ok par(1,2) free] by blast
  obtain P where P: "vf_dentries s parent = Some P" using par(3) by (auto simp: is_dir_def split: bind_splits)
  have "length name < 256" using seg by (simp add: resolve_segment_def split: if_splits)
  then obtain H' node where g: "grown parent name c node s s'" "in_flags node = VFS_DIR" and ok': "entries_ok U H' s'"
    using mkdir_grown [OF ok(1) mk P] named by blast
  have rt: "vf_root s' = vf_root s" "start_dir q s' = start_dir q s" for q using g(1) by (auto simp: grown_def start_dir_def cur_task_def)
  have new: "vf_dentries s c = None" "is_dir c s' = Some True"
    using g(1) by (auto simp: grown_def is_dir_def g(2) VFS_DIR_def elim!: grownE [OF g(1)])
  have dom: "vf_dentries s' q \<noteq> None" if "vf_dentries s q \<noteq> None" for q using grown_keeps [OF g(1)] that unfolding keeps_names_def by blast
  have "resolve_loop dir path s' = Some c"
    using dir(3) [OF resolve_loop_grown [OF g(1) seg dir(2) par(2)]] resolve_segment_grown(2) [OF g(1) seg refl refl refl par(2,3)] by simp
  then have "vfs_lookup (vf_root s') (Some path) s' = Some c"
    using dir(1) new(2) ok(2) rt by (intro lookup_unmounted(2) [OF ok']) (auto simp: is_dir_def split: bind_splits)
  moreover have "vfs_lookup (vf_root s') (Some q) s' = Some r" if q: "vfs_lookup (vf_root s) (Some q) s = Some r" "r \<noteq> 0" for q r
  proof -
    obtain d where "start_dir q s = Some d" "resolve_loop d q s = Some r" using lookup_unmounted(1) [OF ok q(1)] by (auto split: bind_splits)
    then show ?thesis using resolve_loop_grown [OF g(1) seg _ q(2)] lookup_unmounted(3) [OF ok q(1)] dom ok(2) rt q(2)
      by (intro lookup_unmounted(2) [OF ok']) auto
  qed
  ultimately show ?thesis using mk(2) new ok' by blast
qed

lemma demo_entries: "entries_ok (block_pages 4 0x10000) demo_live demo_state"
  unfolding entries_ok_def using demo_heap_ok
  by (auto simp: demo_state_def demo_live_def zero_dentry_def DENTRY_HASH_def block_pages_def split: if_splits)

definition demo_mkdir :: "vfs" where
  "demo_mkdir = snd (the (sys_mkdir (Some [47, 100]) demo_state))"

lemma demo_buddy: "buddy_alloc (int 0) (buddy16 ((\<lambda>_. 0)(3 := 0x18000))) =
    Some (0x18000, buddy16 ((\<lambda>_. 0)(2 := 0x1C000, Suc 0 := 0x1A000, 0 := 0x19000)))"
  by (simp add: buddy16_def buddy_eval)

lemma demo_resolves:
  "resolve_parent_dir [47, 100] demo_state = Some (0x1300C, [100])" "is_dir 0x1300C demo_state = Some True"
  "vfs_lookup 0x1300C (Some [47, 100]) demo_state = Some 0"
proof -
  have hash: "dentry_hash [100] = 4" by (simp add: dentry_hash_def DENTRY_HASH_def)
  have root: "vf_root demo_state = 0x1300C" by (simp add: demo_state_def)
  show "resolve_parent_dir [47, 100] demo_state = Some (0x1300C, [100])"
    using resolve_none [of "[47]" "0x1300C" demo_state] root
    by (simp add: resolve_parent_dir_def has_slash_def parent_dirname_def VFS_ERR_def vfs_lookup_def vfs_resolve_path_def skip_slash_def
        basename_def vfs_follow_mount_def) (simp add: demo_state_def zero_dentry_def)
  show "is_dir 0x1300C demo_state = Some True" by (simp add: is_dir_def demo_state_def demo_inode_def VFS_DIR_def)
  have "resolve_segment 0x1300C [100] demo_state = Some 0"
    by (simp add: resolve_segment_def hash demo_state_def zero_dentry_def DENTRY_HASH_def demo_inode_def VFS_DIR_def chain_find.simps)
  then show "vfs_lookup 0x1300C (Some [47, 100]) demo_state = Some 0"
    using resolve_last(2) [of "[100]" "0x1300C" demo_state] by (simp add: vfs_lookup_def vfs_resolve_path_def vfs_follow_mount_def)
qed

lemma demo_allocs:
  "\<exists>fl ty ord. valloc SIZEOF_dentry demo_state = Some (0x1800C, demo_state\<lparr>vf_heap := heap16 fl 0x3F ty ord\<rparr>)"
  "vf_heap s = heap16 fl 0x3F ty ord \<Longrightarrow> valloc SIZEOF_inode s = Some (0x120C0, s\<lparr>vf_heap := heap16 fl 0x7F ty ord\<rparr>)"
  "vf_heap s = heap16 fl 0x7F ty ord \<Longrightarrow> valloc 2 s = Some (0x120E0, s\<lparr>vf_heap := heap16 fl 0xFF ty ord\<rparr>)"
proof -
  have "kmalloc_raw 160 (heap16 ((\<lambda>_. 0)(3 := 0x18000)) u ty ord) =
      Some (0x18000 + 12, heap16 ((\<lambda>_. 0)(2 := 0x1C000, Suc 0 := 0x1A000, 0 := 0x19000)) u (ty(0x18000 := BUDDY)) (ord(0x18000 := of_nat 0)))" for u ty ord
    using order_of_sizes by (intro heap16_large_run [OF _ _ demo_buddy]) simp_all
  then show "\<exists>fl ty ord. valloc SIZEOF_dentry demo_state = Some (0x1800C, demo_state\<lparr>vf_heap := heap16 fl 0x3F ty ord\<rparr>)"
    by (simp add: valloc_def SIZEOF_dentry_def demo_state_def demo_heap_def) blast
  show "vf_heap s = heap16 fl 0x3F ty ord \<Longrightarrow> valloc SIZEOF_inode s = Some (0x120C0, s\<lparr>vf_heap := heap16 fl 0x7F ty ord\<rparr>)"
    "vf_heap s = heap16 fl 0x7F ty ord \<Longrightarrow> valloc 2 s = Some (0x120E0, s\<lparr>vf_heap := heap16 fl 0xFF ty ord\<rparr>)"
    using heap16_small_run [of 32 "0x3F" 6] heap16_small_run [of 2 "0x7F" 7]
    by (simp_all add: valloc_def SIZEOF_inode_def ctz_def upt_zero_numeral)
qed

lemma demo_mkdir_run:
  "sys_mkdir (Some [47, 100]) demo_state = Some (VFS_OK, demo_mkdir)" "\<forall>c d. vf_dentries demo_mkdir c = Some d \<longrightarrow> dn_name d \<noteq> 0"
proof -
  have root: "vf_root demo_state = 0x1300C" by (simp add: demo_state_def)
  obtain fl ty ord where v: "valloc SIZEOF_dentry demo_state = Some (0x1800C, demo_state\<lparr>vf_heap := heap16 fl 0x3F ty ord\<rparr>)"
    using demo_allocs(1) by blast
  have "\<exists>s'. ramfs_mkdir 0x1300C (Some [100]) demo_state = Some (0x1800C, s') \<and> (\<forall>c d. vf_dentries s' c = Some d \<longrightarrow> dn_name d \<noteq> 0)"
    by (simp add: ramfs_mkdir_def v demo_allocs(2,3) strdup_def hash_insert_def) (simp add: demo_state_def zero_dentry_def Let_def)
  then obtain s' where m: "ramfs_mkdir 0x1300C (Some [100]) demo_state = Some (0x1800C, s')" "\<forall>c d. vf_dentries s' c = Some d \<longrightarrow> dn_name d \<noteq> 0"
    by blast
  then have r: "sys_mkdir (Some [47, 100]) demo_state = Some (VFS_OK, s')" by (simp add: sys_mkdir_def demo_resolves root)
  then have "demo_mkdir = s'" by (simp add: demo_mkdir_def)
  then show "sys_mkdir (Some [47, 100]) demo_state = Some (VFS_OK, demo_mkdir)" "\<forall>c d. vf_dentries demo_mkdir c = Some d \<longrightarrow> dn_name d \<noteq> 0"
    using r m(2) by simp_all
qed

theorem mkdir_resolves_witness:
  "\<exists>c. vfs_lookup (vf_root demo_mkdir) (Some [47, 100]) demo_mkdir = Some c \<and> c \<noteq> 0 \<and> is_dir c demo_mkdir = Some True"
proof -
  have "vf_root demo_state \<noteq> 0" by (simp add: demo_state_def)
  from mkdir_resolves [OF demo_entries this demo_mkdir_run] show ?thesis by blast
qed

end
