(* ===== verification/Vfs_Files.thy ===== *)
theory Vfs_Files
  imports Vfs_Paths
begin

text \<open>
  What the file system calls of theory Vfs promise: reading and writing through descriptors, which share the file
  behind them but not the offset, and what unlinking does to a file that is open.
\<close>

section \<open>Descriptors of a regular file\<close>

text \<open>Descriptor \<open>fd\<close> of the current task refers to the open file at \<open>f\<close>, which refers to a regular file in good order and
  was opened for reading or for writing.\<close>

definition fd_ok :: "nat set \<Rightarrow> (u32 \<times> u32) set \<Rightarrow> int \<Rightarrow> vfs \<Rightarrow> u32 \<Rightarrow> file_t \<Rightarrow> bool" where
  "fd_ok U H fd s f F \<longleftrightarrow> fd_file fd s = Some f \<and> f \<noteq> 0 \<and> (f, SIZEOF_file) \<in> H \<and> (current_task s, SIZEOF_task) \<in> H \<and>
     vf_files s f = Some F \<and> fl_inode F \<noteq> 0 \<and> fl_flags F AND READ_WRITE \<noteq> 0 \<and>
     (\<exists>d ino ram buf. file_parts U H (fl_dentry F) s d ino ram buf \<and> fl_inode F = dn_inode d \<and> in_ops ino = RAMFS_OPS)"

lemma frame_okD:
  assumes "frame_ok q H H' s s'" "(p, n) \<in> H" "p \<noteq> q"
  shows "(p, n) \<in> H'" "vf_dentries s' p = vf_dentries s p" "vf_files s' p = vf_files s p" "vf_tasks s' p = vf_tasks s p"
    "current_task s' = current_task s"
  using assms by (auto simp: frame_ok_def)

lemma fd_file_frame:
  assumes "frame_ok q H H' s s'" "(current_task s, n) \<in> H" "current_task s \<noteq> q"
  shows "fd_file fd s' = fd_file fd s"
  using assms by (auto simp: frame_ok_def fd_file_def cur_task_def)

lemma fd_file_files [simp]: "fd_file fd (s\<lparr>vf_files := x\<rparr>) = fd_file fd s"
  by (simp add: fd_file_def cur_task_def)

lemma file_parts_files [simp]: "file_parts U H dentry (s\<lparr>vf_files := x\<rparr>) d ino ram buf = file_parts U H dentry s d ino ram buf"
  by (simp add: file_parts_def)

lemma fs_contents_files [simp]: "fs_contents dentry (s\<lparr>vf_files := x\<rparr>) = fs_contents dentry s"
  by (simp add: fs_contents_def file_bytes_def)

lemma fd_okE:
  assumes "fd_ok U H fd s f F"
  obtains d ino ram buf where "file_parts U H (fl_dentry F) s d ino ram buf" "fl_inode F = dn_inode d" "in_ops ino = RAMFS_OPS"
    "fs_contents (fl_dentry F) s = take (unat (in_size ino)) buf" "vf_inodes s (fl_inode F) = Some ino"
    "rm_data ram \<noteq> f" "rm_data ram \<noteq> current_task s"
proof -
  obtain d ino ram buf where p: "file_parts U H (fl_dentry F) s d ino ram buf" "fl_inode F = dn_inode d" "in_ops ino = RAMFS_OPS"
    using assms unfolding fd_ok_def by blast
  obtain k where k: "12 \<le> k" "k \<le> 30" "(rm_data ram, 2 ^ k) \<in> H" and ok: "heap_ok U (vf_heap s) H"
    using p(1) unfolding file_parts_def by metis
  have mem: "(f, SIZEOF_file) \<in> H" "(current_task s, SIZEOF_task) \<in> H" using assms unfolding fd_ok_def by simp_all
  have ne: "f \<noteq> rm_data ram" "current_task s \<noteq> rm_data ram"
    by (rule live_distinct [OF ok mem(1) k(3) cap_large(7) [OF k(1,2)]], rule live_distinct [OF ok mem(2) k(3) cap_large(8) [OF k(1,2)]])
  have "vf_inodes s (fl_inode F) = Some ino" using p unfolding file_parts_def by simp
  then show ?thesis by (rule that [OF p fs_invI [OF p(1), THEN conjunct2] _ ne [symmetric]])
qed

lemma file_parts_unique:
  "file_parts U H x s d ino ram b \<Longrightarrow> file_parts U H x s d' ino' ram' b' \<Longrightarrow> d' = d \<and> ino' = ino \<and> ram' = ram \<and> b' = b"
  by (simp add: file_parts_def)

lemma sint_small:
  assumes "unat (n :: u32) \<le> 2 ^ 30"
  shows "sint n = int (unat n)"
proof -
  have "int (unat n) \<le> int (2 ^ 30)" using assms by (simp only: of_nat_le_iff)
  then have "signed_take_bit 31 (int (unat n)) = int (unat n)" by (intro signed_take_bit_int_eq_self order_trans [OF _ of_nat_0_le_iff]) simp_all
  then show ?thesis by (simp add: sint_uint)
qed

text \<open>Writing: what the file holds, the descriptor's own offset, and the other descriptors of the same file.\<close>

lemma sys_write_shared:
  assumes fd: "fd_ok U H fd s f F" and n: "unat (fl_offset F) + unat sz \<le> 2 ^ 30" and buf: "length buf = unat sz"
  shows "\<exists>r s' H' gap F'. sys_write fd buf sz s = Some (r, s') \<and> length gap = unat (fl_offset F) - length (fs_contents (fl_dentry F) s) \<and>
    (if r = - 1 then F' = F \<and> fs_contents (fl_dentry F) s' = fs_contents (fl_dentry F) s
     else r = int (unat sz) \<and> F' = F\<lparr>fl_offset := fl_offset F + sz\<rparr> \<and>
       fs_contents (fl_dentry F) s' = splice (unat (fl_offset F)) buf (fs_contents (fl_dentry F) s @ gap)) \<and>
    fd_ok U H' fd s' f F' \<and>
    (\<forall>fd2 f2 F2. fd_ok U H fd2 s f2 F2 \<longrightarrow> f2 \<noteq> f \<longrightarrow> fl_dentry F2 = fl_dentry F \<longrightarrow> fd_ok U H' fd2 s' f2 F2)"
proof -
  obtain d ino ram b where p: "file_parts U H (fl_dentry F) s d ino ram b" "fl_inode F = dn_inode d" "in_ops ino = RAMFS_OPS"
    "fs_contents (fl_dentry F) s = take (unat (in_size ino)) b" "vf_inodes s (fl_inode F) = Some ino"
    "rm_data ram \<noteq> f" "rm_data ram \<noteq> current_task s"
    using fd by (rule fd_okE)
  obtain r s1 H' ino' ram' b' gap where w: "ramfs_write (fl_dentry F) (fl_offset F) sz buf s = Some (r, s1)"
      "file_parts U H' (fl_dentry F) s1 d ino' ram' b'" "r = - 1 \<or> r = sz \<and> sz \<noteq> - 1"
      "length gap = unat (fl_offset F) - length (fs_contents (fl_dentry F) s)"
      "take (unat (in_size ino')) b' = (if r = - 1 then fs_contents (fl_dentry F) s
        else splice (unat (fl_offset F)) buf (fs_contents (fl_dentry F) s @ gap))"
      "frame_ok (rm_data ram) H H' s s1" "in_ops ino' = in_ops ino"
    using write_bytes [OF p(1) n buf, folded p(4)] by blast
  note c1 = fs_invI [OF w(2), THEN conjunct2]
  note fr = frame_okD [OF w(6)]
  have mem: "(f, SIZEOF_file) \<in> H" "(current_task s, SIZEOF_task) \<in> H" "vf_files s f = Some F" "fd_file fd s = Some f"
      "f \<noteq> 0" "fl_inode F \<noteq> 0" "fl_flags F AND READ_WRITE \<noteq> 0"
    using fd by (simp_all add: fd_ok_def)
  have f1: "vf_files s1 f = Some F" using fr(3) [OF mem(1) p(6) [symmetric]] mem(3) by simp
  have ct: "current_task s1 = current_task s" "(current_task s, SIZEOF_task) \<in> H'" "(f, SIZEOF_file) \<in> H'"
    using fr(1,5) [OF mem(2) p(7) [symmetric]] fr(1) [OF mem(1) p(6) [symmetric]] by simp_all
  have fdf: "fd_file g s1 = fd_file g s" for g by (rule fd_file_frame [OF w(6) mem(2) p(7) [symmetric]])
  define F' where "F' = (if r = - 1 then F else F\<lparr>fl_offset := fl_offset F + sz\<rparr>)"
  define s' where "s' = s1\<lparr>vf_files := (vf_files s1)(f \<mapsto> F')\<rparr>"
  have "unat sz \<le> 2 ^ 30" using n by simp
  note sz = sint_small [OF this]
  have "sz = 0" if "\<not> sint r > 0" "r \<noteq> - 1"
  proof -
    have "\<not> int (unat sz) > 0" using that w(3) unfolding sz [symmetric] by blast
    then show ?thesis by (simp only: of_nat_0_less_iff neq0_conv [symmetric] not_not unat_eq_0)
  qed
  then have "F' = F" if "\<not> sint r > 0" using that by (cases "r = - 1") (simp_all add: F'_def)
  then have adv: "advance_file f r s1 = Some s'"
    using f1 w(3) by (auto simp: advance_file_def s'_def F'_def fun_upd_triv [of "vf_files s1" f, unfolded f1])
  have r: "sint r = (if r = - 1 then - 1 else int (unat sz))" using w(3) sz by auto
  have "int (unat sz) \<noteq> - 1" by linarith
  then have rm: "sint r = - 1 \<longleftrightarrow> r = - 1" using r by metis
  have "\<not> (fl_flags F AND WRITE_ONLY = 0 \<and> fl_flags F AND READ_WRITE = 0)" using mem(7) by simp
  then have run: "sys_write fd buf sz s = Some (sint r, s')"
    using mem p(3,5) w(1) adv by (simp add: sys_write_def ops_write_def)
  have keep: "fl_inode F' = fl_inode F" "fl_dentry F' = fl_dentry F" "fl_flags F' = fl_flags F" by (simp_all add: F'_def)
  have mine: "fd_ok U H' fd s' f F'"
    unfolding fd_ok_def keep using mem ct fdf w(2,7) p(2,3) by (auto simp: s'_def)
  have other: "fd_ok U H' fd2 s' f2 F2" if "fd_ok U H fd2 s f2 F2" "f2 \<noteq> f" "fl_dentry F2 = fl_dentry F" for fd2 f2 F2
  proof -
    note o = that
    obtain d2 ino2 ram2 b2 where p2: "file_parts U H (fl_dentry F2) s d2 ino2 ram2 b2" "fl_inode F2 = dn_inode d2" "rm_data ram2 \<noteq> f2"
      using o(1) by (rule fd_okE)
    have eq: "d2 = d" "ram2 = ram" using file_parts_unique [OF p(1)] p2(1) that(3) by simp_all
    have m2: "(f2, SIZEOF_file) \<in> H" "vf_files s f2 = Some F2" "fd_file fd2 s = Some f2" "f2 \<noteq> 0" "fl_inode F2 \<noteq> 0"
        "fl_flags F2 AND READ_WRITE \<noteq> 0"
      using that(1) by (simp_all add: fd_ok_def)
    have "f2 \<noteq> rm_data ram" using p2(3) eq(2) by simp
    note k = fr(1,3) [OF m2(1) this]
    show ?thesis unfolding fd_ok_def using m2 k ct(1,2) fdf w(2,7) p(3) p2(2) eq(1) that(2,3) by (auto simp: s'_def)
  qed
  have "fs_contents (fl_dentry F) s' = take (unat (in_size ino')) b'" using c1 by (simp add: s'_def)
  then show ?thesis using run r w(4,5) mine other unfolding rm [symmetric]
    by (intro exI [of _ "sint r"] exI [of _ s'] exI [of _ H'] exI [of _ gap] exI [of _ F']) (auto simp: F'_def rm)
qed

text \<open>Reading returns the bytes of the file in the range and moves the offset past them.\<close>

lemma sys_read_shared:
  assumes fd: "fd_ok U H fd s f F" and n: "unat (fl_offset F) + unat sz \<le> 2 ^ 30"
  defines "bs \<equiv> take (unat sz) (drop (unat (fl_offset F)) (fs_contents (fl_dentry F) s))"
  shows "\<exists>s'. sys_read fd sz s = Some (int (length bs), bs, s') \<and> fs_contents (fl_dentry F) s' = fs_contents (fl_dentry F) s \<and>
    fd_ok U H fd s' f (F\<lparr>fl_offset := fl_offset F + of_nat (length bs)\<rparr>)"
proof -
  obtain d ino ram b where p: "file_parts U H (fl_dentry F) s d ino ram b" "fl_inode F = dn_inode d" "in_ops ino = RAMFS_OPS"
    "fs_contents (fl_dentry F) s = take (unat (in_size ino)) b" "vf_inodes s (fl_inode F) = Some ino"
    using fd by (rule fd_okE)
  have "unat (fl_offset F) + unat sz < 2 ^ 32" using n by (rule le_less_trans) simp
  then have rd: "ramfs_read (fl_dentry F) (fl_offset F) sz s = Some (of_nat (length bs), bs)"
    unfolding bs_def p(4) by (rule read_bytes [OF p(1)])
  have len: "length bs \<le> 2 ^ 30" using n by (simp add: bs_def)
  then have u: "unat (of_nat (length bs) :: u32) = length bs" by (simp add: unat_of_nat)
  have si: "sint (of_nat (length bs) :: u32) = int (length bs)" using sint_small [of "of_nat (length bs)"] len unfolding u by blast
  let ?F = "F\<lparr>fl_offset := fl_offset F + of_nat (length bs)\<rparr>"
  have f: "vf_files s f = Some F" using fd by (simp add: fd_ok_def)
  have adv: "advance_file f (of_nat (length bs)) s = Some (s\<lparr>vf_files := (vf_files s)(f \<mapsto> ?F)\<rparr>)"
    by (cases "bs = []") (simp_all add: advance_file_def si f fun_upd_triv [of "vf_files s" f, unfolded f])
  have "\<not> (fl_flags F AND READ_ONLY = 0 \<and> fl_flags F AND READ_WRITE = 0)" using fd by (simp add: fd_ok_def)
  then have "sys_read fd sz s = Some (int (length bs), bs, s\<lparr>vf_files := (vf_files s)(f \<mapsto> ?F)\<rparr>)"
    using fd p(3,5) rd adv by (simp add: sys_read_def ops_read_def fd_ok_def si)
  moreover have "fd_ok U H fd (s\<lparr>vf_files := (vf_files s)(f \<mapsto> ?F)\<rparr>) f ?F" using fd unfolding fd_ok_def by auto
  ultimately show ?thesis by (intro exI [of _ "s\<lparr>vf_files := (vf_files s)(f \<mapsto> ?F)\<rparr>"]) simp
qed

section \<open>Unlinking\<close>

text \<open>What freeing and unchaining can do to open files and tasks: remove some, change none; an inode that stays keeps
  its operations.\<close>

definition only_removes :: "vfs \<Rightarrow> vfs \<Rightarrow> bool" where
  "only_removes s s' \<longleftrightarrow> vf_files s' \<subseteq>\<^sub>m vf_files s \<and> vf_tasks s' \<subseteq>\<^sub>m vf_tasks s \<and> current_task s' = current_task s \<and>
     (\<forall>i ino'. vf_inodes s' i = Some ino' \<longrightarrow> (\<exists>ino. vf_inodes s i = Some ino \<and> in_ops ino' = in_ops ino))"

lemma only_removes_refl [simp]: "only_removes s s"
  by (simp add: only_removes_def)

lemma only_removes_trans: "only_removes s t \<Longrightarrow> only_removes t u \<Longrightarrow> only_removes s u"
  unfolding only_removes_def by (metis map_le_trans)

lemma map_le_drop: "m(p := None) \<subseteq>\<^sub>m m"
  by (auto simp: map_le_def)

lemma vfree_removes: "vfree p s = Some s' \<Longrightarrow> only_removes s s' \<and> vf_dentries s' p = None"
  by (auto simp: vfree_def only_removes_def map_le_drop split: option.splits if_splits)

lemma unchain_removes:
  assumes "unchain parent bucket target prev cur s = Some s'"
  shows "only_removes s s'"
proof (rule unchain.raw_induct [OF _ assms], goal_cases)
  case (1 un parent bucket target prev cur s s')
  have dn: "only_removes s (s\<lparr>vf_dentries := x\<rparr>)" for x by (simp add: only_removes_def)
  show ?case using 1(2) by (auto simp: Let_def dn split: if_splits option.splits dest: 1(1))
qed

lemma free_inode_removes:
  assumes "free_inode i s = Some s'"
  shows "only_removes s s'"
proof -
  obtain ino s1 where s1: "drop_inode_ref i s = Some s1" "vf_inodes s1 i = Some ino" "only_removes s s1"
    using assms by (auto simp: free_inode_def drop_inode_ref_def only_removes_def split: bind_splits)
  have fin: "only_removes s s'" if "vfree i t = Some s'" "only_removes s1 t" for t
    using that vfree_removes only_removes_trans s1(3) by metis
  show ?thesis
  proof (cases "in_ref_count ino = 0")
    case False
    then show ?thesis using assms s1 by (simp add: free_inode_def)
  next
    case True
    then obtain t where t: "vfree i t = Some s'"
      "(if in_flags ino AND VFS_FILE \<noteq> 0 \<and> in_fs_private ino \<noteq> 0
        then do { ram \<leftarrow> vf_rams s1 (in_fs_private ino); u \<leftarrow> (if rm_data ram \<noteq> 0 then vfree (rm_data ram) s1 else Some s1); vfree (in_fs_private ino) u }
        else Some s1) = Some t"
      using assms s1 by (auto simp: free_inode_def split: bind_splits)
    have "only_removes s1 t"
      using t(2) vfree_removes only_removes_trans only_removes_refl by (fastforce split: if_splits bind_splits)
    then show ?thesis by (rule fin [OF t(1)])
  qed
qed

lemma sys_unlink_removes:
  assumes "sys_unlink (Some path) s = Some (VFS_OK, s')" "vfs_lookup (vf_root s) (Some path) s = Some target" "vf_dentries s target = Some t"
  shows "only_removes s s' \<and> vf_dentries s' target = None \<and> dn_inode t \<noteq> 0"
proof -
  obtain u1 u2 u3 bucket first where "dn_inode t \<noteq> 0" "unchain (dn_parent t) bucket target 0 first s = Some u1" "free_inode (dn_inode t) u1 = Some u2"
    "(if dn_name t \<noteq> 0 then vfree (dn_name t) u2 else Some u2) = Some u3" "vfree target u3 = Some s'"
    using assms by (auto simp: sys_unlink_def VFS_OK_def VFS_ERR_def split: bind_splits if_splits)
  moreover from this(4) have "only_removes u2 u3" using vfree_removes by (auto split: if_splits)
  ultimately show ?thesis using unchain_removes free_inode_removes vfree_removes only_removes_trans by metis
qed

text \<open>A call on a descriptor whose file lost its entry touches what was freed.\<close>

lemma stale_fd:
  assumes r: "only_removes s s'" and gone: "vf_dentries s' (fl_dentry F) = None"
    and fd: "fd_file fd s = Some f" "f \<noteq> 0" "vf_files s f = Some F" "fl_inode F \<noteq> 0" "fl_flags F AND READ_WRITE \<noteq> 0"
    and ino: "vf_inodes s (fl_inode F) = Some ino" "in_ops ino = RAMFS_OPS"
  shows "sys_read fd n s' = None \<and> sys_write fd buf n s' = None"
proof -
  have "fd_file fd s' = None \<or> fd_file fd s' = Some f"
    using r fd(1,2) by (cases "vf_tasks s' (current_task s')") (auto simp: only_removes_def fd_file_def cur_task_def map_le_def dom_def split: if_splits)
  moreover have "vf_files s' f = None \<or> vf_files s' f = Some F"
    using r fd(3) by (cases "vf_files s' f") (auto simp: only_removes_def map_le_def dom_def)
  moreover have "vf_inodes s' (fl_inode F) = None \<or> (\<exists>ino'. vf_inodes s' (fl_inode F) = Some ino' \<and> in_ops ino' = RAMFS_OPS)"
    using r ino by (cases "vf_inodes s' (fl_inode F)") (fastforce simp: only_removes_def)+
  ultimately show ?thesis
    using gone fd(2,4,5) by (auto simp: sys_read_def sys_write_def ops_read_def ops_write_def ramfs_read_def ramfs_write_def)
qed

section \<open>Properties\<close>

text \<open>C36. Two descriptors of one regular file share its bytes and have offsets of their own: a write through the first
  either fails and changes nothing or puts its data at the first's offset, and a read through the second
  returns what the file then holds at the second's offset. Both calls return. The access mode each was opened with
  does not matter, as long as one was given: a descriptor opened for reading only can be written, and one opened
  for writing only can be read.\<close>

theorem descriptors_share_file:
  assumes "fd_ok U H fd s f F" "fd_ok U H fd2 s f2 F2" "f2 \<noteq> f" "fl_dentry F2 = fl_dentry F" "length buf = unat sz"
    and "unat (fl_offset F) + unat sz \<le> 2 ^ 30" "unat (fl_offset F2) + unat n \<le> 2 ^ 30"
  shows "\<exists>r s' new gap bs s''. sys_write fd buf sz s = Some (r, s') \<and>
    (r = - 1 \<and> new = fs_contents (fl_dentry F) s \<or>
     r = int (unat sz) \<and> new = splice (unat (fl_offset F)) buf (fs_contents (fl_dentry F) s @ gap) \<and>
       length gap = unat (fl_offset F) - length (fs_contents (fl_dentry F) s)) \<and>
    bs = take (unat n) (drop (unat (fl_offset F2)) new) \<and> sys_read fd2 n s' = Some (int (length bs), bs, s'') \<and>
    fs_contents (fl_dentry F) s'' = new"
proof -
  obtain r s' H' gap F' where w: "sys_write fd buf sz s = Some (r, s')" "length gap = unat (fl_offset F) - length (fs_contents (fl_dentry F) s)"
    "if r = - 1 then F' = F \<and> fs_contents (fl_dentry F) s' = fs_contents (fl_dentry F) s
     else r = int (unat sz) \<and> F' = F\<lparr>fl_offset := fl_offset F + sz\<rparr> \<and>
       fs_contents (fl_dentry F) s' = splice (unat (fl_offset F)) buf (fs_contents (fl_dentry F) s @ gap)"
    "fd_ok U H' fd2 s' f2 F2"
    using sys_write_shared [OF assms(1,6,5)] assms(2-4) by blast
  define bs where "bs = take (unat n) (drop (unat (fl_offset F2)) (fs_contents (fl_dentry F) s'))"
  obtain s'' where "sys_read fd2 n s' = Some (int (length bs), bs, s'')" "fs_contents (fl_dentry F) s'' = fs_contents (fl_dentry F) s'"
    using sys_read_shared [OF w(4) assms(7)] unfolding bs_def assms(4) by blast
  then show ?thesis using w(1-3)
    by (intro exI [of _ r] exI [of _ s'] exI [of _ "fs_contents (fl_dentry F) s'"] exI [of _ gap] exI [of _ bs] exI [of _ s''])
      (simp add: bs_def split: if_splits)
qed

lemma demo_fds: "fd_ok (block_pages 4 0x10000) demo_live 0 demo_state 0x12060 (demo_file 2)"
  "fd_ok (block_pages 4 0x10000) demo_live 1 demo_state 0x12080 (demo_file 1)"
proof -
  let ?U = "block_pages 4 0x10000"
  have p: "\<exists>d ino ram buf. file_parts ?U demo_live 0x1400C demo_state d ino ram buf \<and> 0x12020 = dn_inode d \<and> in_ops ino = RAMFS_OPS"
    by (intro exI conjI, rule demo_file_parts) simp_all
  have m: "(0x12060, SIZEOF_file) \<in> demo_live" "(0x12080, SIZEOF_file) \<in> demo_live" "(0x1500C, SIZEOF_task) \<in> demo_live"
    by (simp_all add: demo_live_def SIZEOF_file_def SIZEOF_task_def)
  show "fd_ok ?U demo_live 0 demo_state 0x12060 (demo_file 2)" "fd_ok ?U demo_live 1 demo_state 0x12080 (demo_file 1)"
    unfolding fd_ok_def using p m
    by (simp_all add: demo_file_def READ_WRITE_def fd_file_def cur_task_def TASK_MAX_FDS_def) (simp_all add: demo_state_def demo_task_def demo_file_def)
qed

theorem descriptors_share_file_witness:
  "\<exists>r s' bs s''. sys_write 0 [7, 8] 2 demo_state = Some (r, s') \<and> sys_read 1 3 s' = Some (int (length bs), bs, s'') \<and>
     (r = - 1 \<and> bs = [1, 2, 3] \<or> r = 2 \<and> bs = [7, 8, 3])"
proof -
  have c: "fs_contents (fl_dentry (demo_file 2)) demo_state = [1, 2, 3]" using demo_file_contents by (simp add: demo_file_def)
  show ?thesis
    using descriptors_share_file [OF demo_fds, of "[7, 8]" 2 3] unfolding c by (auto simp: demo_file_def splice_def)
qed

text \<open>C38. A file that is unlinked while it is open is lost to its descriptors: the entry they refer to is freed, whatever the
  reference count, so the next read or write through one of them uses freed memory.\<close>

theorem unlink_breaks_descriptors:
  assumes "sys_unlink (Some path) s = Some (VFS_OK, s')" "vfs_lookup (vf_root s) (Some path) s = Some (fl_dentry F)"
    and "fd_ok U H fd s f F"
  shows "sys_read fd n s' = None \<and> sys_write fd buf n s' = None"
proof -
  obtain d ino ram b where p: "file_parts U H (fl_dentry F) s d ino ram b" "fl_inode F = dn_inode d" "in_ops ino = RAMFS_OPS"
    "vf_inodes s (fl_inode F) = Some ino"
    using assms(3) by (rule fd_okE)
  have "vf_dentries s (fl_dentry F) = Some d" using p(1) by (simp add: file_parts_def)
  from sys_unlink_removes [OF assms(1,2) this] have "only_removes s s'" "vf_dentries s' (fl_dentry F) = None" by blast+
  then show ?thesis using assms(3) p(3,4) by (intro stale_fd [of s s' F fd f ino]) (simp_all add: fd_ok_def)
qed

lemma vfree_live:
  assumes "heap_ok U (vf_heap s) H" "(p, n) \<in> H"
  shows "\<exists>s'. vfree p s = Some s' \<and> heap_ok U (vf_heap s') (H - {(p, n)})"
  using kfree_ok [OF assms] by (auto simp: vfree_def)

lemma demo_unlink:
  "\<exists>s'. sys_unlink (Some [47, 102]) demo_state = Some (VFS_OK, s')"
  "vfs_lookup (vf_root demo_state) (Some [47, 102]) demo_state = Some 0x1400C"
proof -
  have hash: "dentry_hash [102] = 6" by (simp add: dentry_hash_def DENTRY_HASH_def)
  have "resolve_segment 0x1300C [102] demo_state = Some 0x1400C"
    by (simp add: resolve_segment_def hash demo_state_def zero_dentry_def DENTRY_HASH_def demo_inode_def VFS_DIR_def chain_find.simps)
  then show lk: "vfs_lookup (vf_root demo_state) (Some [47, 102]) demo_state = Some 0x1400C"
    using resolve_last(2) [of "[102]" "0x1300C" demo_state]
    by (simp add: vfs_lookup_def vfs_resolve_path_def vfs_follow_mount_def) (simp add: demo_state_def zero_dentry_def)
  have un: "\<exists>x. unchain 0x1300C 6 0x1400C 0 0x1400C demo_state = Some (demo_state\<lparr>vf_dentries := x\<rparr>)"
    by (subst unchain.simps) (auto simp: demo_state_def)
  then obtain x where x: "unchain 0x1300C 6 0x1400C 0 0x1400C demo_state = Some (demo_state\<lparr>vf_dentries := x\<rparr>)" by blast
  define s1 where "s1 = demo_state\<lparr>vf_dentries := x\<rparr>"
  obtain s2 where s2: "free_inode 0x12020 s1 = Some s2" "vf_heap s2 = demo_heap"
    by (simp add: free_inode_def drop_inode_ref_def s1_def demo_state_def demo_inode_def)
  obtain s3 where s3: "vfree 0x120A0 s2 = Some s3" "heap_ok (block_pages 4 0x10000) (vf_heap s3) (demo_live - {(0x120A0, 2)})"
    using vfree_live [of _ s2 demo_live "0x120A0" 2] demo_heap_ok s2(2) by (auto simp: demo_live_def)
  obtain s4 where s4: "vfree 0x1400C s3 = Some s4" using vfree_live [OF s3(2), of "0x1400C" 160] by (auto simp: demo_live_def)
  show "\<exists>s'. sys_unlink (Some [47, 102]) demo_state = Some (VFS_OK, s')"
    using lk x [folded s1_def] s2(1) s3(1) s4 hash
    by (simp add: sys_unlink_def) (simp add: demo_state_def zero_dentry_def DENTRY_HASH_def demo_inode_def VFS_FILE_def VFS_DIR_def)
qed

theorem unlink_breaks_descriptors_witness:
  "\<exists>s'. sys_unlink (Some [47, 102]) demo_state = Some (VFS_OK, s') \<and> sys_read 1 3 s' = None"
proof -
  obtain s' where s': "sys_unlink (Some [47, 102]) demo_state = Some (VFS_OK, s')" using demo_unlink(1) by blast
  have "vfs_lookup (vf_root demo_state) (Some [47, 102]) demo_state = Some (fl_dentry (demo_file 1))"
    using demo_unlink(2) by (simp add: demo_file_def)
  from unlink_breaks_descriptors [OF s' this demo_fds(2)] s' show ?thesis by blast
qed

end
