(* ===== verification/Cstring.thy ===== *)
theory Cstring
  imports Prelude "HOL-Library.Monad_Syntax"
begin

text \<open>
  The string library, \<^verbatim>\<open>Lib/string.c\<close>. A C string is the list of its bytes without the final 0, so it has no byte 0 in
  it; a buffer that is written is the list of all its bytes. A result \<open>None\<close> is an access outside a buffer
  or a signed overflow. \<^verbatim>\<open>strdup\<close>, which allocates, is in theory Kstate.
\<close>

section \<open>Model\<close>

abbreviation cstring :: "bytes \<Rightarrow> bool" where "cstring s \<equiv> 0 \<notin> set s"

definition memset :: "bytes \<Rightarrow> u8 \<Rightarrow> u32 \<Rightarrow> bytes option" where
  "memset dest value sz = (if unat sz > length dest then None else Some (replicate (unat sz) value @ drop (unat sz) dest))"

definition memcpy :: "bytes \<Rightarrow> bytes \<Rightarrow> u32 \<Rightarrow> bytes option" where
  "memcpy dest src sz =
     (if unat sz > length dest \<or> unat sz > length src then None else Some (take (unat sz) src @ drop (unat sz) dest))"

fun memcmp_loop :: "bytes \<Rightarrow> bytes \<Rightarrow> nat \<Rightarrow> int option" where
  "memcmp_loop pa pb 0 = Some 0"
| "memcmp_loop (a # pa) (b # pb) (Suc n) = (if a \<noteq> b then Some (uint a - uint b) else memcmp_loop pa pb n)"
| "memcmp_loop _ _ (Suc n) = None"

definition memcmp :: "bytes \<Rightarrow> bytes \<Rightarrow> u32 \<Rightarrow> int option" where
  "memcmp a b sz = memcmp_loop a b (unat sz)"

text \<open>The position found, or no position.\<close>

fun strchr :: "bytes \<Rightarrow> u8 \<Rightarrow> nat option" where
  "strchr [] c = (if c = 0 then Some 0 else None)"
| "strchr (x # xs) c = (if x = c then Some 0 else map_option Suc (strchr xs c))"

definition strncat :: "bytes \<Rightarrow> bytes \<Rightarrow> nat \<Rightarrow> bytes option" where
  "strncat dest src n =
     (let d = takeWhile (\<lambda>c. c \<noteq> 0) dest; t = d @ take n src
      in if length d = length dest \<or> length t \<ge> length dest then None else Some (t @ 0 # drop (Suc (length t)) dest))"

definition strlen :: "bytes \<Rightarrow> u32" where
  "strlen str = of_nat (length str)"

definition strcpy :: "bytes \<Rightarrow> bytes \<Rightarrow> bytes option" where
  "strcpy dest src = (if length src \<ge> length dest then None else Some (src @ 0 # drop (Suc (length src)) dest))"

definition strncpy :: "bytes \<Rightarrow> bytes \<Rightarrow> int \<Rightarrow> bytes option" where
  "strncpy dest src len =
     (if len \<le> 0 then Some dest
      else let t = take (nat len - 1) src
        in if length t \<ge> length dest then None else Some (t @ 0 # drop (Suc (length t)) dest))"

fun strcmp :: "bytes \<Rightarrow> bytes \<Rightarrow> int" where
  "strcmp [] [] = 0"
| "strcmp [] (b # bs) = - uint b"
| "strcmp (a # as) [] = uint a"
| "strcmp (a # as) (b # bs) = (if a = b then strcmp as bs else uint a - uint b)"

fun strncmp :: "bytes \<Rightarrow> bytes \<Rightarrow> nat \<Rightarrow> int" where
  "strncmp str1 str2 0 = 0"
| "strncmp str1 str2 (Suc n) =
     (let c1 = (case str1 of [] \<Rightarrow> 0 | a # _ \<Rightarrow> a); c2 = (case str2 of [] \<Rightarrow> 0 | b # _ \<Rightarrow> b)
      in if c1 \<noteq> c2 then uint c1 - uint c2 else if c1 = 0 then 0 else strncmp (tl str1) (tl str2) n)"

definition hex_digit :: "u8 \<Rightarrow> u32 option" where
  "hex_digit c =
     (if 48 \<le> c \<and> c \<le> 57 then Some (ucast c - 48)
      else if 97 \<le> c \<and> c \<le> 102 then Some (10 + (ucast c - 97))
      else if 65 \<le> c \<and> c \<le> 70 then Some (10 + (ucast c - 65))
      else None)"

fun parse_hex_loop :: "u32 \<Rightarrow> bytes \<Rightarrow> u32" where
  "parse_hex_loop val [] = val"
| "parse_hex_loop val (c # cs) =
     (case hex_digit c of None \<Rightarrow> val | Some digit \<Rightarrow> parse_hex_loop (push_bit 4 val OR digit) cs)"

fun parse_hex :: "bytes \<Rightarrow> u32" where
  "parse_hex (c # x # cs) =
     (if c = 48 \<and> (x = 120 \<or> x = 88) then parse_hex_loop 0 cs else parse_hex_loop 0 (c # x # cs))"
| "parse_hex cs = parse_hex_loop 0 cs"

fun katoi_loop :: "int \<Rightarrow> bytes \<Rightarrow> int option" where
  "katoi_loop result [] = Some result"
| "katoi_loop result (c # cs) =
     (if 48 \<le> c \<and> c \<le> 57
      then let r = result * 10 + (uint c - 48) in if r \<ge> 2 ^ 31 then None else katoi_loop r cs
      else Some result)"

definition katoi :: "bytes \<Rightarrow> int option" where
  "katoi str =
     (let s = dropWhile (\<lambda>c. c = 32) str
      in if s \<noteq> [] \<and> hd s = 45 then map_option uminus (katoi_loop 0 (tl s))
         else if s \<noteq> [] \<and> hd s = 43 then katoi_loop 0 (tl s)
         else katoi_loop 0 s)"

section \<open>Comparison\<close>

lemma uint_eq_iff [simp]: "uint (a :: u8) = uint b \<longleftrightarrow> a = b"
  by (simp add: word_uint_eq_iff)

text \<open>Strings compare equal exactly when they are the same.\<close>

lemma strcmp_eq: "cstring a \<Longrightarrow> cstring b \<Longrightarrow> strcmp a b = 0 \<longleftrightarrow> a = b"
  by (induction a b rule: strcmp.induct) (auto simp: unsigned_eq_0_iff)

lemma strcmp_antisym: "strcmp b a = - strcmp a b"
  by (induction a b rule: strcmp.induct) auto

lemma strncmp_eq: "cstring a \<Longrightarrow> cstring b \<Longrightarrow> strncmp a b n = 0 \<longleftrightarrow> take n a = take n b"
proof (induction n arbitrary: a b)
  case (Suc n)
  show ?case
  proof (cases a)
    case Nil
    then show ?thesis using Suc.prems by (cases b) (auto simp: unsigned_eq_0_iff)
  next
    case (Cons x xs)
    then show ?thesis using Suc by (cases b) (auto simp: unsigned_eq_0_iff)
  qed
qed simp

end
