(* ===== verification/Devfs.thy ===== *)
theory Devfs
  imports Vfs_Paths Cstring
begin

text \<open>
  The table of devices and the directory that shows them, \<^verbatim>\<open>kernel/Dev/dev.c\<close>, and the terminal's entry in it,
  \<^verbatim>\<open>Drivers/tty.c\<close>. The table is the list of its entries in use, each the address of a name and of an inode. The
  addresses of string literals are arguments.
\<close>

section \<open>Model\<close>

definition MAX_DEVICES :: nat where "MAX_DEVICES = 64"

definition dev_name :: bytes where "dev_name = [100, 101, 118]"
definition tty_name :: bytes where "tty_name = [116, 116, 121]"

definition zero_inode :: inode_t where
  "zero_inode = \<lparr>in_size = 0, in_flags = 0, in_ref_count = 0, in_ops = NO_OPS, in_fs_private = 0, in_created_tick = 0, in_created_pid = 0\<rparr>"

definition devfs_init :: "u32 \<Rightarrow> vfs \<Rightarrow> vfs option" where
  "devfs_init lit s = do {
     (root, s) \<leftarrow> valloc SIZEOF_dentry s;
     if root = 0 then None
     else do {
       (ino, s) \<leftarrow> valloc SIZEOF_inode s;
       if ino = 0 then None
       else hash_insert (vf_root s) root dev_name
         (s\<lparr>devfs_root := root, vf_strings := (vf_strings s)(lit \<mapsto> dev_name),
            vf_inodes := (vf_inodes s)(ino \<mapsto> zero_inode\<lparr>in_flags := VFS_DIR\<rparr>),
            vf_dentries := (vf_dentries s)(root \<mapsto> zero_dentry\<lparr>dn_name := lit, dn_inode := ino, dn_parent := vf_root s\<rparr>)\<rparr>) } }"

text \<open>The scan of the table; the inode of the first entry that matches, or 0.\<close>

fun devfs_scan :: "(bytes \<Rightarrow> bool) \<Rightarrow> (u32 \<times> u32) list \<Rightarrow> vfs \<Rightarrow> u32 option" where
  "devfs_scan matches [] s = Some 0"
| "devfs_scan matches ((nm, inode) # table) s =
     (case vf_strings s nm of None \<Rightarrow> None | Some str \<Rightarrow> if matches str then Some inode else devfs_scan matches table s)"

definition devfs_register :: "bytes option \<Rightarrow> u32 \<Rightarrow> vfs \<Rightarrow> (int \<times> vfs) option" where
  "devfs_register name_ptr inode s = (case name_ptr of None \<Rightarrow> Some (VFS_ERR, s) | Some name \<Rightarrow>
     if inode = 0 \<or> length (devfs_table s) \<ge> MAX_DEVICES then Some (VFS_ERR, s)
     else do {
       found \<leftarrow> devfs_scan (\<lambda>str. match_seg str name (length name)) (devfs_table s) s;
       if found \<noteq> 0 then Some (VFS_ERR, s)
       else do {
         (dup, s) \<leftarrow> strdup name s;
         if dup = 0 then Some (VFS_ERR, s)
         else do {
           let s = s\<lparr>devfs_table := devfs_table s @ [(dup, inode)]\<rparr>;
           if devfs_root s = 0 then Some (VFS_OK, s)
           else do {
             (d, s) \<leftarrow> valloc SIZEOF_dentry s;
             if d = 0 then None
             else do {
               (nm, s) \<leftarrow> strdup name s;
               let s = s\<lparr>vf_dentries := (vf_dentries s)(d \<mapsto> zero_dentry\<lparr>dn_name := nm, dn_inode := inode, dn_parent := devfs_root s\<rparr>)\<rparr>;
               s \<leftarrow> hash_insert (devfs_root s) d name s;
               Some (VFS_OK, s) } } } } })"

definition devfs_get :: "bytes option \<Rightarrow> vfs \<Rightarrow> u32 option" where
  "devfs_get name_ptr s =
     (case name_ptr of None \<Rightarrow> Some 0 | Some name \<Rightarrow> devfs_scan (\<lambda>str. strcmp str name = 0) (devfs_table s) s)"

definition tty_init :: "vfs \<Rightarrow> vfs option" where
  "tty_init s = do {
     (ino, s) \<leftarrow> valloc SIZEOF_inode s;
     if ino = 0 then None
     else do {
       (r, s) \<leftarrow> devfs_register (Some tty_name) ino
         (s\<lparr>vf_inodes := (vf_inodes s)(ino \<mapsto> zero_inode\<lparr>in_flags := VFS_DEVICE, in_ops := TTY_OPS\<rparr>)\<rparr>);
       Some s } }"

section \<open>The two ways of comparing names agree\<close>

lemma devfs_scan_eq:
  "cstring name \<Longrightarrow> list_all (\<lambda>(nm, i). \<exists>str. vf_strings s nm = Some str \<and> cstring str) table \<Longrightarrow>
    devfs_scan (\<lambda>str. strcmp str name = 0) table s = devfs_scan (\<lambda>str. match_seg str name (length name)) table s"
  by (induction table) (auto simp: strcmp_eq match_seg_eq)

end
