(* ===== verification/Task.thy ===== *)
theory Task
  imports Devfs
begin

text \<open>
  Tasks, \<^verbatim>\<open>kernel/Process/task.c\<close>: creation, the ready queue, the choice of the next task, exit and reaping, and the automatic
  quarantine of \<^verbatim>\<open>kernel/Process/Quarantine\<close>. The page directory in use, the entry of the shell and the return stub are
  arguments; switching stacks and loading \<^verbatim>\<open>cr3\<close> have no counterpart, so that \<open>schedule\<close> is its effect on the
  task structures. Address spaces are not part of this state: \<open>sys_exit\<close> leaves out their release, and a call that
  makes one takes its result as an argument.
\<close>

section \<open>Model\<close>

definition O_CLOEXEC :: u32 where "O_CLOEXEC = 0x08"
definition KSTACK_BYTES :: nat where "KSTACK_BYTES = 4096"
definition KSTACK_PAINT :: u8 where "KSTACK_PAINT = 0xA5"
definition TASK_NAME_LEN :: nat where "TASK_NAME_LEN = 16"

definition task_upd :: "u32 \<Rightarrow> (task_t \<Rightarrow> task_t) \<Rightarrow> vfs \<Rightarrow> vfs option" where
  "task_upd task f s = (case vf_tasks s task of None \<Rightarrow> None | Some t \<Rightarrow> Some (s\<lparr>vf_tasks := (vf_tasks s)(task \<mapsto> f t)\<rparr>))"

text \<open>A name as \<^verbatim>\<open>strncpy\<close> leaves it.\<close>

definition set_name :: "bytes \<Rightarrow> task_t \<Rightarrow> task_t" where
  "set_name name t = t\<lparr>tk_name := take (TASK_NAME_LEN - 1) name\<rparr>"

definition inode_ref :: "u32 \<Rightarrow> vfs \<Rightarrow> vfs option" where
  "inode_ref i s = do { ino \<leftarrow> vf_inodes s i; Some (s\<lparr>vf_inodes := (vf_inodes s)(i \<mapsto> ino\<lparr>in_ref_count := in_ref_count ino + 1\<rparr>)\<rparr>) }"

text \<open>The counts that inheriting the descriptors raises.\<close>

fun inherit_refs :: "u32 list \<Rightarrow> vfs \<Rightarrow> vfs option" where
  "inherit_refs [] s = Some s"
| "inherit_refs (f # fs) s =
     (if f = 0 then inherit_refs fs s
      else do {
        F \<leftarrow> vf_files s f;
        let s = s\<lparr>vf_files := (vf_files s)(f \<mapsto> F\<lparr>fl_ref_count := fl_ref_count F + 1\<rparr>)\<rparr>;
        s \<leftarrow> (if fl_inode F \<noteq> 0 then inode_ref (fl_inode F) s else Some s);
        inherit_refs fs s })"

definition task_inherit_fds :: "u32 \<Rightarrow> u32 \<Rightarrow> vfs \<Rightarrow> vfs option" where
  "task_inherit_fds child parent s = do {
     p \<leftarrow> vf_tasks s parent;
     s \<leftarrow> task_upd child (\<lambda>t. t\<lparr>tk_fd_table := tk_fd_table p\<rparr>) s;
     inherit_refs (tk_fd_table p) s }"

definition task_register_all :: "u32 \<Rightarrow> vfs \<Rightarrow> vfs option" where
  "task_register_all task s =
     (if task = 0 then Some s
      else do { s \<leftarrow> task_upd task (\<lambda>t. t\<lparr>tk_all_next := all_tasks s\<rparr>) s; Some (s\<lparr>all_tasks := task\<rparr>) })"

subsection \<open>Kernel stacks\<close>

definition le32 :: "u32 \<Rightarrow> bytes" where
  "le32 w = [ucast w, ucast (drop_bit 8 w), ucast (drop_bit 16 w), ucast (drop_bit 24 w)]"

definition kstack_paint :: "u32 \<Rightarrow> vfs \<Rightarrow> vfs" where
  "kstack_paint base s = s\<lparr>vf_buffers := (vf_buffers s)(base \<mapsto> replicate KSTACK_BYTES KSTACK_PAINT)\<rparr>"

text \<open>The words pushed from the top, the first one highest.\<close>

definition initial_words :: "u32 \<Rightarrow> u32 \<Rightarrow> u32 \<Rightarrow> u32 \<Rightarrow> u32 \<Rightarrow> u32 list" where
  "initial_words trap_return entry_point cs ss user_esp =
     [ss, user_esp, 0x202, cs, entry_point, 0, 0, 0, 0, 0, 0, 0, 0, 0, 0, ss, trap_return, 0x202, 0, 0, 0, 0]"

definition build_initial_stack :: "u32 \<Rightarrow> u32 \<Rightarrow> u32 \<Rightarrow> u32 \<Rightarrow> u32 \<Rightarrow> u32 \<Rightarrow> vfs \<Rightarrow> (u32 \<times> vfs) option" where
  "build_initial_stack trap_return stack_base entry_point cs ss user_esp s = do {
     buf \<leftarrow> vf_buffers s stack_base;
     let ws = initial_words trap_return entry_point cs ss user_esp;
     let n = KSTACK_BYTES - 4 * length ws;
     Some (stack_base + of_nat n, s\<lparr>vf_buffers := (vf_buffers s)(stack_base \<mapsto> take n buf @ concat (map le32 (rev ws)))\<rparr>) }"

definition task_stack_peak_used :: "u32 \<Rightarrow> vfs \<Rightarrow> nat option" where
  "task_stack_peak_used task s =
     (if task = 0 then Some 0
      else do {
        t \<leftarrow> vf_tasks s task;
        if tk_kernel_stack_base t = 0 then Some 0
        else do {
          p \<leftarrow> vf_buffers s (tk_kernel_stack_base t);
          Some (KSTACK_BYTES - length (takeWhile (\<lambda>b. b = KSTACK_PAINT) (take KSTACK_BYTES p))) } })"

subsection \<open>Creation\<close>

definition open_tty :: "u32 \<Rightarrow> u32 \<Rightarrow> u32 \<Rightarrow> vfs \<Rightarrow> (u32 \<times> vfs) option" where
  "open_tty tty flags dentry s = do {
     (f, s) \<leftarrow> valloc SIZEOF_file s;
     if f = 0 then None
     else Some (f, s\<lparr>vf_files := (vf_files s)(f \<mapsto> \<lparr>fl_inode = tty, fl_dentry = dentry, fl_ref_count = 1, fl_flags = flags, fl_offset = 0\<rparr>)\<rparr>) }"

text \<open>The three standard descriptors; the entry of the third is never set, so it is what memory held, \<open>stale\<close>.\<close>

definition open_std :: "u32 \<Rightarrow> u32 \<Rightarrow> vfs \<Rightarrow> (u32 list \<times> vfs) option" where
  "open_std tty stale s =
     (if tty = 0 then Some (replicate TASK_MAX_FDS 0, s)
      else do {
        (f0, s) \<leftarrow> open_tty tty READ_ONLY 0 s;
        (f1, s) \<leftarrow> open_tty tty WRITE_ONLY 0 s;
        (f2, s) \<leftarrow> open_tty tty WRITE_ONLY stale s;
        Some (f0 # f1 # f2 # replicate (TASK_MAX_FDS - 3) 0, s) })"

definition init_tasking :: "u32 \<Rightarrow> u32 \<Rightarrow> u32 \<Rightarrow> u32 \<Rightarrow> u32 \<Rightarrow> vfs \<Rightarrow> vfs option" where
  "init_tasking now cr3 trap_return shell_start stale s = do {
     (t, s) \<leftarrow> valloc SIZEOF_task s;
     if t = 0 then Some (s\<lparr>current_task := 0\<rparr>)
     else do {
       let pid = next_pid s;
       let s = s\<lparr>current_task := t, next_pid := pid + 1,
             vf_tasks := (vf_tasks s)(t \<mapsto> set_name [115, 104, 101, 108, 108]
               (zero_task\<lparr>tk_pid := word_of_int pid, tk_state := TASK_RUNNING, tk_cwd := vf_root s\<rparr>))\<rparr>;
       tty \<leftarrow> devfs_get (Some tty_name) s;
       (fds, s) \<leftarrow> open_std tty stale s;
       s \<leftarrow> task_upd t (\<lambda>x. x\<lparr>tk_fd_table := fds\<rparr>) s;
       (stack_base, s) \<leftarrow> valloc 4096 s;
       if stack_base = 0 then do { s \<leftarrow> vfree t s; Some (s\<lparr>current_task := 0\<rparr>) }
       else do {
         let s = kstack_paint stack_base s;
         (esp, s) \<leftarrow> build_initial_stack trap_return stack_base shell_start 0x08 0x10 (stack_base + 4096) s;
         s \<leftarrow> task_upd t (\<lambda>x. x\<lparr>tk_context_esp := esp, tk_cr3 := cr3, tk_eip := shell_start, tk_kernel_stack := stack_base + 4096,
                tk_kernel_stack_base := stack_base, tk_is_user := False, tk_first_run := 1, tk_next := t\<rparr>) s;
         s \<leftarrow> task_register_all t (s\<lparr>ready_queue := t\<rparr>);
         task_log_event now t EVT_CREATED 0 s } } }"

definition create_process :: "u32 \<Rightarrow> u32 \<Rightarrow> u32 \<Rightarrow> u32 \<Rightarrow> u32 \<Rightarrow> vfs \<Rightarrow> (u32 \<times> vfs) option" where
  "create_process cr3 trap_return entry_point page_dir user_stack_top s = do {
     (t, s) \<leftarrow> valloc SIZEOF_task s;
     if t = 0 then Some (0, s)
     else do {
       let pid = next_pid s;
       let s = s\<lparr>next_pid := pid + 1, vf_tasks := (vf_tasks s)(t \<mapsto>
             zero_task\<lparr>tk_pid := word_of_int pid, tk_state := TASK_READY, tk_parent := current_task s, tk_first_run := 1\<rparr>)\<rparr>;
       (stack_base, s) \<leftarrow> valloc 4096 s;
       if stack_base = 0 then do { s \<leftarrow> vfree t s; Some (0, s) }
       else do {
         let s = kstack_paint stack_base s;
         let stack_top = stack_base + 4096;
         (esp, s) \<leftarrow> build_initial_stack trap_return stack_base entry_point (if page_dir \<noteq> 0 then 0x1B else 0x08)
                (if page_dir \<noteq> 0 then 0x23 else 0x10) (if page_dir \<noteq> 0 then user_stack_top else stack_top) s;
         s \<leftarrow> task_upd t (\<lambda>x. x\<lparr>tk_context_esp := esp, tk_cr3 := (if page_dir \<noteq> 0 then page_dir else cr3), tk_eip := entry_point,
                tk_kernel_stack := stack_top, tk_kernel_stack_base := stack_base, tk_is_user := (page_dir \<noteq> 0)\<rparr>) s;
         s \<leftarrow> task_inherit_fds t (current_task s) s;
         s \<leftarrow> task_register_all t s;
         Some (t, s) } } }"

subsection \<open>The ready queue\<close>

text \<open>The walk to the task whose successor is \<open>stop\<close>.\<close>

partial_function (option) ring_before :: "vfs \<Rightarrow> u32 \<Rightarrow> u32 \<Rightarrow> u32 option" where
  "ring_before s stop temp =
     (case vf_tasks s temp of None \<Rightarrow> None | Some t \<Rightarrow> if tk_next t = stop then Some temp else ring_before s stop (tk_next t))"

definition task_add_ready :: "u32 \<Rightarrow> vfs \<Rightarrow> vfs option" where
  "task_add_ready task s =
     (if task = 0 then Some s
      else do {
        s \<leftarrow> task_upd task (\<lambda>t. t\<lparr>tk_state := TASK_READY\<rparr>) s;
        if ready_queue s = 0 then task_upd task (\<lambda>t. t\<lparr>tk_next := task\<rparr>) (s\<lparr>ready_queue := task\<rparr>)
        else do {
          temp \<leftarrow> ring_before s (ready_queue s) (ready_queue s);
          s \<leftarrow> task_upd temp (\<lambda>t. t\<lparr>tk_next := task\<rparr>) s;
          task_upd task (\<lambda>t. t\<lparr>tk_next := ready_queue s\<rparr>) s } })"

text \<open>The walk of \<^verbatim>\<open>task_remove_ready\<close>: it stops before the task or after a full round.\<close>

partial_function (option) remove_walk :: "vfs \<Rightarrow> u32 \<Rightarrow> u32 \<Rightarrow> u32 option" where
  "remove_walk s task temp =
     (case vf_tasks s temp of
        None \<Rightarrow> None
      | Some t \<Rightarrow>
          if tk_next t = task then Some temp
          else case vf_tasks s (tk_next t) of
            None \<Rightarrow> None
          | Some u \<Rightarrow> if tk_next u \<noteq> ready_queue s then remove_walk s task (tk_next t) else Some (tk_next t))"

definition task_remove_ready :: "u32 \<Rightarrow> u32 \<Rightarrow> vfs \<Rightarrow> vfs option" where
  "task_remove_ready now task s =
     (if task = 0 \<or> ready_queue s = 0 then Some s
      else do {
        s \<leftarrow> task_log_event now task EVT_BLOCKED 0 s;
        s \<leftarrow> task_upd task (\<lambda>t. t\<lparr>tk_state := TASK_BLOCKED\<rparr>) s;
        q \<leftarrow> vf_tasks s (ready_queue s);
        if ready_queue s = task \<and> tk_next q = ready_queue s then Some (s\<lparr>ready_queue := 0\<rparr>)
        else do {
          temp \<leftarrow> remove_walk s task (ready_queue s);
          p \<leftarrow> vf_tasks s temp;
          if tk_next p \<noteq> task then Some s
          else do {
            t \<leftarrow> vf_tasks s task;
            s \<leftarrow> task_upd temp (\<lambda>x. x\<lparr>tk_next := tk_next t\<rparr>) s;
            t \<leftarrow> vf_tasks s task;
            Some (if ready_queue s = task then s\<lparr>ready_queue := tk_next t\<rparr> else s) } } })"

definition task_wake :: "u32 \<Rightarrow> u32 \<Rightarrow> vfs \<Rightarrow> vfs option" where
  "task_wake now task s =
     (if task = 0 then Some s
      else do { s \<leftarrow> task_log_event now task EVT_WOKE 0 s; task_upd task (\<lambda>t. t\<lparr>tk_state := TASK_READY\<rparr>) s })"

definition task_create_kernel :: "u32 \<Rightarrow> u32 \<Rightarrow> u32 \<Rightarrow> vfs \<Rightarrow> (u32 \<times> vfs) option" where
  "task_create_kernel cr3 trap_return entry_point s = do {
     (t, s) \<leftarrow> create_process cr3 trap_return entry_point 0 0 s;
     if t = 0 then Some (0, s)
     else do {
       s \<leftarrow> task_upd t (set_name [107, 101, 114, 110, 101, 108]) s;
       s \<leftarrow> task_add_ready t s;
       Some (t, s) } }"

text \<open>The loop of \<^verbatim>\<open>pick_next_task\<close>, at most \<open>guard\<close> rounds: the task to return, or the fallback when the loop ends.\<close>

fun next_loop :: "nat \<Rightarrow> u32 \<Rightarrow> u32 \<Rightarrow> u32 \<Rightarrow> vfs \<Rightarrow> (u32 + u32) option" where
  "next_loop 0 start temp fallback s = Some (Inr fallback)"
| "next_loop (Suc guard) start temp fallback s =
     (case vf_tasks s temp of
        None \<Rightarrow> None
      | Some t \<Rightarrow>
          if tk_state t = TASK_READY \<and> temp \<noteq> current_task s then Some (Inl temp)
          else let fb = (if fallback = 0 \<and> tk_state t = TASK_READY then temp else fallback)
            in if tk_next t = 0 \<or> tk_next t = start then Some (Inr fb) else next_loop guard start (tk_next t) fb s)"

definition pick_next_task :: "vfs \<Rightarrow> u32 option" where
  "pick_next_task s =
     (if ready_queue s = 0 then Some 0
      else do {
        start \<leftarrow> (if current_task s = 0 then Some (ready_queue s)
                 else do { c \<leftarrow> cur_task s; Some (if tk_next c \<noteq> 0 then tk_next c else ready_queue s) });
        r \<leftarrow> next_loop 0xFFFF start start 0 s;
        case r of
          Inl t \<Rightarrow> Some t
        | Inr fallback \<Rightarrow>
            if current_task s = 0 then Some fallback
            else do { c \<leftarrow> cur_task s; Some (if tk_state c = TASK_READY then current_task s else fallback) } })"

definition schedule :: "vfs \<Rightarrow> vfs option" where
  "schedule s = do {
     nxt \<leftarrow> pick_next_task s;
     let prev = current_task s;
     if nxt = 0 \<or> nxt = prev \<or> prev = 0 then Some s
     else do {
       s \<leftarrow> task_upd prev (\<lambda>t. if tk_state t = TASK_RUNNING then t\<lparr>tk_state := TASK_READY\<rparr> else t) s;
       s \<leftarrow> task_upd nxt (\<lambda>t. t\<lparr>tk_state := TASK_RUNNING\<rparr>) s;
       Some (s\<lparr>current_task := nxt\<rparr>) } }"

definition switch_to_task_state :: "u32 \<Rightarrow> task_state_t \<Rightarrow> vfs \<Rightarrow> vfs option" where
  "switch_to_task_state target leave_prev_as s =
     (let prev = current_task s
      in if target = 0 \<or> prev = 0 \<or> target = prev then Some s
         else do {
           s \<leftarrow> task_upd prev (\<lambda>t. t\<lparr>tk_state := leave_prev_as\<rparr>) s;
           s \<leftarrow> task_upd target (\<lambda>t. t\<lparr>tk_state := TASK_RUNNING\<rparr>) s;
           Some (s\<lparr>current_task := target\<rparr>) })"

subsection \<open>Exit and reaping\<close>

fun close_all :: "nat list \<Rightarrow> u32 \<Rightarrow> vfs \<Rightarrow> vfs option" where
  "close_all [] dead s = Some s"
| "close_all (i # is) dead s = do {
     d \<leftarrow> vf_tasks s dead;
     s \<leftarrow> (if tk_fd_table d ! i \<noteq> 0 then map_option snd (sys_close (int i) s) else Some s);
     close_all is dead s }"

text \<open>The result tells whether the machine goes on, with another task, or is halted.\<close>

definition sys_exit :: "u32 \<Rightarrow> int \<Rightarrow> vfs \<Rightarrow> (bool \<times> vfs) option" where
  "sys_exit now status s =
     (let dead = current_task s
      in if dead = 0 then Some (True, s)
         else do {
           s \<leftarrow> task_log_event now dead EVT_EXITED (word_of_int status) s;
           s \<leftarrow> task_upd dead (\<lambda>t. t\<lparr>tk_destroy_time := now, tk_exit_code := status, tk_state := TASK_ZOMBIE\<rparr>) s;
           d \<leftarrow> vf_tasks s dead;
           s \<leftarrow> task_log_event now (tk_parent d) EVT_CHILD_DIED (tk_pid d) s;
           s \<leftarrow> close_all [0..<32] dead s;
           d \<leftarrow> vf_tasks s dead;
           if tk_next d = dead then Some (False, s)
           else do {
             temp \<leftarrow> ring_before s dead (ready_queue s);
             s \<leftarrow> task_upd temp (\<lambda>t. t\<lparr>tk_next := tk_next d\<rparr>) s;
             let s = (if ready_queue s = dead then s\<lparr>ready_queue := tk_next d\<rparr> else s);
             s \<leftarrow> (if tk_parent d = 0 then Some s
                  else task_upd (tk_parent d) (\<lambda>t. if tk_state t = TASK_BLOCKED then t\<lparr>tk_state := TASK_READY\<rparr> else t) s);
             nxt \<leftarrow> pick_next_task s;
             if nxt = 0 \<or> nxt = dead then Some (False, s)
             else do {
               s \<leftarrow> task_upd nxt (\<lambda>t. t\<lparr>tk_state := TASK_RUNNING\<rparr>) s;
               Some (True, s\<lparr>current_task := nxt\<rparr>) } } })"

text \<open>One pass of \<^verbatim>\<open>sys_waitpid\<close> over all tasks: the first zombie child that was asked for, and whether there was a child.\<close>

partial_function (option) wait_scan :: "vfs \<Rightarrow> u32 \<Rightarrow> int \<Rightarrow> u32 \<Rightarrow> bool \<Rightarrow> (u32 \<times> bool) option" where
  "wait_scan s parent target_pid cur has_children =
     (if cur = 0 then Some (0, has_children)
      else case vf_tasks s cur of
        None \<Rightarrow> None
      | Some t \<Rightarrow>
          let child = (tk_parent t = parent \<and> (target_pid = -1 \<or> tk_pid t = word_of_int target_pid))
          in if child \<and> tk_state t = TASK_ZOMBIE then Some (cur, True)
             else wait_scan s parent target_pid (tk_all_next t) (has_children \<or> child))"

partial_function (option) all_before :: "vfs \<Rightarrow> u32 \<Rightarrow> u32 \<Rightarrow> u32 option" where
  "all_before s cur linker =
     (case vf_tasks s linker of None \<Rightarrow> None | Some t \<Rightarrow> if tk_all_next t = cur then Some linker else all_before s cur (tk_all_next t))"

definition reap :: "u32 \<Rightarrow> vfs \<Rightarrow> vfs option" where
  "reap cur s = do {
     t \<leftarrow> vf_tasks s cur;
     s \<leftarrow> (if all_tasks s = cur then Some (s\<lparr>all_tasks := tk_all_next t\<rparr>)
          else do { linker \<leftarrow> all_before s cur (all_tasks s); task_upd linker (\<lambda>x. x\<lparr>tk_all_next := tk_all_next t\<rparr>) s });
     s \<leftarrow> (if tk_kernel_stack_base t \<noteq> 0 then vfree (tk_kernel_stack_base t) s else Some s);
     vfree cur s }"

datatype wait_result = WaitError | Reaped int int | MustWait

text \<open>One round of the loop of \<^verbatim>\<open>sys_waitpid\<close>; with \<open>MustWait\<close> the caller is blocked and goes round again when it next runs.\<close>

definition sys_waitpid :: "int \<Rightarrow> vfs \<Rightarrow> (wait_result \<times> vfs) option" where
  "sys_waitpid target_pid s =
     (let parent = current_task s
      in if parent = 0 then Some (WaitError, s)
         else do {
           (z, has_children) \<leftarrow> wait_scan s parent target_pid (all_tasks s) False;
           if z \<noteq> 0
           then do { t \<leftarrow> vf_tasks s z; s \<leftarrow> reap z s; Some (Reaped (sint (tk_pid t)) (tk_exit_code t), s) }
           else if \<not> has_children then Some (WaitError, s)
           else do {
             s \<leftarrow> task_upd parent (\<lambda>t. t\<lparr>tk_state := TASK_BLOCKED\<rparr>) s;
             s \<leftarrow> schedule s;
             Some (MustWait, s) } })"

subsection \<open>Fork\<close>

text \<open>The register frame a fork copies.\<close>

record register_t =
  rg_ds :: u32
  rg_edi :: u32
  rg_esi :: u32
  rg_ebp :: u32
  rg_ebx :: u32
  rg_edx :: u32
  rg_ecx :: u32
  rg_int_no :: u32
  rg_err_code :: u32
  rg_eip :: u32
  rg_cs :: u32
  rg_eflags :: u32
  rg_useresp :: u32
  rg_ss :: u32

definition fork_words :: "u32 \<Rightarrow> register_t \<Rightarrow> u32 list" where
  "fork_words trap_return r =
     [rg_ss r, rg_useresp r, rg_eflags r, rg_cs r, rg_eip r, rg_err_code r, rg_int_no r, 0, rg_ecx r, rg_edx r, rg_ebx r, 0,
      rg_ebp r, rg_esi r, rg_edi r, rg_ds r, trap_return, 0x202, 0, 0, 0, 0]"

text \<open>The descriptors of the child: those not marked close-on-exec, whose inodes are counted once more.\<close>

fun fork_fds :: "u32 list \<Rightarrow> vfs \<Rightarrow> (u32 list \<times> vfs) option" where
  "fork_fds [] s = Some ([], s)"
| "fork_fds (f # fs) s =
     (if f = 0 then map_option (\<lambda>(rest, s). (0 # rest, s)) (fork_fds fs s)
      else do {
        F \<leftarrow> vf_files s f;
        if fl_flags F AND O_CLOEXEC \<noteq> 0 then map_option (\<lambda>(rest, s). (0 # rest, s)) (fork_fds fs s)
        else do { s \<leftarrow> inode_ref (fl_inode F) s; map_option (\<lambda>(rest, s). (f # rest, s)) (fork_fds fs s) } })"

text \<open>The result of cloning the address space is the argument \<open>space\<close>, 0 when it failed. Without a current task the call returns
  \<^verbatim>\<open>-VFS_ENOMEM\<close>, which is 5.\<close>

definition do_fork :: "u32 \<Rightarrow> u32 \<Rightarrow> u32 \<Rightarrow> register_t option \<Rightarrow> vfs \<Rightarrow> (int \<times> vfs) option" where
  "do_fork now trap_return space regs_ptr s = (case regs_ptr of None \<Rightarrow> Some (5, s) | Some r \<Rightarrow>
     let parent = current_task s
     in if parent = 0 then Some (5, s)
        else do {
          (child, s) \<leftarrow> valloc SIZEOF_task s;
          if child = 0 then Some (VFS_ERR, s)
          else if space = 0 then do { s \<leftarrow> vfree child s; Some (VFS_ERR, s) }
          else do {
            (new_stack, s) \<leftarrow> valloc 4096 s;
            if new_stack = 0 then do { s \<leftarrow> vfree child s; Some (5, s) }
            else do {
              p \<leftarrow> vf_tasks s parent;
              let pid = next_pid s;
              let buf = vf_junk s new_stack 4096;
              let n = KSTACK_BYTES - 4 * length (fork_words trap_return r);
              let s = s\<lparr>next_pid := pid + 1,
                    vf_buffers := (vf_buffers s)(new_stack \<mapsto> take n buf @ concat (map le32 (rev (fork_words trap_return r))))\<rparr>;
              s \<leftarrow> (if tk_cwd p = 0 then Some s
                   else do { d \<leftarrow> vf_dentries s (tk_cwd p);
                             Some (s\<lparr>vf_dentries := (vf_dentries s)(tk_cwd p \<mapsto> d\<lparr>dn_ref_count := dn_ref_count d + 1\<rparr>)\<rparr>) });
              (fds, s) \<leftarrow> fork_fds (tk_fd_table p) s;
              let c = zero_task\<lparr>tk_cr3 := space, tk_pid := word_of_int pid, tk_parent := parent, tk_state := TASK_READY, tk_first_run := 1,
                    tk_is_user := True, tk_kernel_stack := new_stack + 4096, tk_kernel_stack_base := new_stack,
                    tk_context_esp := new_stack + of_nat n, tk_eip := rg_eip r, tk_cwd := tk_cwd p, tk_fd_table := fds,
                    tk_signal_mask := tk_signal_mask p, tk_signal_handlers := tk_signal_handlers p, tk_rlimits := tk_rlimits p,
                    tk_name := take (TASK_NAME_LEN - 2) (tk_name p), tk_start_time := now\<rparr>;
              let s = s\<lparr>vf_tasks := (vf_tasks s)(child \<mapsto> c)\<rparr>;
              s \<leftarrow> task_log_event now parent EVT_FORKED (tk_pid c) s;
              s \<leftarrow> task_log_event now child EVT_CREATED (tk_pid p) s;
              s \<leftarrow> task_register_all child s;
              s \<leftarrow> task_add_ready child s;
              Some (pid, s) } } })"

subsection \<open>Quarantine\<close>

definition QUARANTINE_FD_THRESHOLD_OPENS :: nat where "QUARANTINE_FD_THRESHOLD_OPENS = 9"
definition QUARANTINE_FD_THRESHOLD_CLOSES :: nat where "QUARANTINE_FD_THRESHOLD_CLOSES = 1"
definition QUARANTINE_WINDOW_TICKS :: u32 where "QUARANTINE_WINDOW_TICKS = 200"

definition recent_events :: "u32 \<Rightarrow> task_event_type_t \<Rightarrow> task_t \<Rightarrow> nat" where
  "recent_events now typ t = count_if (\<lambda>e. \<not> now - ev_tick e > QUARANTINE_WINDOW_TICKS \<and> ev_type e = typ) (tk_events t)"

definition try_quarantine :: "u32 \<Rightarrow> task_t \<Rightarrow> task_t" where
  "try_quarantine now t =
     (if tk_state t = TASK_QUARANTINED \<or> tk_state t = TASK_ZOMBIE then t
      else if recent_events now EVT_FD_OPEN t \<ge> QUARANTINE_FD_THRESHOLD_OPENS \<and> recent_events now EVT_FD_CLOSE t \<le> QUARANTINE_FD_THRESHOLD_CLOSES
      then log_event now EVT_QUARANTINED (of_nat (recent_events now EVT_FD_OPEN t)) (t\<lparr>tk_state := TASK_QUARANTINED\<rparr>)
      else t)"

text \<open>The round over the ready queue from \<open>t\<close> until it is back at the head.\<close>

partial_function (option) quarantine_round :: "u32 \<Rightarrow> u32 \<Rightarrow> vfs \<Rightarrow> vfs option" where
  "quarantine_round now t s =
     (case vf_tasks s t of
        None \<Rightarrow> None
      | Some x \<Rightarrow>
          let s' = s\<lparr>vf_tasks := (vf_tasks s)(t \<mapsto> try_quarantine now x)\<rparr>
          in if tk_next x = ready_queue s then Some s' else quarantine_round now (tk_next x) s')"

definition quarantine_check_and_act :: "u32 \<Rightarrow> vfs \<Rightarrow> vfs option" where
  "quarantine_check_and_act now s = (if ready_queue s = 0 then Some s else quarantine_round now (ready_queue s) s)"

text \<open>The first quarantined task of that name in the ready queue, or 0.\<close>

partial_function (option) quarantine_find :: "bytes \<Rightarrow> u32 \<Rightarrow> vfs \<Rightarrow> u32 option" where
  "quarantine_find name t s =
     (case vf_tasks s t of
        None \<Rightarrow> None
      | Some x \<Rightarrow>
          if strcmp (tk_name x) name = 0 \<and> tk_state x = TASK_QUARANTINED then Some t
          else if tk_next x = ready_queue s then Some 0 else quarantine_find name (tk_next x) s)"

definition quarantine_release :: "bytes \<Rightarrow> vfs \<Rightarrow> (bool \<times> vfs) option" where
  "quarantine_release name s =
     (if ready_queue s = 0 then Some (False, s)
      else do {
        t \<leftarrow> quarantine_find name (ready_queue s) s;
        if t = 0 then Some (False, s)
        else do { s \<leftarrow> task_upd t (\<lambda>x. x\<lparr>tk_state := TASK_READY\<rparr>) s; Some (True, s) } })"

end
