(* ===== verification/Task_Queue.thy ===== *)
theory Task_Queue
  imports Task
begin

text \<open>
  The ready queue of theory Task as a list: adding a task appends it, removing one removes it, the choice of the
  next task goes round the queue from the current one, and every ready task gets to run.
\<close>

section \<open>Circular lists of tasks\<close>

text \<open>Each task of the list links to the next one, and the last to \<open>stop\<close>.\<close>

fun links :: "vfs \<Rightarrow> u32 list \<Rightarrow> u32 \<Rightarrow> bool" where
  "links s [] stop \<longleftrightarrow> True"
| "links s (x # xs) stop \<longleftrightarrow>
     (\<exists>t. vf_tasks s x = Some t \<and> tk_next t = (case xs of [] \<Rightarrow> stop | y # ys \<Rightarrow> y)) \<and> links s xs stop"

definition ring :: "vfs \<Rightarrow> u32 list \<Rightarrow> bool" where
  "ring s xs \<longleftrightarrow> xs \<noteq> [] \<and> distinct xs \<and> 0 \<notin> set xs \<and> links s xs (hd xs)"

definition queue :: "vfs \<Rightarrow> u32 list \<Rightarrow> bool" where
  "queue s xs \<longleftrightarrow> (if xs = [] then ready_queue s = 0 else ready_queue s = hd xs \<and> ring s xs)"

lemma links_append: "links s (xs @ ys) stop \<longleftrightarrow> links s xs (case ys of [] \<Rightarrow> stop | y # _ \<Rightarrow> y) \<and> links s ys stop"
proof (induction xs)
  case (Cons x xs)
  then show ?case by (cases xs; cases ys) auto
qed simp

lemma links_snoc: "links s (xs @ [y]) stop \<longleftrightarrow> links s xs y \<and> (\<exists>t. vf_tasks s y = Some t \<and> tk_next t = stop)"
  by (simp add: links_append)

lemma links_live: "links s xs stop \<Longrightarrow> x \<in> set xs \<Longrightarrow> \<exists>t. vf_tasks s x = Some t"
  by (induction xs) auto

lemma links_cong:
  "(\<And>x. x \<in> set xs \<Longrightarrow> map_option tk_next (vf_tasks s' x) = map_option tk_next (vf_tasks s x)) \<Longrightarrow> links s' xs stop = links s xs stop"
proof (induction xs)
  case (Cons x xs)
  have "map_option tk_next (vf_tasks s' x) = map_option tk_next (vf_tasks s x)" using Cons.prems by simp
  then have "(\<exists>t. vf_tasks s' x = Some t \<and> tk_next t = y) = (\<exists>t. vf_tasks s x = Some t \<and> tk_next t = y)" for y
    by (cases "vf_tasks s' x"; cases "vf_tasks s x") auto
  then show ?case using Cons by simp
qed simp

lemma links_join: "ys \<noteq> [] \<Longrightarrow> links s (xs @ ys) stop \<longleftrightarrow> links s xs (hd ys) \<and> links s ys stop"
  by (cases ys) (simp_all add: links_append del: links.simps)

lemma links_rotate: "links s (xs @ ys) (hd (xs @ ys)) \<Longrightarrow> links s (ys @ xs) (hd (ys @ xs))"
  by (cases "xs = []"; cases "ys = []") (simp_all add: links_join hd_append)

lemma ring_rotate: "ring s (xs @ ys) \<Longrightarrow> ring s (ys @ xs)"
  using links_rotate [of s xs ys] by (auto simp: ring_def)

lemma ring_before_links:
  "links s xs stop \<Longrightarrow> xs \<noteq> [] \<Longrightarrow> stop \<notin> set (tl xs) \<Longrightarrow> ring_before s stop (hd xs) = Some (last xs)"
proof (induction xs)
  case (Cons x xs)
  then show ?case by (cases xs) (auto simp: ring_before.simps [of s stop x])
qed simp

lemma remove_walk_found:
  "links s xs task \<Longrightarrow> xs \<noteq> [] \<Longrightarrow> task \<notin> set (tl xs) \<Longrightarrow> ready_queue s \<notin> set (tl xs) \<Longrightarrow> remove_walk s task (hd xs) = Some (last xs)"
proof (induction xs)
  case (Cons x xs)
  show ?case
  proof (cases xs)
    case Nil
    then show ?thesis using Cons.prems by (auto simp: remove_walk.simps [of s task x])
  next
    case c: (Cons y ys)
    have IH: "remove_walk s task y = Some (last xs)" using Cons.IH Cons.prems c by auto
    show ?thesis using Cons.prems IH c by (cases ys) (auto simp: remove_walk.simps [of s task x])
  qed
qed simp

section \<open>Adding and removing\<close>

definition state_of :: "vfs \<Rightarrow> u32 \<Rightarrow> task_state_t option" where
  "state_of s x = map_option tk_state (vf_tasks s x)"

definition next_of :: "vfs \<Rightarrow> u32 \<Rightarrow> u32 option" where
  "next_of s x = map_option tk_next (vf_tasks s x)"

lemma links_next: "links s (x # xs) stop \<longleftrightarrow> next_of s x = Some (case xs of [] \<Rightarrow> stop | y # ys \<Rightarrow> y) \<and> links s xs stop"
  by (auto simp: next_of_def)

text \<open>A list whose last link is changed.\<close>

lemma links_retarget:
  assumes "links s xs stop" "xs \<noteq> []" "distinct xs"
    and "\<And>x. x \<in> set xs \<Longrightarrow> x \<noteq> last xs \<Longrightarrow> next_of s' x = next_of s x" "next_of s' (last xs) = Some stop'"
  shows "links s' xs stop'"
proof -
  have xs: "xs = butlast xs @ [last xs]" using assms(2) by simp
  then have l: "links s (butlast xs) (last xs)" using assms(1) links_snoc by metis
  have "last xs \<notin> set (butlast xs)" using assms(3) xs by (metis distinct_append disjoint_iff list.set_intros(1))
  then have "links s' (butlast xs) (last xs)"
    using l assms(4) links_cong [of "butlast xs" s' s] by (metis in_set_butlastD next_of_def)
  moreover have "\<exists>t. vf_tasks s' (last xs) = Some t \<and> tk_next t = stop'" using assms(5) by (auto simp: next_of_def)
  ultimately show ?thesis using links_snoc [of s' "butlast xs" "last xs" stop'] xs by metis
qed

lemma ring_cong: "(\<And>x. x \<in> set xs \<Longrightarrow> next_of s' x = next_of s x) \<Longrightarrow> ring s' xs = ring s xs"
  using links_cong [of xs s' s] by (simp add: ring_def next_of_def)

lemma ring_hd: "ring s xs \<Longrightarrow> hd xs \<noteq> 0 \<and> hd xs \<notin> set (tl xs)"
  by (cases xs) (auto simp: ring_def)

lemma add_ready_queue:
  assumes q: "queue s xs" and new: "task \<notin> set xs" "task \<noteq> 0" "vf_tasks s task = Some t"
  shows "\<exists>s'. task_add_ready task s = Some s' \<and> queue s' (xs @ [task]) \<and> state_of s' = (state_of s)(task \<mapsto> TASK_READY)"
proof (cases "xs = []")
  case True
  then show ?thesis using q new by (auto simp: task_add_ready_def task_upd_def queue_def ring_def state_of_def)
next
  case False
  define l where "l = last xs"
  have r: "ready_queue s = hd xs" "ring s xs" using q False by (simp_all add: queue_def)
  define s1 where "s1 = s\<lparr>vf_tasks := (vf_tasks s)(task \<mapsto> t\<lparr>tk_state := TASK_READY\<rparr>)\<rparr>"
  have "ring s1 xs" using r(2) ring_cong [of xs s1 s] new by (auto simp: s1_def next_of_def)
  then have rb: "ring_before s1 (hd xs) (hd xs) = Some l" using ring_before_links ring_hd [of s1 xs] False by (simp add: l_def ring_def)
  have lt: "l \<noteq> task" "l \<in> set xs" using new(1) False by (auto simp: l_def)
  obtain u where u: "vf_tasks s l = Some u" using links_live [OF _ lt(2)] r(2) by (auto simp: ring_def)
  define s' where "s' = s\<lparr>vf_tasks := (vf_tasks s)(l \<mapsto> u\<lparr>tk_next := task\<rparr>, task \<mapsto> t\<lparr>tk_state := TASK_READY, tk_next := hd xs\<rparr>)\<rparr>"
  define s2 where "s2 = s1\<lparr>vf_tasks := (vf_tasks s1)(l \<mapsto> u\<lparr>tk_next := task\<rparr>)\<rparr>"
  have up: "task_upd task (\<lambda>t. t\<lparr>tk_state := TASK_READY\<rparr>) s = Some s1" "task_upd l (\<lambda>t. t\<lparr>tk_next := task\<rparr>) s1 = Some s2"
    using new lt u by (simp_all add: task_upd_def s1_def s2_def)
  have "vf_tasks s2 task = Some (t\<lparr>tk_state := TASK_READY\<rparr>)" using lt by (simp add: s1_def s2_def)
  then have "task_upd task (\<lambda>t. t\<lparr>tk_next := hd xs\<rparr>) s2 = Some s'" using lt by (simp add: task_upd_def s1_def s2_def s'_def fun_eq_iff)
  moreover have "ready_queue s1 = hd xs" "ready_queue s2 = hd xs" using r(1) by (simp_all add: s1_def s2_def)
  ultimately have run: "task_add_ready task s = Some s'" using new(2) rb up ring_hd [OF r(2)] by (simp add: task_add_ready_def)
  have "links s' xs task"
    by (rule links_retarget [of s xs "hd xs"]) (use r(2) False new(1) lt in \<open>auto simp: ring_def s'_def next_of_def l_def\<close>)
  then have "links s' (xs @ [task]) (hd xs)" by (simp add: links_snoc s'_def)
  then have "queue s' (xs @ [task])" using r new False by (simp add: queue_def ring_def s'_def)
  then show ?thesis using run u lt by (intro exI [of _ s']) (auto simp: state_of_def s'_def)
qed

text \<open>Unlinking the task that follows the last of \<open>ys\<close> in a ring.\<close>

lemma ring_unlink:
  assumes "ring s (task # ys)" "ys \<noteq> []" "vf_tasks s (last ys) = Some u" "next_of s task = Some n"
  shows "ring (s\<lparr>vf_tasks := (vf_tasks s)(last ys \<mapsto> u\<lparr>tk_next := n\<rparr>)\<rparr>) ys" and "n = hd ys"
proof -
  show n: "n = hd ys" using assms(1,2,4) by (cases ys) (simp_all add: ring_def links_next del: links.simps)
  have "links s ys task" "distinct ys" using assms(1) by (simp_all add: ring_def)
  then have "links (s\<lparr>vf_tasks := (vf_tasks s)(last ys \<mapsto> u\<lparr>tk_next := n\<rparr>)\<rparr>) ys n"
    by (rule links_retarget [OF _ assms(2)]) (simp_all add: next_of_def)
  then show "ring (s\<lparr>vf_tasks := (vf_tasks s)(last ys \<mapsto> u\<lparr>tk_next := n\<rparr>)\<rparr>) ys"
    using assms(1,2) n by (simp add: ring_def)
qed

lemma remove_ready_queue:
  assumes q: "queue s (as @ task # bs)" and t: "vf_tasks s task = Some t"
  shows "\<exists>s'. task_remove_ready now task s = Some s' \<and> queue s' (as @ bs) \<and> state_of s' = (state_of s)(task \<mapsto> TASK_BLOCKED)"
proof -
  let ?xs = "as @ task # bs" and ?ys = "bs @ as"
  define t1 where "t1 = (log_event now EVT_BLOCKED 0 t)\<lparr>tk_state := TASK_BLOCKED\<rparr>"
  define s1 where "s1 = s\<lparr>vf_tasks := (vf_tasks s)(task \<mapsto> t1)\<rparr>"
  have nt: "tk_next t1 = tk_next t" by (simp add: t1_def log_event_def)
  have r: "ready_queue s = hd ?xs" "ring s ?xs" using q by (simp_all add: queue_def)
  have r1: "ring s1 ?xs" "ready_queue s1 = hd ?xs" using r ring_cong [of ?xs s1 s] t nt by (auto simp: s1_def next_of_def)
  have t0: "task \<noteq> 0" "hd ?xs \<noteq> 0" using r(2) ring_hd [OF r(2)] by (auto simp: ring_def)
  have st: "state_of s1 = (state_of s)(task \<mapsto> TASK_BLOCKED)" by (auto simp: s1_def state_of_def t1_def)
  have e: "do { s \<leftarrow> task_log_event now task EVT_BLOCKED 0 s; s \<leftarrow> task_upd task (\<lambda>t. t\<lparr>tk_state := TASK_BLOCKED\<rparr>) s; k s } = k s1" for k :: "vfs \<Rightarrow> vfs option"
    using t t0 by (simp add: task_log_event_def task_upd_def s1_def t1_def)
  have run: "task_remove_ready now task s = (do {
        q \<leftarrow> vf_tasks s1 (ready_queue s1);
        if ready_queue s1 = task \<and> tk_next q = ready_queue s1 then Some (s1\<lparr>ready_queue := 0\<rparr>)
        else do { temp \<leftarrow> remove_walk s1 task (ready_queue s1); p \<leftarrow> vf_tasks s1 temp;
          if tk_next p \<noteq> task then Some s1
          else do { t \<leftarrow> vf_tasks s1 task; s \<leftarrow> task_upd temp (\<lambda>x. x\<lparr>tk_next := tk_next t\<rparr>) s1; t \<leftarrow> vf_tasks s task;
            Some (if ready_queue s = task then s\<lparr>ready_queue := tk_next t\<rparr> else s) } } })"
    using t0 r(1) by (simp only: task_remove_ready_def e simp_thms if_False)
  show ?thesis
  proof (cases "?ys = []")
    case True
    then have "links s1 [task] task" using r1(1) by (simp add: ring_def)
    then have "task_remove_ready now task s = Some (s1\<lparr>ready_queue := 0\<rparr>)" using True r1(2) by (auto simp: run)
    moreover have "state_of (s1\<lparr>ready_queue := 0\<rparr>) = state_of s1" by (simp add: state_of_def fun_eq_iff)
    ultimately show ?thesis using True st by (simp add: queue_def)
  next
    case False
    define l where "l = last ?ys"
    have rot: "ring s1 (task # ?ys)" using ring_rotate [OF r1(1)] by simp
    have lt: "l \<noteq> task" "l \<in> set ?xs" using rot False last_in_set [OF False] by (auto simp: l_def ring_def)
    have "links s1 ?ys task" using rot by (simp add: ring_def)
    then have "links s1 (butlast ?ys @ [l]) task" using append_butlast_last_id [OF False] by (simp only: l_def)
    then obtain u where u: "vf_tasks s1 l = Some u" and ul: "tk_next u = task" by (auto simp only: links_snoc)
    have n1: "next_of s1 task = Some (tk_next t)" by (simp add: next_of_def s1_def nt)
    note un = ring_unlink [OF rot False u [unfolded l_def] n1]
    have one: "\<not> (ready_queue s1 = task \<and> tk_next t = ready_queue s1)" using un(2) hd_in_set [OF False] rot by (auto simp: ring_def)
    have w: "remove_walk s1 task (ready_queue s1) = Some l"
    proof (cases "as = []")
      case True
      then show ?thesis using remove_walk_found [of s1 "task # bs" task] r1 False by (simp add: ring_def l_def)
    next
      case as: False
      have "links s1 as task" "task \<notin> set as" "distinct as" using r1(1) links_join [of "task # bs" s1 as] by (simp_all add: ring_def)
      moreover have "hd as \<notin> set (tl as)" using \<open>distinct as\<close> as by (cases as) auto
      ultimately show ?thesis using remove_walk_found [of s1 as task] r1(2) as by (auto simp: l_def dest: list.set_sel(2))
    qed
    define s2 where "s2 = s1\<lparr>vf_tasks := (vf_tasks s1)(l \<mapsto> u\<lparr>tk_next := tk_next t\<rparr>)\<rparr>"
    define s' where "s' = (if ready_queue s1 = task then s2\<lparr>ready_queue := tk_next t\<rparr> else s2)"
    have "vf_tasks s1 task = Some t1" by (simp add: s1_def)
    moreover obtain q where "vf_tasks s1 (ready_queue s1) = Some q" "ready_queue s1 = task \<longrightarrow> tk_next q = tk_next t"
      using links_live [of s1 ?xs "hd ?xs" "hd ?xs"] r1 calculation nt by (fastforce simp: ring_def hd_append)
    ultimately have go: "task_remove_ready now task s = Some s'"
      using one w u ul lt(1) nt by (auto simp: run task_upd_def s2_def s'_def)
    have "ring s2 (as @ bs)" using un(1) ring_rotate [of s2 bs as] by (simp add: s2_def l_def)
    then have "ring s' (as @ bs)" using ring_cong [of "as @ bs" s' s2] by (simp add: s'_def next_of_def)
    moreover have "ready_queue s' = hd (as @ bs)"
    proof (cases as)
      case Nil
      then show ?thesis using r1(2) un(2) False by (simp add: s'_def)
    next
      case (Cons a as')
      then have "a \<noteq> task" using r1(1) by (auto simp: ring_def)
      then show ?thesis using r1(2) Cons by (simp add: s'_def s2_def)
    qed
    ultimately have "queue s' (as @ bs)" using False by (auto simp: queue_def)
    moreover have "state_of s' = state_of s1" using u by (auto simp: s'_def s2_def state_of_def fun_eq_iff)
    ultimately show ?thesis using go st by auto
  qed
qed

section \<open>Choosing the next task\<close>

definition is_ready :: "vfs \<Rightarrow> u32 \<Rightarrow> bool" where
  "is_ready s x \<longleftrightarrow> state_of s x = Some TASK_READY"

lemma next_loop_links:
  assumes "links s zs stop" "zs \<noteq> []" "0 \<notin> set zs" "stop \<notin> set (tl zs)" "length zs \<le> guard"
  shows "next_loop guard stop (hd zs) fb s = Some (case find (\<lambda>x. is_ready s x \<and> x \<noteq> current_task s) zs of
      Some x \<Rightarrow> Inl x
    | None \<Rightarrow> Inr (if fb \<noteq> 0 then fb else case find (is_ready s) zs of Some x \<Rightarrow> x | None \<Rightarrow> 0))"
  using assms
proof (induction zs arbitrary: guard fb)
  case (Cons z zs)
  obtain g where g: "guard = Suc g" using Cons.prems by (cases guard) auto
  obtain t where t: "vf_tasks s z = Some t" "tk_next t = (case zs of [] \<Rightarrow> stop | y # ys \<Rightarrow> y)" using Cons.prems by auto
  have rz: "is_ready s z \<longleftrightarrow> tk_state t = TASK_READY" by (simp add: is_ready_def state_of_def t)
  show ?case
  proof (cases zs)
    case Nil
    then show ?thesis using t rz g by (auto simp: Let_def)
  next
    case c: (Cons y ys)
    then have "tk_next t = hd zs" "tk_next t \<noteq> 0" "tk_next t \<noteq> stop" using t Cons.prems by auto
    moreover have "links s zs stop" "zs \<noteq> []" "0 \<notin> set zs" "stop \<notin> set (tl zs)" "length zs \<le> g"
      using Cons.prems c g by auto
    note Cons.IH [OF this]
    moreover have "z \<noteq> 0" using Cons.prems by auto
    ultimately show ?thesis using t(1) rz g by (auto simp: Let_def split: option.splits)
  qed
qed simp

lemma find_other: "c \<notin> set ys \<Longrightarrow> find (\<lambda>x. P x \<and> x \<noteq> c) (ys @ [c]) = find P ys"
  by (induction ys) auto

lemma find_snoc_none: "find P ys = None \<Longrightarrow> find P (ys @ [c]) = (if P c then Some c else None)"
  by (induction ys) (auto split: if_splits)

lemma pick_next_ring:
  assumes r: "ring s (c # ys)" and c: "current_task s = c" and q: "ready_queue s \<noteq> 0" and n: "length ys < 0xFFFF"
  shows "pick_next_task s = Some (case find (is_ready s) ys of Some x \<Rightarrow> x | None \<Rightarrow> if is_ready s c then c else 0)"
proof -
  have rot: "ring s (ys @ [c])" using ring_rotate [of s "[c]" ys] r by simp
  have c0: "c \<noteq> 0" "c \<notin> set ys" using r by (auto simp: ring_def)
  obtain t where t: "vf_tasks s c = Some t" "tk_next t = hd (ys @ [c])" using r by (cases ys) (auto simp: ring_def)
  have h: "hd (ys @ [c]) \<noteq> 0" "hd (ys @ [c]) \<notin> set (tl (ys @ [c]))" using ring_hd [OF rot] by auto
  have "next_loop 0xFFFF (hd (ys @ [c])) (hd (ys @ [c])) 0 s = Some (case find (is_ready s) ys of
      Some x \<Rightarrow> Inl x | None \<Rightarrow> Inr (case find (is_ready s) (ys @ [c]) of Some x \<Rightarrow> x | None \<Rightarrow> 0))"
    using next_loop_links [of s "ys @ [c]" "hd (ys @ [c])" "0xFFFF" 0] rot n h c0 find_other [of c ys "is_ready s"] c
    by (simp add: ring_def)
  then show ?thesis
    using q c c0 t h by (auto simp: pick_next_task_def cur_task_def is_ready_def state_of_def find_snoc_none split: option.splits)
qed

lemma schedule_ring:
  assumes r: "ring s (c # ys)" and c: "current_task s = c" and q: "ready_queue s \<noteq> 0" and n: "length ys < 0xFFFF"
  shows "\<exists>s'. schedule s = Some s' \<and> (\<forall>x. next_of s' x = next_of s x) \<and> ready_queue s' = ready_queue s \<and>
    (case find (is_ready s) ys of
       None \<Rightarrow> s' = s
     | Some x \<Rightarrow> current_task s' = x \<and>
         state_of s' = (state_of s)(c := (if state_of s c = Some TASK_RUNNING then Some TASK_READY else state_of s c), x \<mapsto> TASK_RUNNING))"
proof (cases "find (is_ready s) ys")
  case None
  then show ?thesis using pick_next_ring [OF assms] c by (simp add: schedule_def)
next
  case (Some x)
  then have x: "x \<in> set ys" using find_Some_iff [of "is_ready s" ys x] by auto
  then have xc: "x \<noteq> c" "x \<noteq> 0" "c \<noteq> 0" using r by (auto simp: ring_def)
  obtain t u where "vf_tasks s c = Some t" "vf_tasks s x = Some u"
    using links_live [of s "c # ys" c c] links_live [of s "c # ys" c x] r x by (auto simp: ring_def)
  then show ?thesis using pick_next_ring [OF assms] c xc Some
    by (auto simp: schedule_def task_upd_def state_of_def next_of_def fun_eq_iff)
qed

section \<open>Every ready task runs\<close>

text \<open>What the tasks do between two calls of the scheduler, as far as a waiting task \<open>t\<close> is concerned: they may change each
  other's states and everything else, but not the queue, nor who is running, nor the state of \<open>t\<close>.\<close>

definition quiet :: "u32 list \<Rightarrow> u32 \<Rightarrow> vfs \<Rightarrow> vfs \<Rightarrow> bool" where
  "quiet xs t s s' \<longleftrightarrow> current_task s' = current_task s \<and> ready_queue s' = ready_queue s \<and>
     (\<forall>x \<in> set xs. next_of s' x = next_of s x) \<and> state_of s' t = state_of s t"

fun rounds :: "nat \<Rightarrow> (nat \<Rightarrow> vfs \<Rightarrow> vfs) \<Rightarrow> vfs \<Rightarrow> vfs option" where
  "rounds 0 w s = Some s"
| "rounds (Suc n) w s = do { s \<leftarrow> schedule s; rounds n (\<lambda>k. w (Suc k)) (w 0 s) }"

lemma ready_task_turn:
  assumes "ring s (c # us @ t # vs)" "current_task s = c" "ready_queue s \<noteq> 0" "length us + length vs < 0xFFFE" "is_ready s t"
    and w: "\<And>k s. quiet xs t s (w k s)" and "set (c # us @ t # vs) = set xs"
  shows "\<exists>n \<le> length us. \<exists>s'. rounds (Suc n) w s = Some s' \<and> current_task s' = t"
  using assms
proof (induction "length us" arbitrary: us c vs s w rule: less_induct)
  case less
  have tus: "t \<notin> set us" "t \<noteq> c" using less.prems(1) by (auto simp: ring_def)
  have n: "length (us @ t # vs) < 0xFFFF" using less.prems(4) by simp
  obtain s' where s': "schedule s = Some s'" "\<forall>x. next_of s' x = next_of s x" "ready_queue s' = ready_queue s"
    and ch: "case find (is_ready s) (us @ t # vs) of None \<Rightarrow> s' = s | Some x \<Rightarrow> current_task s' = x \<and> state_of s' =
        (state_of s)(c := (if state_of s c = Some TASK_RUNNING then Some TASK_READY else state_of s c), x \<mapsto> TASK_RUNNING)"
    using schedule_ring [OF less.prems(1-3) n] by auto
  have q: "quiet xs t s' (w 0 s')" by (rule less.prems(6))
  show ?case
  proof (cases "find (is_ready s) us")
    case None
    then have "find (is_ready s) (us @ t # vs) = Some t" using less.prems(5) by (induction us) (auto split: if_splits)
    then have "rounds (Suc 0) w s = Some (w 0 s')" "current_task (w 0 s') = t" using s'(1) ch q by (simp_all add: quiet_def)
    then show ?thesis by blast
  next
    case (Some x)
    then obtain as bs where us: "us = as @ x # bs" by (metis find_Some_iff id_take_nth_drop)
    have f: "find (is_ready s) (us @ t # vs) = Some x" using Some by (induction us) auto
    have xt: "x \<noteq> t" using tus(1) us by auto
    have "ring s ((c # as) @ (x # bs @ t # vs))" using less.prems(1) us by simp
    from ring_rotate [OF this] have "ring s (x # bs @ t # (vs @ c # as))" by simp
    moreover have e: "set (x # bs @ t # (vs @ c # as)) = set xs" using less.prems(7) us by auto
    then have "next_of (w 0 s') y = next_of s y" if "y \<in> set (x # bs @ t # (vs @ c # as))" for y
      using q s'(2) that by (simp only: quiet_def)
    ultimately have "ring (w 0 s') (x # bs @ t # (vs @ c # as))" using ring_cong by blast
    moreover have "current_task (w 0 s') = x" "ready_queue (w 0 s') \<noteq> 0" "is_ready (w 0 s') t"
      using q ch f s'(3) less.prems(3,5) xt tus(2) by (auto simp: quiet_def is_ready_def)
    ultimately obtain n s'' where "n \<le> length bs" "rounds (Suc n) (\<lambda>k. w (Suc k)) (w 0 s') = Some s''" "current_task s'' = t"
      using less.hyps [of bs "w 0 s'" x "vs @ c # as" "\<lambda>k. w (Suc k)", OF _ _ _ _ _ _ less.prems(6) e] less.prems(4) us by auto
    moreover have "rounds (Suc (Suc n)) w s = rounds (Suc n) (\<lambda>k. w (Suc k)) (w 0 s')" using s'(1) by simp
    ultimately show ?thesis using us by (intro exI [of _ "Suc n"]) auto
  qed
qed

section \<open>Properties\<close>

text \<open>Three tasks at the addresses 1, 2 and 3: the first runs, the second waits, the third is ready.\<close>

definition demo_queue :: vfs where
  "demo_queue = demo_state\<lparr>vf_tasks := [1 \<mapsto> zero_task\<lparr>tk_state := TASK_RUNNING, tk_next := 2\<rparr>,
     2 \<mapsto> zero_task\<lparr>tk_state := TASK_BLOCKED, tk_next := 3\<rparr>, 3 \<mapsto> zero_task\<lparr>tk_state := TASK_READY, tk_next := 1\<rparr>,
     4 \<mapsto> zero_task], ready_queue := 1, current_task := 1\<rparr>"

lemma demo_queue_ok: "queue demo_queue [1, 2, 3]" "current_task demo_queue = 1" "vf_tasks demo_queue 4 = Some zero_task"
  "is_ready demo_queue 3" "\<not> is_ready demo_queue 2"
  by (simp_all add: demo_queue_def queue_def ring_def is_ready_def state_of_def)

text \<open>C35. The ready queue is the list of its tasks. \<^verbatim>\<open>task_add_ready\<close> puts a task that is not on it at its end and makes it ready;
  \<^verbatim>\<open>task_remove_ready\<close> takes a task out, wherever it stands, keeps the order of the others and leaves the task blocked. Neither
  walk runs forever or past the ring, and no other task changes its state.\<close>

theorem ready_queue_is_list:
  assumes "queue s xs" "vf_tasks s task = Some t" "task \<noteq> 0"
  shows "if task \<in> set xs
    then \<exists>s'. task_remove_ready now task s = Some s' \<and> queue s' (remove1 task xs) \<and> state_of s' = (state_of s)(task \<mapsto> TASK_BLOCKED)
    else \<exists>s'. task_add_ready task s = Some s' \<and> queue s' (xs @ [task]) \<and> state_of s' = (state_of s)(task \<mapsto> TASK_READY)"
proof (cases "task \<in> set xs")
  case True
  then obtain as bs where xs: "xs = as @ task # bs" "task \<notin> set as" using split_list_first by fast
  then have "remove1 task xs = as @ bs" by (simp add: remove1_append)
  then show ?thesis using remove_ready_queue [of s as task bs t now] assms xs by simp
next
  case False
  then show ?thesis using add_ready_queue assms by simp
qed

theorem ready_queue_is_list_witness:
  "(\<exists>s'. task_add_ready 4 demo_queue = Some s' \<and> queue s' [1, 2, 3, 4]) \<and> (\<exists>s'. task_remove_ready 9 1 demo_queue = Some s' \<and> queue s' [2, 3])"
proof -
  have "vf_tasks demo_queue 1 = Some (zero_task\<lparr>tk_state := TASK_RUNNING, tk_next := 2\<rparr>)" by (simp add: demo_queue_def)
  from ready_queue_is_list [OF demo_queue_ok(1,3), of 9] ready_queue_is_list [OF demo_queue_ok(1) this, of 9]
  show ?thesis by auto
qed

text \<open>C34. Scheduling is round robin. With the running task \<open>c\<close> on the queue, \<^verbatim>\<open>schedule\<close> switches to the first ready task after \<open>c\<close>,
  going round the queue; \<open>c\<close> is ready again if it was running, and keeps its state if it was blocked meanwhile. If no other task is
  ready nothing changes. The queue stays as it is. The bound on its length is the guard of the loop in \<^verbatim>\<open>pick_next_task\<close>.\<close>

theorem schedule_round_robin:
  assumes "queue s (as @ c # bs)" "current_task s = c" "length (as @ c # bs) \<le> 0xFFFF"
  shows "\<exists>s'. schedule s = Some s' \<and> queue s' (as @ c # bs) \<and>
    (case find (is_ready s) (bs @ as) of
       None \<Rightarrow> s' = s
     | Some x \<Rightarrow> current_task s' = x \<and>
         state_of s' = (state_of s)(c := (if state_of s c = Some TASK_RUNNING then Some TASK_READY else state_of s c), x \<mapsto> TASK_RUNNING))"
proof -
  have r: "ring s (as @ c # bs)" and q: "ready_queue s = hd (as @ c # bs)" using assms(1) by (simp_all add: queue_def)
  have rot: "ring s (c # bs @ as)" using ring_rotate [OF r] by simp
  have "ready_queue s \<noteq> 0" using ring_hd [OF r] q by simp
  then obtain s' where s': "schedule s = Some s'" "\<forall>x. next_of s' x = next_of s x" "ready_queue s' = ready_queue s"
    "case find (is_ready s) (bs @ as) of None \<Rightarrow> s' = s | Some x \<Rightarrow> current_task s' = x \<and> state_of s' =
      (state_of s)(c := (if state_of s c = Some TASK_RUNNING then Some TASK_READY else state_of s c), x \<mapsto> TASK_RUNNING)"
    using schedule_ring [OF rot assms(2)] assms(3) by auto
  then have "queue s' (as @ c # bs)" using r q ring_cong [of "as @ c # bs" s' s] by (simp add: queue_def)
  then show ?thesis using s' by blast
qed

theorem schedule_round_robin_witness:
  "\<exists>s'. schedule demo_queue = Some s' \<and> queue s' [1, 2, 3] \<and> current_task s' = 3 \<and> state_of s' 1 = Some TASK_READY"
proof -
  have "state_of demo_queue 1 = Some TASK_RUNNING" by (simp add: demo_queue_def state_of_def)
  then show ?thesis using schedule_round_robin [of demo_queue "[]" 1 "[2, 3]"] demo_queue_ok by auto
qed

text \<open>C8. No ready task waits forever: if the running task and a ready task \<open>t\<close> are on the queue, then \<open>t\<close> runs after at most as many
  calls of \<^verbatim>\<open>schedule\<close> as there are tasks on the queue, less one, whatever the tasks that run in between do to each other's states.\<close>

theorem ready_task_runs:
  assumes "queue s xs" "current_task s \<in> set xs" "t \<in> set xs" "t \<noteq> current_task s" "is_ready s t" "length xs \<le> 0xFFFF"
    and "\<And>k s. quiet xs t s (w k s)"
  shows "\<exists>n. 0 < n \<and> n < length xs \<and> (\<exists>s'. rounds n w s = Some s' \<and> current_task s' = t)"
proof -
  let ?c = "current_task s"
  obtain as bs where xs: "xs = as @ ?c # bs" using split_list [OF assms(2)] by blast
  then have r: "ring s xs" and q: "ready_queue s = hd xs" using assms(1) by (simp_all add: queue_def)
  have rot: "ring s (?c # bs @ as)" using ring_rotate [of s as "?c # bs"] r xs by simp
  have "t \<in> set (bs @ as)" using assms(3,4) xs by (metis Un_iff list.set(2) insert_iff set_append)
  then obtain us vs where uv: "bs @ as = us @ t # vs" using split_list by metis
  have len: "length xs = length us + length vs + 2" using arg_cong [OF uv, of length] arg_cong [OF xs, of length] by simp
  have set: "set (?c # us @ t # vs) = set xs" using arg_cong [OF uv, of set] arg_cong [OF xs, of set] by auto
  have "ready_queue s \<noteq> 0" using ring_hd [OF r] q by simp
  then obtain n s' where "n \<le> length us" "rounds (Suc n) w s = Some s'" "current_task s' = t"
    using ready_task_turn [of s ?c us t vs xs w, OF rot [unfolded uv] refl _ _ assms(5,7) set] len assms(6) by auto
  then show ?thesis using len by (intro exI [of _ "Suc n"]) auto
qed

theorem ready_task_runs_witness:
  "\<exists>n. 0 < n \<and> n < 3 \<and> (\<exists>s'. rounds n (\<lambda>_ s. s) demo_queue = Some s' \<and> current_task s' = 3)"
proof -
  have "quiet [1, 2, 3] 3 s s" for s by (simp add: quiet_def)
  then show ?thesis using ready_task_runs [of demo_queue "[1, 2, 3]" 3 "\<lambda>_ s. s"] demo_queue_ok by auto
qed

end
