(* ===== verification/Kprintf.thy ===== *)
theory Kprintf
  imports Cstring
begin

text \<open>
  Formatted output, \<^verbatim>\<open>Lib/kprintf.c\<close>. The characters printed are a list of bytes; the arguments after the format are a
  list of words and strings. A result \<open>None\<close> is undefined behaviour: an argument that is missing or of
  the wrong kind, a format that ends in \<^verbatim>\<open>%\<close> (the loop steps over its final 0), a signed overflow, or a write outside the buffer.
\<close>

section \<open>Model\<close>

datatype karg = KInt u32 | KStr "bytes option"

definition text_of :: "string \<Rightarrow> bytes" where
  "text_of str = map of_char str"

function dec_rev :: "nat \<Rightarrow> bytes" where
  "dec_rev num = (if num = 0 then [] else of_nat (48 + num mod 10) # dec_rev (num div 10))"
  by pat_completeness auto
termination by (relation "measure id") auto

function hex_rev :: "bytes \<Rightarrow> nat \<Rightarrow> bytes" where
  "hex_rev hex num = (if num = 0 then [] else hex ! (num mod 16) # hex_rev hex (num div 16))"
  by pat_completeness auto
termination by (relation "measure snd") auto

declare dec_rev.simps [simp del] hex_rev.simps [simp del]

definition HEX :: bytes where "HEX = text_of ''0123456789ABCDEF''"
definition hex_lower :: bytes where "hex_lower = text_of ''0123456789abcdef''"

definition dec_digits :: "nat \<Rightarrow> bytes" where
  "dec_digits num = (if num = 0 then [48] else rev (dec_rev num))"

definition hex_digits :: "bytes \<Rightarrow> nat \<Rightarrow> bytes" where
  "hex_digits hex num = (if num = 0 then [48] else rev (hex_rev hex num))"

text \<open>The digits of an int; negating the least int overflows.\<close>

definition int_digits :: "u32 \<Rightarrow> bytes option" where
  "int_digits num =
     (if sint num = - (2 ^ 31) then None
      else if sint num < 0 then Some (45 # dec_digits (nat (- sint num))) else Some (dec_digits (nat (sint num))))"

definition print_decimal :: "u32 \<Rightarrow> bytes option" where
  "print_decimal num = int_digits num"

definition print_hex :: "u32 \<Rightarrow> bytes" where
  "print_hex num = map (\<lambda>i. HEX ! unat (drop_bit i num AND 0xF)) [28, 24, 20, 16, 12, 8, 4, 0]"

fun starts_with :: "bytes \<Rightarrow> bytes \<Rightarrow> bool" where
  "starts_with text [] \<longleftrightarrow> True"
| "starts_with [] (p # ps) \<longleftrightarrow> False"
| "starts_with (t # ts) (p # ps) \<longleftrightarrow> t = p \<and> starts_with ts ps"

fun contains :: "bytes \<Rightarrow> bytes \<Rightarrow> bool" where
  "contains [] needle \<longleftrightarrow> False"
| "contains (t # ts) needle \<longleftrightarrow> starts_with (t # ts) needle \<or> contains ts needle"

definition routine :: "bytes list" where
  "routine = map text_of [''[Mailroom] delivered to'', ''[Compass] accepted from'', ''[Bailiff] issued pass'', ''[Postcard] accepted,'',
     ''[Postcard] delivered'', ''[Postcard] broadcast'', ''[Postcard] sent'', ''[Conversation] accepted,'']"

definition is_net_chatter :: "bytes \<Rightarrow> bool" where
  "is_net_chatter format \<longleftrightarrow> list_ex (starts_with format) routine \<or>
     starts_with format (text_of ''[Bailiff] pass'') \<and> contains format (text_of '' honored'') \<or>
     starts_with format (text_of ''[Switchboard] slot'') \<and> contains format (text_of '': sent '')"

text \<open>One conversion of \<^verbatim>\<open>kprintf\<close>: the text and the arguments left.\<close>

definition kprintf_conv :: "u8 \<Rightarrow> karg list \<Rightarrow> (bytes \<times> karg list) option" where
  "kprintf_conv c args =
     (if c = 99 then (case args of KInt w # args' \<Rightarrow> Some ([ucast w], args') | _ \<Rightarrow> None)
      else if c = 115 then
        (case args of KStr s # args' \<Rightarrow> Some (take 63 (case s of None \<Rightarrow> text_of ''NULL'' | Some t \<Rightarrow> t), args') | _ \<Rightarrow> None)
      else if c = 100 then (case args of KInt w # args' \<Rightarrow> map_option (\<lambda>t. (t, args')) (int_digits w) | _ \<Rightarrow> None)
      else if c = 117 then (case args of KInt w # args' \<Rightarrow> Some (dec_digits (unat w), args') | _ \<Rightarrow> None)
      else if c = 120 then (case args of KInt w # args' \<Rightarrow> Some (hex_digits HEX (unat w), args') | _ \<Rightarrow> None)
      else if c = 37 then Some ([37], args)
      else Some ([37, c], args))"

definition pad_to :: "bool \<Rightarrow> nat \<Rightarrow> bytes \<Rightarrow> bytes" where
  "pad_to left_align width temp =
     (if left_align then temp @ replicate (width - length temp) 32 else replicate (width - length temp) 32 @ temp)"

definition is_digit :: "u8 \<Rightarrow> bool" where
  "is_digit c \<longleftrightarrow> 48 \<le> c \<and> c \<le> 57"

definition width_of :: "bytes \<Rightarrow> nat" where
  "width_of ds = foldl (\<lambda>w c. w * 10 + (unat c - 48)) 0 ds"

text \<open>Past the minus sign of a conversion.\<close>

definition skip_minus :: "bytes \<Rightarrow> bytes" where
  "skip_minus f = (case f of [] \<Rightarrow> [] | c # cs \<Rightarrow> if c = 45 then cs else f)"

function kprintf_loop :: "bytes \<Rightarrow> karg list \<Rightarrow> bytes option" where
  "kprintf_loop [] args = Some []"
| "kprintf_loop (c # f) args =
     (if c \<noteq> 37 then map_option (\<lambda>out. c # out) (kprintf_loop f args)
      else let left_align = (f \<noteq> [] \<and> hd f = 45); f1 = skip_minus f; f2 = dropWhile is_digit f1; width = width_of (takeWhile is_digit f1)
        in if f2 = [] \<or> width \<ge> 2 ^ 31 then None
           else case kprintf_conv (hd f2) args of
             None \<Rightarrow> None
           | Some (temp, args') \<Rightarrow> map_option (\<lambda>out. pad_to left_align width temp @ out) (kprintf_loop (tl f2) args'))"
  by pat_completeness auto
termination
proof (relation "measure (\<lambda>(f, args). length f)", goal_cases)
  case (3 c f args l f1 f2 w temp args')
  have "length f2 \<le> length f1" using 3 by (simp add: length_dropWhile_le)
  also have "length f1 \<le> length f" using 3 by (auto simp: skip_minus_def split: list.splits)
  finally show ?case by (simp add: less_Suc_eq_le le_diff_conv)
qed auto

definition kprintf :: "bool \<Rightarrow> bytes \<Rightarrow> karg list \<Rightarrow> bytes option" where
  "kprintf net_chatty format args = (if \<not> net_chatty \<and> is_net_chatter format then Some [] else kprintf_loop format args)"

text \<open>Writing text to the buffer of \<^verbatim>\<open>ksnprintf\<close>: byte by byte, each checked against the size, and stopping at the last but one.\<close>

definition emit :: "int \<Rightarrow> bytes \<Rightarrow> bytes \<Rightarrow> bytes" where
  "emit bufsz out text = out @ take (nat (bufsz - 1 - int (length out))) text"

definition put_byte :: "int \<Rightarrow> u8 \<Rightarrow> bytes \<Rightarrow> bytes option" where
  "put_byte bufsz c out = (if int (length out) < bufsz then Some (out @ [c]) else None)"

definition ksnprintf_conv :: "int \<Rightarrow> u8 \<Rightarrow> karg list \<Rightarrow> bytes \<Rightarrow> (bytes \<times> karg list) option" where
  "ksnprintf_conv bufsz c args out =
     (if c = 117 then (case args of KInt w # args' \<Rightarrow> Some (emit bufsz out (dec_digits (unat w)), args') | _ \<Rightarrow> None)
      else if c = 100 then (case args of KInt w # args' \<Rightarrow> map_option (\<lambda>t. (emit bufsz out t, args')) (int_digits w) | _ \<Rightarrow> None)
      else if c = 115 then
        (case args of KStr s # args' \<Rightarrow> Some (emit bufsz out (case s of None \<Rightarrow> text_of ''(null)'' | Some t \<Rightarrow> t), args') | _ \<Rightarrow> None)
      else if c = 120 then (case args of KInt w # args' \<Rightarrow> Some (emit bufsz out (hex_digits hex_lower (unat w)), args') | _ \<Rightarrow> None)
      else if c = 37 then map_option (\<lambda>t. (t, args)) (put_byte bufsz 37 out)
      else Some (out, args))"

fun ksnprintf_loop :: "int \<Rightarrow> bytes \<Rightarrow> karg list \<Rightarrow> bytes \<Rightarrow> bytes option" where
  "ksnprintf_loop bufsz [] args out = Some out"
| "ksnprintf_loop bufsz [c] args out =
     (if int (length out) \<ge> bufsz - 1 then Some out else if c = 37 then None else put_byte bufsz c out)"
| "ksnprintf_loop bufsz (c # k # f) args out =
     (if int (length out) \<ge> bufsz - 1 then Some out
      else if c \<noteq> 37
      then (case put_byte bufsz c out of None \<Rightarrow> None | Some out' \<Rightarrow> ksnprintf_loop bufsz (k # f) args out')
      else case ksnprintf_conv bufsz k args out of None \<Rightarrow> None | Some (out', args') \<Rightarrow> ksnprintf_loop bufsz f args' out')"

text \<open>The string left in the buffer.\<close>

definition ksnprintf :: "int \<Rightarrow> bytes \<Rightarrow> karg list \<Rightarrow> bytes option" where
  "ksnprintf bufsz fmt args = do {
     out \<leftarrow> ksnprintf_loop bufsz fmt args [];
     if int (length out) < bufsz then Some out else None }"

section \<open>Formatting without a buffer\<close>

text \<open>The whole text a format stands for.\<close>

definition conv_text :: "u8 \<Rightarrow> karg list \<Rightarrow> (bytes \<times> karg list) option" where
  "conv_text c args =
     (case args of
        KInt w # args' \<Rightarrow>
          if c = 117 then Some (dec_digits (unat w), args') else if c = 100 then map_option (\<lambda>t. (t, args')) (int_digits w)
          else if c = 120 then Some (hex_digits hex_lower (unat w), args') else if c = 115 then None
          else Some (if c = 37 then [37] else [], args)
      | KStr s # args' \<Rightarrow>
          if c = 115 then Some (case s of None \<Rightarrow> text_of ''(null)'' | Some t \<Rightarrow> t, args') else if c \<in> {117, 100, 120} then None
          else Some (if c = 37 then [37] else [], args)
      | [] \<Rightarrow> if c \<in> {117, 100, 120, 115} then None else Some (if c = 37 then [37] else [], args))"

fun format_text :: "bytes \<Rightarrow> karg list \<Rightarrow> bytes option" where
  "format_text [] args = Some []"
| "format_text [c] args = (if c = 37 then None else Some [c])"
| "format_text (c # k # f) args =
     (if c \<noteq> 37 then map_option (\<lambda>t. c # t) (format_text (k # f) args)
      else case conv_text k args of None \<Rightarrow> None | Some (t, args') \<Rightarrow> map_option (\<lambda>u. t @ u) (format_text f args'))"

lemma take_cut: "take n (take n xs @ ys) = take n (xs @ ys)"
  by (cases "n \<le> length xs") simp_all

lemma emit_room: "length out \<le> nat (bufsz - 1) \<Longrightarrow> emit bufsz out t = take (nat (bufsz - 1)) (out @ t)"
  by (cases "1 \<le> bufsz") (simp_all add: emit_def nat_diff_distrib)

lemma ksnprintf_conv_text:
  assumes "int (length out) < bufsz - 1" "conv_text c args = Some (t, args')"
  shows "ksnprintf_conv bufsz c args out = Some (take (nat (bufsz - 1)) (out @ t), args')"
proof -
  have "length out \<le> nat (bufsz - 1)" "Suc (length out) \<le> nat (bufsz - 1)" using assms(1) by linarith+
  then show ?thesis using assms
    by (auto simp: conv_text_def ksnprintf_conv_def put_byte_def emit_room split: list.splits karg.splits if_splits)
qed

lemma ksnprintf_loop_text:
  "length out \<le> nat (bufsz - 1) \<Longrightarrow> format_text fmt args = Some full \<Longrightarrow>
    ksnprintf_loop bufsz fmt args out = Some (take (nat (bufsz - 1)) (out @ full))"
proof (induction bufsz fmt args out arbitrary: full rule: ksnprintf_loop.induct)
  case (2 bufsz c args out)
  then show ?case by (auto simp: put_byte_def split: if_splits)
next
  case (3 bufsz c k f args out)
  show ?case
  proof (cases "int (length out) \<ge> bufsz - 1")
    case True
    then have "nat (bufsz - 1) \<le> length out" by linarith
    then show ?thesis using True 3(3) by simp
  next
    case False
    then have room: "int (length out) < bufsz - 1" "Suc (length out) \<le> nat (bufsz - 1)" by linarith+
    show ?thesis
    proof (cases "c = 37")
      case True
      then obtain t args' u where t: "conv_text k args = Some (t, args')" "format_text f args' = Some u" "full = t @ u"
        using 3(4) by (auto split: option.splits)
      let ?out = "take (nat (bufsz - 1)) (out @ t)"
      have "ksnprintf_loop bufsz f args' ?out = Some (take (nat (bufsz - 1)) (?out @ u))"
        using 3(2) [OF False _ ksnprintf_conv_text [OF room(1) t(1)] refl, of u] True t(2) by simp
      moreover have "take (nat (bufsz - 1)) (?out @ u) = take (nat (bufsz - 1)) (out @ full)" using take_cut [of _ "out @ t" u] by (simp add: t(3) del: take_append)
      ultimately show ?thesis using True False ksnprintf_conv_text [OF room(1) t(1)] by simp
    next
      case False2: False
      then obtain u where u: "format_text (k # f) args = Some u" "full = c # u" using 3(4) by auto
      have p: "put_byte bufsz c out = Some (out @ [c])" using room(1) by (simp add: put_byte_def)
      then show ?thesis using 3(1) [OF False _ p, of u] u room(2) False False2 by simp
    qed
  qed
qed simp

section \<open>Numbers\<close>

lemma katoi_digits: "n < 2 ^ 31 \<Longrightarrow> katoi_loop 0 (rev (dec_rev n) @ rest) = katoi_loop (int n) rest"
proof (induction n arbitrary: rest rule: less_induct)
  case (less n)
  show ?case
  proof (cases "n = 0")
    case True
    then show ?thesis by (simp add: dec_rev.simps)
  next
    case False
    define d :: u8 where "d = of_nat (48 + n mod 10)"
    have u: "unat d = 48 + n mod 10" by (simp add: d_def unat_of_nat del: of_nat_add)
    have "uint d = int (unat d)" by simp
    then have d: "48 \<le> d" "d \<le> 57" "uint d - 48 = int (n mod 10)" using u by (simp_all add: word_le_nat_alt)
    have n: "int (n div 10) * 10 + int (n mod 10) = int n" by presburger
    have "rev (dec_rev n) = rev (dec_rev (n div 10)) @ [d]" using False by (subst dec_rev.simps) (simp add: d_def)
    then have "katoi_loop 0 (rev (dec_rev n) @ rest) = katoi_loop (int (n div 10)) (d # rest)"
      using less(1) [of "n div 10" "d # rest"] less(2) False by simp
    also have "\<dots> = katoi_loop (int n) rest" using d n less(2) by (simp add: Let_def)
    finally show ?thesis .
  qed
qed

lemma hex_lower_digits: "k < 16 \<Longrightarrow> hex_digit (hex_lower ! k) = Some (of_nat k) \<and> hex_lower ! k \<noteq> 120 \<and> hex_lower ! k \<noteq> 88"
proof -
  have "list_all (\<lambda>k. hex_digit (hex_lower ! k) = Some (of_nat k) \<and> hex_lower ! k \<noteq> 120 \<and> hex_lower ! k \<noteq> 88) [0..<16]" by code_simp
  then show "k < 16 \<Longrightarrow> ?thesis" by (simp add: list_all_iff)
qed

lemma hex_step: "push_bit 4 (of_nat (n div 16)) OR of_nat (n mod 16) = (of_nat n :: u32)"
proof -
  have "push_bit 4 (drop_bit 4 n) OR take_bit 4 n = n"
    by (rule bit_eqI) (auto simp: bit_or_iff bit_push_bit_iff bit_drop_bit_eq bit_take_bit_iff)
  then have "push_bit 4 (n div 16) OR n mod 16 = n" by (simp add: drop_bit_eq_div take_bit_eq_mod)
  then show ?thesis by (metis of_nat_or_eq of_nat_push_bit)
qed

lemma parse_hex_digits: "parse_hex_loop 0 (rev (hex_rev hex_lower n) @ rest) = parse_hex_loop (of_nat n) rest"
proof (induction n arbitrary: rest rule: less_induct)
  case (less n)
  show ?case
  proof (cases "n = 0")
    case False
    then have "rev (hex_rev hex_lower n) = rev (hex_rev hex_lower (n div 16)) @ [hex_lower ! (n mod 16)]" by (subst hex_rev.simps) simp
    then have "parse_hex_loop 0 (rev (hex_rev hex_lower n) @ rest) = parse_hex_loop (of_nat (n div 16)) (hex_lower ! (n mod 16) # rest)"
      using less [of "n div 16" "hex_lower ! (n mod 16) # rest"] False by simp
    then show ?thesis using hex_lower_digits [of "n mod 16"] hex_step [of n] by simp
  qed (simp add: hex_rev.simps)
qed

lemma hex_rev_set: "c \<in> set (hex_rev hex_lower n) \<Longrightarrow> c \<noteq> 120 \<and> c \<noteq> 88"
proof (induction n rule: less_induct)
  case (less n)
  have "c \<in> set (if n = 0 then [] else hex_lower ! (n mod 16) # hex_rev hex_lower (n div 16))" using less(2) by (simp only: hex_rev.simps [of _ n])
  then show ?case using hex_lower_digits [of "n mod 16"] less(1) [of "n div 16"] by (auto split: if_splits)
qed

lemma parse_hex_no_prefix: "\<forall>c\<in>set cs. c \<noteq> 120 \<and> c \<noteq> 88 \<Longrightarrow> parse_hex cs = parse_hex_loop 0 cs"
  by (induction cs rule: parse_hex.induct) auto

lemma parse_hex_roundtrip: "parse_hex (hex_digits hex_lower n) = of_nat n"
proof (cases "n = 0")
  case True
  then show ?thesis by (simp add: hex_digits_def hex_digit_def)
next
  case False
  then show ?thesis
    using parse_hex_no_prefix [of "rev (hex_rev hex_lower n)"] hex_rev_set parse_hex_digits [of n "[]"] by (auto simp: hex_digits_def)
qed

lemma dec_rev_set: "c \<in> set (dec_rev n) \<Longrightarrow> 48 \<le> c \<and> c \<le> 57"
proof (induction n rule: less_induct)
  case (less n)
  have "unat (of_nat (48 + n mod 10) :: u8) = 48 + n mod 10" by (simp add: unat_of_nat del: of_nat_add)
  then have "48 \<le> (of_nat (48 + n mod 10) :: u8) \<and> (of_nat (48 + n mod 10) :: u8) \<le> 57" by (simp add: word_le_nat_alt del: of_nat_add)
  moreover have "c \<in> set (if n = 0 then [] else of_nat (48 + n mod 10) # dec_rev (n div 10))" using less(2) by (simp only: dec_rev.simps [of n])
  ultimately show ?case using less(1) [of "n div 10"] by (auto split: if_splits simp del: of_nat_add)
qed

lemma dec_digits_head:
  "dec_digits n \<noteq> []" "c \<in> set (dec_digits n) \<Longrightarrow> 48 \<le> c \<and> c \<le> 57" "n < 2 ^ 31 \<Longrightarrow> katoi_loop 0 (dec_digits n) = Some (int n)"
proof -
  show "dec_digits n \<noteq> []" by (simp add: dec_digits_def dec_rev.simps [of n])
  show "c \<in> set (dec_digits n) \<Longrightarrow> 48 \<le> c \<and> c \<le> 57" using dec_rev_set [of c n] by (auto simp: dec_digits_def split: if_splits)
  show "n < 2 ^ 31 \<Longrightarrow> katoi_loop 0 (dec_digits n) = Some (int n)" using katoi_digits [of n "[]"] by (simp add: dec_digits_def)
qed

lemma katoi_roundtrip:
  assumes "int_digits w = Some t"
  shows "katoi t = Some (sint w)"
proof -
  have lim: "sint w < 2 ^ 31" "- (2 ^ 31) \<le> sint w" using sint_lt [of w] sint_ge [of w] by simp_all
  have plain: "katoi (dec_digits n) = Some (int n)" if "n < 2 ^ 31" for n
  proof -
    obtain c cs where cs: "dec_digits n = c # cs" using dec_digits_head(1) by (meson neq_Nil_conv)
    then have c: "48 \<le> c" using dec_digits_head(2) [of c n] by simp
    then have "c \<noteq> 32" "c \<noteq> 45" "c \<noteq> 43" by auto
    then show ?thesis using dec_digits_head(3) [OF that] by (simp add: katoi_def cs)
  qed
  show ?thesis
  proof (cases "sint w < 0")
    case True
    then have "sint w \<noteq> - (2 ^ 31)" and t: "t = 45 # dec_digits (nat (- sint w))" using assms by (auto simp: int_digits_def split: if_splits)
    then have "- sint w < 2 ^ 31" using lim by linarith
    then have "nat (- sint w) < 2 ^ 31" by (simp add: nat_less_iff)
    then show ?thesis using dec_digits_head(3) [of "nat (- sint w)"] True by (simp add: t katoi_def)
  next
    case False
    then have "t = dec_digits (nat (sint w))" using assms by (auto simp: int_digits_def split: if_splits)
    moreover have "nat (sint w) < 2 ^ 31" using lim(1) by (simp add: nat_less_iff)
    ultimately show ?thesis using plain [of "nat (sint w)"] False by simp
  qed
qed

lemma length_dec_rev: "n < 10 ^ k \<Longrightarrow> length (dec_rev n) \<le> k"
proof (induction k arbitrary: n)
  case (Suc k)
  then have "n div 10 < 10 ^ k" by (simp add: less_mult_imp_div_less mult.commute)
  then show ?case using Suc.IH [of "n div 10"] by (simp add: dec_rev.simps [of n])
qed (simp add: dec_rev.simps)

lemma length_hex_rev: "n < 16 ^ k \<Longrightarrow> length (hex_rev hex n) \<le> k"
proof (induction k arbitrary: n)
  case (Suc k)
  then have "n div 16 < 16 ^ k" by (simp add: less_mult_imp_div_less mult.commute)
  then show ?case using Suc.IH [of "n div 16"] by (simp add: hex_rev.simps [of hex n])
qed (simp add: hex_rev.simps)

lemma int_digits_length:
  assumes "int_digits w = Some t"
  shows "length t \<le> 11"
proof -
  have "nat \<bar>sint w\<bar> < 10 ^ 10" using sint_lt [of w] sint_ge [of w] by simp
  then have "length (dec_digits (nat \<bar>sint w\<bar>)) \<le> 10" using length_dec_rev [of "nat \<bar>sint w\<bar>" 10] by (simp add: dec_digits_def)
  then show ?thesis using assms by (auto simp: int_digits_def split: if_splits)
qed

section \<open>Properties\<close>

text \<open>C39. Into a buffer of at least one byte, \<open>ksnprintf\<close> puts the text its format and arguments stand for, cut to leave
  room for the final 0: it stays inside the buffer and ends the string.\<close>

theorem ksnprintf_prefix:
  assumes "format_text fmt args = Some full" "1 \<le> bufsz"
  shows "ksnprintf bufsz fmt args = Some (take (nat (bufsz - 1)) full)"
proof -
  have "int (length (take (nat (bufsz - 1)) full)) < bufsz" using assms(2) by simp
  then show ?thesis using ksnprintf_loop_text [of "[]" bufsz fmt args full] assms(1) by (simp add: ksnprintf_def)
qed

theorem ksnprintf_prefix_witness: "ksnprintf 6 (text_of ''x=%u!'') [KInt 12345] = Some (text_of ''x=123'')"
proof -
  have "format_text (text_of ''x=%u!'') [KInt 12345] = Some (text_of ''x=12345!'')"
    by (simp add: text_of_def conv_text_def dec_digits_def dec_rev.simps of_char_def)
  from ksnprintf_prefix [OF this, of 6] show ?thesis by (simp add: text_of_def)
qed

text \<open>C40. A number printed is the number parsed back: decimal for every int but the least, hexadecimal for every word.\<close>

theorem number_roundtrip:
  assumes "12 \<le> bufsz"
  shows "(\<exists>t. ksnprintf bufsz (text_of ''%x'') [KInt w] = Some t \<and> parse_hex t = w) \<and>
    (sint w \<noteq> - (2 ^ 31) \<longrightarrow> (\<exists>t. ksnprintf bufsz (text_of ''%d'') [KInt w] = Some t \<and> katoi t = Some (sint w)))"
proof -
  let ?n = "nat (bufsz - 1)"
  have n: "11 \<le> ?n" using assms by linarith
  have cut: "ksnprintf bufsz fmt [KInt w] = Some t" if "format_text fmt [KInt w] = Some t" "length t \<le> 11" for fmt t
    using ksnprintf_loop_text [of "[]" bufsz fmt "[KInt w]" t] that n assms by (simp add: ksnprintf_def)
  have "unat w < 16 ^ 8" using unsigned_less [of w] by simp
  then have "length (hex_digits hex_lower (unat w)) \<le> 11" using length_hex_rev [of "unat w" 8 hex_lower] by (simp add: hex_digits_def)
  then have x: "ksnprintf bufsz (text_of ''%x'') [KInt w] = Some (hex_digits hex_lower (unat w))"
    by (intro cut) (simp_all add: text_of_def conv_text_def of_char_def)
  have d: "\<exists>t. ksnprintf bufsz (text_of ''%d'') [KInt w] = Some t \<and> katoi t = Some (sint w)" if "sint w \<noteq> - (2 ^ 31)"
  proof -
    note ne = that
    obtain t where t: "int_digits w = Some t" using ne by (cases "sint w < 0") (auto simp: int_digits_def)
    have "ksnprintf bufsz (text_of ''%d'') [KInt w] = Some t"
      using int_digits_length [OF t] t by (intro cut) (simp_all add: text_of_def conv_text_def of_char_def)
    then show ?thesis using katoi_roundtrip [OF t] by simp
  qed
  show ?thesis using x d parse_hex_roundtrip [of "unat w"] by simp
qed

theorem number_roundtrip_witness:
  "(\<exists>t. ksnprintf 16 (text_of ''%x'') [KInt 0xCAFE] = Some t \<and> parse_hex t = 0xCAFE) \<and>
   (\<exists>t. ksnprintf 16 (text_of ''%d'') [KInt (- 7)] = Some t \<and> katoi t = Some (- 7))"
  using number_roundtrip [of 16 "0xCAFE"] number_roundtrip [of 16 "- 7"] by simp

end
