(* ===== verification/Spec2Isabelle.thy ===== *)
theory Spec2Isabelle
  imports Pmm Kheap Inbox Postbox Menu Bouncer Curfew WatchList Sentry Atlas Tcp_Safety
    Vfs_Files Task_Queue Kprintf
begin

text \<open>
  Aevros is a 32-bit x86 kernel in C with its own memory managers, file system, scheduler and network stack.
  This library models the memory managers, the IPv4 stack with the tables that guard it, the RAM file system with
  the file system calls, the tasks and their ready queue, and the string and printing functions, and proves what
  they promise.

  \<^bold>\<open>How the parts interact.\<close> The physical memory manager hands out page frames. The buddy allocator splits a
  region of them into power-of-two blocks, the slab caches cut pages into small objects, and
  \<^verbatim>\<open>kmalloc\<close>/\<^verbatim>\<open>kfree\<close> choose between the two. A received frame passes the door and the flood detector and goes
  by its type to ARP or IPv4; IPv4 asks the access list and the rate limiter and goes by protocol to ICMP,
  UDP or TCP. A frame to send needs a pass from the transmit gate and leaves by the card driver; without a
  known MAC address it stays in the waiting area while ARP asks for it. Inodes, directory entries, buffers and
  tasks are blocks of the kernel heap; a path resolves along the hash chains of the directories, a descriptor of the
  current task leads to an entry, and the scheduler goes round the ready queue.

  \<^bold>\<open>Conventions.\<close> A C struct or the static variables of a file are a record, a static array is a list of its
  length, machine integers are words of their width. A function takes the state and returns it updated; an
  early return is a branch. The tick counter is the argument \<open>now\<close>, one value for a call. Console output,
  interrupt masking and locks have no counterpart. The network state is one record, extended from theory
  to theory, and each function is polymorphic in what later theories add, so a lemma about it holds of the
  whole machine. Handlers that the linker collects into a section are an argument. Paths are below
  \<^verbatim>\<open>src/\<close>, and \<^verbatim>\<open>Net\<close> stands for \<^verbatim>\<open>Networking\<close>.

  \<^bold>\<open>Theories.\<close>
  \<^item> \<open>Prelude\<close>: word types, table scans, rings; \<open>Interfaces\<close>: the contracts as locales (\<open>unit_allocator\<close>,
    \<open>bounded_fifo\<close>, \<open>byte_stream\<close>, \<open>byte_file\<close>, \<open>bounded_table\<close>, \<open>recent_log\<close>), each interpreted on the model's
    definitions in the theory of the component; \<open>Slots\<close>: tables of keyed slots.
  \<^item> \<open>Pmm\<close>, \<open>Buddy\<close>, \<open>Buddy_Run\<close>, \<open>Slab\<close>, \<open>Kheap\<close> (\<^verbatim>\<open>kernel/Memory\<close>): no unit is handed out twice or freed
    into use, live heap blocks are disjoint, counters equal contents, behaviour of sizes near \<^verbatim>\<open>2^32\<close>.
  \<^item> \<open>LockBox\<close>, \<open>Inbox\<close>, \<open>Postbox\<close> (\<^verbatim>\<open>Net/IPv4\<close>): the socket table keeps quotas and unique keys, a TCP
    buffer is a byte stream, a UDP buffer a bounded queue.
  \<^item> \<open>GuestList\<close>, \<open>Menu\<close>, \<open>Bouncer\<close>, \<open>Curfew\<close>, \<open>WatchList\<close>, \<open>Sentry\<close>, \<open>Atlas\<close>, \<open>Audit_Log\<close>: the guards, the
    routes and the log of events refine maps and lists of recent entries; exact thresholds.
  \<^item> \<open>Provenance\<close> (\<^verbatim>\<open>Provenance\<close>), \<open>NetWatch\<close>, \<open>NetObserve\<close> (\<^verbatim>\<open>Net/NetWatch\<close>): a trace returns what is
    reachable, every captured frame is accounted for, the parser stays inside what was captured.
  \<^item> \<open>Wire\<close>, \<open>Checksum\<close>: big-endian fields and the Internet checksum of sender and receiver.
  \<^item> \<open>FrontDesk\<close>, \<open>Bailiff\<close>, \<open>Rolodex\<close>, \<open>Foyer\<close>: sending order, passes used once, stable ARP bindings, the
    requests a waiting frame causes and when it is given up. \<open>on_line\<close> is what the card was handed and what is
    queued for it; \<open>tx_ready\<close> and \<open>gate_ready\<close> are conditions under which the next frames get there.
  \<^item> \<open>Echo\<close>, \<open>PostCard\<close>, \<open>Compass\<close>, \<open>Mailroom\<close>: ICMP, UDP, IPv4 input and the receive path; a datagram framed by
    one machine is delivered by another, and what a guard refuses reaches no handler.
  \<^item> \<open>SynCookie\<close> (\<^verbatim>\<open>Net/Lottery\<close>, \<^verbatim>\<open>Net/SynCookie\<close>): lifetime of cookies, distinct sequence numbers.
  \<^item> \<open>Why\<close>, \<open>Scheduler\<close>, \<open>Rapport\<close>, \<open>WayStation\<close>, \<open>Conversation\<close>, \<open>SwitchBoard\<close>: TCP, from the reason counters
    to the socket calls. Segments in any order append only the next bytes of the stream to the inbox, and
    one in order that fits is readable at once. \<open>scheduler_tick\<close> is in \<open>Rapport\<close>, since it resets connections.
  \<^item> \<open>Tcp_Safety\<close>: the events of TCP as a step relation and the invariant that every one keeps.
  \<^item> \<open>Kstate\<close> (\<^verbatim>\<open>Include/vfs.h\<close>, \<^verbatim>\<open>kernel/Process/task.h\<close>): the objects that files and tasks share, in stores indexed
    by heap addresses; \<open>Small_Kernel\<close>: a concrete kernel on which properties are evaluated.
  \<^item> \<open>Ramfs\<close>, \<open>Vfs\<close>, \<open>Vfs_Paths\<close>, \<open>Vfs_Files\<close> (\<^verbatim>\<open>kernel/VFS\<close>), \<open>Devfs\<close> (\<^verbatim>\<open>kernel/Dev\<close>, \<^verbatim>\<open>Drivers/tty.c\<close>): a file is an array
    of bytes, a new directory resolves and disturbs no other path, descriptors of a file share its contents,
    and unlinking an open file leaves them with freed memory.
  \<^item> \<open>Task\<close>, \<open>Task_Queue\<close> (\<^verbatim>\<open>kernel/Process\<close>): the ready queue is a list, \<open>schedule\<close> goes round it, and every ready
    task gets to run.
  \<^item> \<open>Cstring\<close>, \<open>Kprintf\<close> (\<^verbatim>\<open>Lib\<close>): output is cut to what fits, and printed numbers are read back.

  \<^bold>\<open>Bounds and termination.\<close> Loops over tables recurse on the table; retry loops recurse on the number of tries
  the code allows. \<open>ws_drain_loop\<close> ends because each round frees a held segment, \<open>accept_loop\<close> because slot
  numbers increase. The reassembly theorem is about a stream shorter than \<^verbatim>\<open>2^32\<close> bytes from its base and
  segments without FIN and RST; what the code does with sequence numbers that wrap is not covered by it.
  A walk along linked objects (free lists, hash chains, the ready queue) and a loop that doubles a size is a
  \<^theory_text>\<open>partial_function\<close> on options, so that not returning is the result \<open>None\<close>; where a property says that
  a call returns, this is proved. The contract of files is about offsets up to \<^verbatim>\<open>2^30\<close>. The theorem on
  the rate limiter is about at most 64 addresses, where its table evicts nothing.

  \<^bold>\<open>Not modelled.\<close> The IPv6 stack, with its counterparts of the IPv4 components, the clients on top of
  UDP (DHCP and name resolution), paging and address spaces, the ELF loader, the dispatch of system calls, the allocation
  tracker and the inspection tools of the kernel are not reached by this library. Of a context switch only the effect on
  the task structures is modelled, and an exit leaves out the release of the address space. Card
  bring-up, interrupt handlers, port and register access, the boot code, the graphical interface and the
  shell are input and output: their effect is on devices and on the screen. Tests and user programs are
  clients of the code.
\<close>

end
